(* ===== verification/Pulse_Prelude.thy ===== *)
theory Pulse_Prelude
  imports Main "HOL-Library.Word"
begin

text \<open>
  The shared base of the development: Go's fixed-width integers and durations,
  the values a Go function can end with (a result, an error or a panic), the
  collections of hints the component theories fill and use, and the few list
  facts that several components need.
\<close>

named_theorems step_defs \<open>definitions of the operations a step relation performs\<close>
named_theorems frame_rules \<open>what an operation leaves unchanged\<close>

section \<open>Integers\<close>

text \<open>
  Go's \<open>int\<close> and \<open>int64\<close> are 64-bit two's complement on every platform the
  Dockerfile builds for. A value is a \<open>64 word\<close>; \<open>+\<close>, \<open>-\<close> and \<open>*\<close> wrap, and a
  comparison of the source reads it with \<open>sint\<close>.
\<close>

type_synonym i64 = "64 word"
type_synonym duration = i64  \<comment> \<open>\<open>time.Duration\<close>: nanoseconds\<close>

definition i64_lt :: "i64 \<Rightarrow> i64 \<Rightarrow> bool" where
  "i64_lt a b \<longleftrightarrow> sint a < sint b"

definition i64_le :: "i64 \<Rightarrow> i64 \<Rightarrow> bool" where
  "i64_le a b \<longleftrightarrow> sint a \<le> sint b"

lemma i64_lt_sint [simp]: "i64_lt a b \<longleftrightarrow> sint a < sint b"
  by (simp add: i64_lt_def)

lemma i64_le_sint [simp]: "i64_le a b \<longleftrightarrow> sint a \<le> sint b"
  by (simp add: i64_le_def)

text \<open>Go's \<open>/\<close> on integers truncates towards zero.\<close>

definition quot :: "int \<Rightarrow> int \<Rightarrow> int" where
  "quot m n = (if (m < 0) = (n < 0) then \<bar>m\<bar> div \<bar>n\<bar> else - (\<bar>m\<bar> div \<bar>n\<bar>))"

lemma quot_nonneg: "0 \<le> m \<Longrightarrow> 0 < n \<Longrightarrow> quot m n = m div n"
  by (simp add: quot_def)

definition i64_div :: "i64 \<Rightarrow> i64 \<Rightarrow> i64" where
  "i64_div a b = word_of_int (quot (sint a) (sint b))"

lemma sint_i64_of_int:
  "- (2 ^ 63) \<le> k \<Longrightarrow> k < 2 ^ 63 \<Longrightarrow> sint (word_of_int k :: i64) = k"
  by (simp add: sint_sbintrunc' signed_take_bit_int_eq_self)

lemma sint_i64_range: "- (2 ^ 63) \<le> sint (w :: i64)" "sint (w :: i64) < 2 ^ 63"
  using sint_ge [of w] sint_lt [of w] by simp_all

lemma sint_i64_div_pos:
  assumes "0 \<le> sint a" and "0 < sint b"
  shows "sint (i64_div a b) = sint a div sint b"
proof -
  have "0 \<le> sint a div sint b" using assms by (simp add: pos_imp_zdiv_nonneg_iff)
  moreover have "sint a div sint b \<le> sint a"
    using assms zdiv_mono2 [of "sint a" 1 "sint b"] by simp
  ultimately show ?thesis
    using sint_i64_range(2) [of a] assms
    by (simp add: i64_div_def quot_nonneg sint_i64_of_int)
qed

subsection \<open>Durations of the \<open>time\<close> package\<close>

definition Millisecond :: duration where
  "Millisecond = 1000000"

definition Second :: duration where
  "Second = 1000000000"

lemma sint_Millisecond [simp]: "sint Millisecond = 1000000"
  by (simp add: Millisecond_def)

lemma sint_Second [simp]: "sint Second = 1000000000"
  by (simp add: Second_def)

text \<open>\<open>func (d Duration) Milliseconds() int64\<close>\<close>

definition Milliseconds :: "duration \<Rightarrow> i64" where
  "Milliseconds d = i64_div d Millisecond"

lemma sint_Milliseconds: "0 \<le> sint d \<Longrightarrow> sint (Milliseconds d) = sint d div 1000000"
  by (simp add: Milliseconds_def sint_i64_div_pos)

section \<open>Panics\<close>

text \<open>
  A run-time panic of the program's own goroutine, the left value of a sum. Only
  the panics that the modelled code can raise are listed.
\<close>

datatype go_panic =
    NonPositiveTicker  \<comment> \<open>\<open>time.NewTicker\<close> of an interval below 1\<close>
  | SendOnClosed
  | CloseOfClosed
  | MakeSliceLen       \<comment> \<open>\<open>make\<close> of a slice with a negative length\<close>
  | HandlerPanic string  \<comment> \<open>a panic value raised inside an HTTP handler\<close>

section \<open>Lists\<close>

text \<open>
  The concurrent components keep one entry per goroutine in a list and change one
  entry per step, so what a single update does to a count is used throughout.
\<close>

definition count_of :: "('a \<Rightarrow> bool) \<Rightarrow> 'a list \<Rightarrow> nat" where
  "count_of P xs = length (filter P xs)"

lemma count_of_Nil [simp]: "count_of P [] = 0"
  by (simp add: count_of_def)

lemma count_of_Cons [simp]: "count_of P (x # xs) = (if P x then 1 else 0) + count_of P xs"
  by (simp add: count_of_def)

lemma count_of_append [simp]: "count_of P (xs @ ys) = count_of P xs + count_of P ys"
  by (simp add: count_of_def)

lemma count_of_le_length: "count_of P xs \<le> length xs"
  by (simp add: count_of_def)

lemma count_of_update:
  "i < length xs \<Longrightarrow>
     count_of P (xs[i := y]) + (if P (xs ! i) then 1 else 0) =
     count_of P xs + (if P y then 1 else 0)"
proof (induction xs arbitrary: i)
  case Nil
  then show ?case by simp
next
  case (Cons x xs)
  then show ?case by (cases i) auto
qed

lemma count_of_update_same:
  assumes "i < length xs" and "P y = P (xs ! i)"
  shows "count_of P (xs[i := y]) = count_of P xs"
  using count_of_update [of i xs P y] assms by simp

lemma count_of_update_gain:
  assumes "i < length xs" and "\<not> P (xs ! i)" and "P y"
  shows "count_of P (xs[i := y]) = Suc (count_of P xs)"
  using count_of_update [of i xs P y] assms by simp

lemma count_of_update_lose:
  assumes "i < length xs" and "P (xs ! i)" and "\<not> P y"
  shows "Suc (count_of P (xs[i := y])) = count_of P xs"
  using count_of_update [of i xs P y] assms by simp

lemma count_of_pos: "i < length xs \<Longrightarrow> P (xs ! i) \<Longrightarrow> 0 < count_of P xs"
  using nth_mem by (fastforce simp: count_of_def filter_empty_conv)

lemma count_of_zero: "count_of P xs = 0 \<longleftrightarrow> (\<forall>x \<in> set xs. \<not> P x)"
  by (simp add: count_of_def filter_empty_conv)

lemma count_of_replicate [simp]: "count_of P (replicate n x) = (if P x then n else 0)"
  by (induction n) auto

lemma count_of_mono: "(\<And>x. P x \<Longrightarrow> Q x) \<Longrightarrow> count_of P xs \<le> count_of Q xs"
  by (induction xs) auto

text \<open>The sum of a rank over the entries, for termination arguments.\<close>

lemma sum_list_update_less:
  fixes f :: "'a \<Rightarrow> nat"
  assumes "i < length xs" and "f y < f (xs ! i)"
  shows "sum_list (map f (xs[i := y])) < sum_list (map f xs)"
  using assms
proof (induction xs arbitrary: i)
  case Nil
  then show ?case by simp
next
  case (Cons x xs)
  then show ?case by (cases i) auto
qed

end
