(* ===== verification/Go_Transitions.thy ===== *)
theory Go_Transitions
  imports Pulse_Prelude
begin

text \<open>
  Step relations for the concurrent parts of the program. A component with
  goroutines is a state type and a relation \<open>step s e t\<close>: the event \<open>e\<close> is one
  atomic action (a channel operation, an atomic counter, a critical section) of
  one goroutine or of the run-time. A run is a finite sequence of such events in
  any order the relation admits, that is, an arbitrary interleaving.

  Four interfaces are stated as locales: a system with an invariant, a
  system whose steps consume a rank (so that runs are bounded), a simulation of
  one system by another along a function, and one along a relation.
\<close>

inductive run :: "('s \<Rightarrow> 'e \<Rightarrow> 's \<Rightarrow> bool) \<Rightarrow> 's \<Rightarrow> 'e list \<Rightarrow> 's \<Rightarrow> bool"
  for step where
  run_nil: "run step s [] s"
| run_cons: "step s e t \<Longrightarrow> run step t es u \<Longrightarrow> run step s (e # es) u"

inductive_simps run_Nil_iff [simp]: "run step s [] t"
inductive_simps run_Cons_iff: "run step s (e # es) t"

lemma run_single: "step s e t \<Longrightarrow> run step s [e] t"
  by (rule run_cons) (auto intro: run_nil)

lemma run_append: "run step s es t \<Longrightarrow> run step t fs u \<Longrightarrow> run step s (es @ fs) u"
  by (induction rule: run.induct) (auto intro: run_cons)

lemma run_append_iff: "run step s (es @ fs) u \<longleftrightarrow> (\<exists>t. run step s es t \<and> run step t fs u)"
proof
  show "run step s (es @ fs) u \<Longrightarrow> \<exists>t. run step s es t \<and> run step t fs u"
  proof (induction es arbitrary: s)
    case Nil
    then show ?case by (auto intro: run_nil)
  next
    case (Cons e es)
    then obtain t where "step s e t" and "run step t (es @ fs) u"
      by (auto simp: run_Cons_iff)
    with Cons.IH show ?case by (blast intro: run_cons)
  qed
qed (blast intro: run_append)

lemma run_snoc: "run step s es t \<Longrightarrow> step t e u \<Longrightarrow> run step s (es @ [e]) u"
  by (rule run_append) (auto intro: run_single)

text \<open>Any fact one step keeps is kept by a run.\<close>

lemma run_preserves:
  assumes "run step s es t" and "P s"
    and "\<And>s e t. step s e t \<Longrightarrow> P s \<Longrightarrow> P t"
  shows "P t"
  using assms(1,2) by (induction rule: run.induct) (auto intro: assms(3))

lemma run_preserves_all:
  assumes "run step s es t" and "P s"
    and "\<And>s e t. step s e t \<Longrightarrow> P s \<Longrightarrow> e \<in> set es \<Longrightarrow> P t"
  shows "P t"
  using assms
proof (induction rule: run.induct)
  case (run_nil s)
  then show ?case by simp
next
  case (run_cons s e t es u)
  then show ?case by (meson list.set_intros)
qed

section \<open>Systems with an invariant\<close>

locale invariant_system =
  fixes init :: "'s \<Rightarrow> bool"
    and step :: "'s \<Rightarrow> 'e \<Rightarrow> 's \<Rightarrow> bool"
    and inv :: "'s \<Rightarrow> bool"
  assumes inv_init: "init s \<Longrightarrow> inv s"
    and inv_step: "step s e t \<Longrightarrow> inv s \<Longrightarrow> inv t"
begin

lemma inv_run: "run step s es t \<Longrightarrow> inv s \<Longrightarrow> inv t"
  by (erule run_preserves) (auto intro: inv_step)

lemma inv_reachable: "init s \<Longrightarrow> run step s es t \<Longrightarrow> inv t"
  by (blast intro: inv_run inv_init)

end

section \<open>Systems whose steps consume a rank\<close>

locale ranked_system = invariant_system +
  fixes rank :: "'s \<Rightarrow> nat"
  assumes rank_step: "step s e t \<Longrightarrow> inv s \<Longrightarrow> rank t < rank s"
begin

lemma run_bounded: "run step s es t \<Longrightarrow> inv s \<Longrightarrow> length es + rank t \<le> rank s"
proof (induction rule: run.induct)
  case (run_nil s)
  then show ?case by simp
next
  case (run_cons s e t es u)
  then show ?case using rank_step [of s e t] inv_step [of s e t] by simp
qed

lemma runs_terminate: "init s \<Longrightarrow> run step s es t \<Longrightarrow> length es \<le> rank s"
  using run_bounded inv_init by (metis add_leE)

end

section \<open>Simulations\<close>

locale simulation =
  fixes cstep :: "'c \<Rightarrow> 'e \<Rightarrow> 'c \<Rightarrow> bool"
    and astep :: "'a \<Rightarrow> 'f \<Rightarrow> 'a \<Rightarrow> bool"
    and cinv :: "'c \<Rightarrow> bool"
    and absf :: "'c \<Rightarrow> 'a"
    and label_of :: "'c \<Rightarrow> 'e \<Rightarrow> 'f option"
  assumes cinv_step: "cstep s e t \<Longrightarrow> cinv s \<Longrightarrow> cinv t"
    and sim_visible: "cstep s e t \<Longrightarrow> cinv s \<Longrightarrow> label_of s e = Some f \<Longrightarrow> astep (absf s) f (absf t)"
    and sim_hidden: "cstep s e t \<Longrightarrow> cinv s \<Longrightarrow> label_of s e = None \<Longrightarrow> absf t = absf s"
begin

lemma simulates:
  "run cstep s es t \<Longrightarrow> cinv s \<Longrightarrow> \<exists>fs. length fs \<le> length es \<and> run astep (absf s) fs (absf t)"
proof (induction rule: run.induct)
  case (run_nil s)
  then show ?case by auto
next
  case (run_cons s e t es u)
  then obtain fs where fs: "length fs \<le> length es" "run astep (absf t) fs (absf u)"
    using cinv_step by blast
  show ?case
  proof (cases "label_of s e")
    case None
    with run_cons fs have "run astep (absf s) fs (absf u)"
      using sim_hidden [of s e t] by simp
    with fs(1) show ?thesis by (intro exI [of _ fs]) simp
  next
    case (Some f)
    then have "run astep (absf s) (f # fs) (absf u)"
      using run_cons fs(2) sim_visible [of s e t f] by (blast intro: run.run_cons)
    with fs(1) show ?thesis by (intro exI [of _ "f # fs"]) simp
  qed
qed

end

text \<open>
  The same with a relation instead of a function, and any number of abstract steps
  for a concrete one: a component followed through a system that contains it.
\<close>

locale forward_simulation =
  fixes cstep :: "'c \<Rightarrow> 'e \<Rightarrow> 'c \<Rightarrow> bool"
    and astep :: "'a \<Rightarrow> 'f \<Rightarrow> 'a \<Rightarrow> bool"
    and cinv :: "'c \<Rightarrow> bool"
    and follows :: "'c \<Rightarrow> 'a \<Rightarrow> bool"
  assumes keeps_cinv: "cstep s e t \<Longrightarrow> cinv s \<Longrightarrow> cinv t"
    and forward: "cstep s e t \<Longrightarrow> cinv s \<Longrightarrow> follows s a \<Longrightarrow> \<exists>fs b. run astep a fs b \<and> follows t b"
begin

lemma run_followed:
  "run cstep s es t \<Longrightarrow> cinv s \<Longrightarrow> follows s a \<Longrightarrow> \<exists>fs b. run astep a fs b \<and> follows t b"
proof (induction arbitrary: a rule: run.induct)
  case (run_nil s)
  then show ?case by (blast intro: run.run_nil)
next
  case (run_cons s e t es u)
  from forward [OF run_cons.hyps(1) run_cons.prems] obtain fs b where
    b: "run astep a fs b" "follows t b" by blast
  from run_cons.IH [OF keeps_cinv [OF run_cons.hyps(1) run_cons.prems(1)] b(2)] obtain gs c where
    "run astep b gs c" "follows u c" by blast
  with b(1) show ?case by (blast intro: run_append)
qed

end

end
