(* ===== verification/Go_Runtime.thy ===== *)
theory Go_Runtime
  imports Go_Transitions
begin

text \<open>
  The run-time objects the program is built from: buffered channels, tickers and
  contexts. They model the language and its standard library as far as the
  source uses them: \<open>make(chan T, n)\<close>, a \<open>select\<close> send with a \<open>default\<close>, a receive,
  \<open>close\<close>, \<open>time.NewTicker\<close> with its one-slot channel, and the error of a context.
\<close>

section \<open>Channels\<close>

record 'a chan =
  ch_cap :: nat
  ch_buf :: "'a list"
  ch_closed :: bool

definition make_chan :: "nat \<Rightarrow> 'a chan" where
  "make_chan n = \<lparr>ch_cap = n, ch_buf = [], ch_closed = False\<rparr>"

lemma make_chan_simps [simp]:
  "ch_cap (make_chan n) = n" "ch_buf (make_chan n) = []" "\<not> ch_closed (make_chan n)"
  by (simp_all add: make_chan_def)

text \<open>
  \<open>select { case ch <- x: default: }\<close>: a send that gives up when the buffer is full.
  A send on a closed channel panics also inside a \<open>select\<close>.
\<close>

definition try_send :: "'a \<Rightarrow> 'a chan \<Rightarrow> go_panic + 'a chan" where
  "try_send x c =
     (if ch_closed c then Inl SendOnClosed
      else if length (ch_buf c) < ch_cap c then Inr (c\<lparr>ch_buf := ch_buf c @ [x]\<rparr>)
      else Inr c)"

text \<open>
  \<open>x, ok := <-ch\<close>: \<open>None\<close> when the receive blocks, \<open>Some (None, c)\<close> when the channel
  is closed and drained.
\<close>

definition recv :: "'a chan \<Rightarrow> ('a option \<times> 'a chan) option" where
  "recv c =
     (case ch_buf c of
        x # xs \<Rightarrow> Some (Some x, c\<lparr>ch_buf := xs\<rparr>)
      | [] \<Rightarrow> (if ch_closed c then Some (None, c) else None))"

definition close_chan :: "'a chan \<Rightarrow> go_panic + 'a chan" where
  "close_chan c = (if ch_closed c then Inl CloseOfClosed else Inr (c\<lparr>ch_closed := True\<rparr>))"

definition chan_ok :: "'a chan \<Rightarrow> bool" where
  "chan_ok c \<longleftrightarrow> length (ch_buf c) \<le> ch_cap c"

lemma chan_ok_make [simp]: "chan_ok (make_chan n)"
  by (simp add: chan_ok_def)

lemma try_send_frame:
  "try_send x c = Inr c' \<Longrightarrow>
     ch_cap c' = ch_cap c \<and> ch_closed c' = ch_closed c \<and> (chan_ok c \<longrightarrow> chan_ok c')"
  by (auto simp: try_send_def chan_ok_def split: if_splits)

lemma recv_Some_iff:
  "recv c = Some (Some x, c') \<longleftrightarrow> ch_buf c = x # ch_buf c' \<and> c' = c\<lparr>ch_buf := ch_buf c'\<rparr>"
  by (cases c, cases c') (auto simp: recv_def split: list.splits if_splits)

lemma recv_blocks_iff: "recv c = None \<longleftrightarrow> ch_buf c = [] \<and> \<not> ch_closed c"
  by (auto simp: recv_def split: list.splits)

text \<open>
  The interface the clients rely on: a bounded first-in first-out queue whose
  send drops when full. The client's view of a channel is its contents.
\<close>

locale bounded_queue =
  fixes send :: "'a \<Rightarrow> 'q \<Rightarrow> 'q"
    and take_first :: "'q \<Rightarrow> ('a \<times> 'q) option"
    and contents :: "'q \<Rightarrow> 'a list"
    and capacity :: "'q \<Rightarrow> nat"
    and live :: "'q \<Rightarrow> bool"
  assumes send_room: "live q \<Longrightarrow> length (contents q) < capacity q \<Longrightarrow> contents (send x q) = contents q @ [x]"
    and send_full: "live q \<Longrightarrow> capacity q \<le> length (contents q) \<Longrightarrow> contents (send x q) = contents q"
    and send_capacity: "live q \<Longrightarrow> capacity (send x q) = capacity q"
    and send_live: "live q \<Longrightarrow> live (send x q)"
    and take_first_empty: "live q \<Longrightarrow> contents q = [] \<Longrightarrow> take_first q = None"
    and take_first_rest: "live q \<Longrightarrow> take_first q = Some (x, q') \<Longrightarrow>
       contents q = x # contents q' \<and> capacity q' = capacity q \<and> live q'"
    and take_first_enabled: "live q \<Longrightarrow> contents q \<noteq> [] \<Longrightarrow> take_first q \<noteq> None"
begin

text \<open>A burst of sends keeps the frames that fit, in order: the rest is dropped.\<close>

lemma send_burst:
  "live q \<Longrightarrow> length (contents q) \<le> capacity q \<Longrightarrow>
     contents (fold send xs q) = contents q @ take (capacity q - length (contents q)) xs"
proof (induction xs arbitrary: q)
  case Nil
  then show ?case by simp
next
  case (Cons x xs)
  show ?case
  proof (cases "length (contents q) < capacity q")
    case True
    then obtain k where k: "capacity q - length (contents q) = Suc k"
      by (metis Suc_diff_Suc)
    then have "capacity q - length (contents (send x q)) = k"
      using Cons.prems True by (simp add: send_room)
    with Cons k True show ?thesis by (simp add: send_room send_capacity send_live)
  next
    case False
    with Cons show ?thesis by (simp add: send_full send_capacity send_live)
  qed
qed

lemma burst_live: "live q \<Longrightarrow> live (fold send xs q) \<and> capacity (fold send xs q) = capacity q"
  by (induction xs arbitrary: q) (simp_all add: send_live send_capacity)

lemma burst_bounded:
  "live q \<Longrightarrow> length (contents q) \<le> capacity q \<Longrightarrow>
     length (contents (fold send xs q)) \<le> capacity (fold send xs q)"
  by (simp add: send_burst burst_live)

end

definition send_or_drop :: "'a \<Rightarrow> 'a chan \<Rightarrow> 'a chan" where
  "send_or_drop x c = (case try_send x c of Inl _ \<Rightarrow> c | Inr c' \<Rightarrow> c')"

definition recv_first :: "'a chan \<Rightarrow> ('a \<times> 'a chan) option" where
  "recv_first c = (case recv c of Some (Some x, c') \<Rightarrow> Some (x, c') | _ \<Rightarrow> None)"

lemma recv_first_Cons: "ch_buf c = x # xs \<Longrightarrow> recv_first c = Some (x, c\<lparr>ch_buf := xs\<rparr>)"
  by (simp add: recv_first_def recv_def)

lemma recv_first_Nil: "ch_buf c = [] \<Longrightarrow> recv_first c = None"
  by (simp add: recv_first_def recv_def)

interpretation chan_queue: bounded_queue send_or_drop recv_first ch_buf ch_cap "\<lambda>c. \<not> ch_closed c"
proof
  fix q :: "'a chan" and x q'
  show "recv_first q = Some (x, q') \<Longrightarrow> \<not> ch_closed q \<Longrightarrow>
      ch_buf q = x # ch_buf q' \<and> ch_cap q' = ch_cap q \<and> \<not> ch_closed q'"
    by (cases "ch_buf q") (auto simp: recv_first_Cons recv_first_Nil)
  show "ch_buf q \<noteq> [] \<Longrightarrow> recv_first q \<noteq> None"
    by (cases "ch_buf q") (auto simp: recv_first_Cons)
qed (auto simp: send_or_drop_def try_send_def recv_first_Nil)

section \<open>Tickers\<close>

text \<open>
  \<open>time.NewTicker(d)\<close> delivers on a channel of one slot: a tick that finds the slot
  occupied is dropped. When the run-time fires a ticker late, the next instant
  is the first multiple of the period after the present, so a slow receiver
  loses ticks rather than accumulating them. Instants are nanoseconds.
\<close>

type_synonym time = nat

record ticker =
  tk_period :: nat
  tk_next :: time
  tk_pending :: bool
  tk_stopped :: bool

definition NewTicker :: "duration \<Rightarrow> time \<Rightarrow> go_panic + ticker" where
  "NewTicker d now =
     (if i64_le d 0 then Inl NonPositiveTicker
      else Inr \<lparr>tk_period = nat (sint d), tk_next = now + nat (sint d),
                tk_pending = False, tk_stopped = False\<rparr>)"

definition ticker_due :: "ticker \<Rightarrow> time \<Rightarrow> bool" where
  "ticker_due k now \<longleftrightarrow> \<not> tk_stopped k \<and> tk_next k \<le> now"

definition ticker_fire :: "ticker \<Rightarrow> time \<Rightarrow> ticker" where
  "ticker_fire k now =
     k\<lparr>tk_pending := True,
       tk_next := tk_next k + tk_period k * (1 + (now - tk_next k) div tk_period k)\<rparr>"

definition ticker_take :: "ticker \<Rightarrow> ticker" where
  "ticker_take k = k\<lparr>tk_pending := False\<rparr>"

definition ticker_stop :: "ticker \<Rightarrow> ticker" where
  "ticker_stop k = k\<lparr>tk_stopped := True\<rparr>"

lemma ticker_fields [simp]:
  "tk_period (ticker_fire k now) = tk_period k"
  "tk_pending (ticker_fire k now)"
  "tk_stopped (ticker_fire k now) = tk_stopped k"
  "tk_period (ticker_take k) = tk_period k"
  "tk_next (ticker_take k) = tk_next k"
  "\<not> tk_pending (ticker_take k)"
  "tk_stopped (ticker_take k) = tk_stopped k"
  "tk_period (ticker_stop k) = tk_period k"
  "tk_next (ticker_stop k) = tk_next k"
  "tk_pending (ticker_stop k) = tk_pending k"
  "tk_stopped (ticker_stop k)"
  by (simp_all add: ticker_fire_def ticker_take_def ticker_stop_def)

lemma ticker_fire_next:
  assumes "tk_next k \<le> now" and "0 < tk_period k"
  shows "tk_next k + tk_period k \<le> tk_next (ticker_fire k now)"
    and "now < tk_next (ticker_fire k now)"
    and "tk_next (ticker_fire k now) \<le> now + tk_period k"
proof -
  let ?p = "tk_period k" and ?d = "now - tk_next k"
  have eq: "tk_next (ticker_fire k now) = tk_next k + ?p + ?p * (?d div ?p)"
    by (simp add: ticker_fire_def algebra_simps)
  have "?p * (?d div ?p) \<le> ?d" by simp
  moreover have "?d < ?p + ?p * (?d div ?p)"
    using assms(2) by (metis dividend_less_div_times add.commute mult.commute)
  ultimately show "tk_next k + ?p \<le> tk_next (ticker_fire k now)"
    "now < tk_next (ticker_fire k now)" "tk_next (ticker_fire k now) \<le> now + ?p"
    using eq assms(1) by linarith+
qed

section \<open>Contexts\<close>

text \<open>The value of \<open>ctx.Err()\<close> once \<open>ctx.Done()\<close> is closed.\<close>

datatype ctx_err = Canceled | DeadlineExceeded

end
