(* ===== verification/Bucket.thy ===== *)
theory Bucket
  imports Go_Runtime
begin

text \<open>
  The token bucket of \<open>internal/ratelimit/bucket.go\<close>: its state, the operations
  \<open>NewBucket\<close>, \<open>refill\<close>, \<open>Wait\<close> and \<open>Close\<close>, and the system made of one bucket, its
  refill goroutine, its ticker and any number of callers of \<open>Wait\<close>, whose atomic
  actions interleave freely.
\<close>

section \<open>State and operations\<close>

datatype wait_err = CtxErr ctx_err | ErrClosed

record bucket =
  tokens :: "unit chan"
  refill_ticker :: ticker
  closeOnce :: bool          \<comment> \<open>the \<open>sync.Once\<close> has run\<close>
  done_ch :: "unit chan"
  refilling :: bool          \<comment> \<open>the goroutine started by \<open>NewBucket\<close> is alive\<close>

definition NewBucket :: "i64 \<Rightarrow> time \<Rightarrow> go_panic + bucket" where
  "NewBucket ratePerSecond now =
     (let r = (if i64_lt ratePerSecond 1 then 1 else ratePerSecond) in
      case NewTicker (i64_div Second r) now of
        Inl p \<Rightarrow> Inl p
      | Inr k \<Rightarrow> Inr \<lparr>tokens = make_chan (nat (sint r)), refill_ticker = k,
                       closeOnce = False, done_ch = make_chan 0, refilling = True\<rparr>)"

text \<open>
  One iteration of the loop in \<open>refill\<close>. A \<open>select\<close> takes any of its ready cases, so
  the case is an argument and the result is \<open>None\<close> when that case is not ready.
\<close>

datatype refill_case = RefillDone | RefillTick

fun Bucket_refill :: "bucket \<Rightarrow> refill_case \<Rightarrow> bucket option" where
  "Bucket_refill b RefillDone =
     (if refilling b \<and> ch_closed (done_ch b)
      then Some (b\<lparr>refilling := False, refill_ticker := ticker_stop (refill_ticker b)\<rparr>)
      else None)"
| "Bucket_refill b RefillTick =
     (if refilling b \<and> tk_pending (refill_ticker b)
      then Some (b\<lparr>refill_ticker := ticker_take (refill_ticker b),
                   tokens := send_or_drop () (tokens b)\<rparr>)
      else None)"

text \<open>
  \<open>Wait\<close>: the \<open>select\<close> over a token, the end of the caller's context and the end of
  the bucket. The second component of a result is the error returned.
\<close>

datatype wait_case = WaitToken | WaitCtx | WaitDone

fun Bucket_Wait :: "bucket \<Rightarrow> ctx_err option \<Rightarrow> wait_case \<Rightarrow> (bucket \<times> wait_err option) option" where
  "Bucket_Wait b ctx WaitToken =
     (case recv_first (tokens b) of
        None \<Rightarrow> None
      | Some (_, q) \<Rightarrow> Some (b\<lparr>tokens := q\<rparr>, None))"
| "Bucket_Wait b ctx WaitCtx =
     (case ctx of None \<Rightarrow> None | Some e \<Rightarrow> Some (b, Some (CtxErr e)))"
| "Bucket_Wait b ctx WaitDone =
     (if ch_closed (done_ch b) then Some (b, Some ErrClosed) else None)"

definition Bucket_Close :: "bucket \<Rightarrow> go_panic + bucket" where
  "Bucket_Close b =
     (if closeOnce b then Inr b
      else (case close_chan (done_ch b) of
              Inl p \<Rightarrow> Inl p
            | Inr d \<Rightarrow> Inr (b\<lparr>closeOnce := True, done_ch := d\<rparr>)))"

section \<open>Well-formed buckets\<close>

text \<open>The number of tokens at hand and the capacity, which is the rate.\<close>

definition level :: "bucket \<Rightarrow> nat" where
  "level b = length (ch_buf (tokens b))"

definition capacity_of :: "bucket \<Rightarrow> nat" where
  "capacity_of b = ch_cap (tokens b)"

definition period_of :: "bucket \<Rightarrow> nat" where
  "period_of b = tk_period (refill_ticker b)"

definition bucket_ok :: "bucket \<Rightarrow> bool" where
  "bucket_ok b \<longleftrightarrow> level b \<le> capacity_of b \<and> 0 < capacity_of b \<and> 0 < period_of b \<and>
     \<not> ch_closed (tokens b) \<and> closeOnce b = ch_closed (done_ch b) \<and>
     (refilling b \<longleftrightarrow> \<not> tk_stopped (refill_ticker b)) \<and>
     (\<not> refilling b \<longrightarrow> ch_closed (done_ch b))"

text \<open>A tick that has been fired and not yet received.\<close>

definition pending :: "bucket \<Rightarrow> nat" where
  "pending b = (if tk_pending (refill_ticker b) then 1 else 0)"

definition next_of :: "bucket \<Rightarrow> time" where
  "next_of b = tk_next (refill_ticker b)"

definition is_closed :: "bucket \<Rightarrow> bool" where
  "is_closed b = ch_closed (done_ch b)"

lemmas bucket_views =
  level_def capacity_of_def period_of_def pending_def next_of_def is_closed_def

text \<open>The rate a bucket really works at: at least one token per second.\<close>

definition clamped :: "i64 \<Rightarrow> i64" where
  "clamped r = (if i64_lt r 1 then 1 else r)"

lemma clamped_pos: "0 < sint (clamped r)"
  by (simp add: clamped_def)

lemma bucket_period_value: "sint (i64_div Second (clamped r)) = 1000000000 div sint (clamped r)"
  using clamped_pos [of r] by (simp add: sint_i64_div_pos)

lemma NewTicker_cases:
  "NewTicker d now =
     (if sint d \<le> 0 then Inl NonPositiveTicker
      else Inr \<lparr>tk_period = nat (sint d), tk_next = now + nat (sint d),
                tk_pending = False, tk_stopped = False\<rparr>)"
  by (simp add: NewTicker_def)

lemma NewBucket_eq:
  "NewBucket r now =
     (if 1000000000 < sint (clamped r) then Inl NonPositiveTicker
      else Inr \<lparr>tokens = make_chan (nat (sint (clamped r))),
                refill_ticker = \<lparr>tk_period = nat (1000000000 div sint (clamped r)),
                  tk_next = now + nat (1000000000 div sint (clamped r)),
                  tk_pending = False, tk_stopped = False\<rparr>,
                closeOnce = False, done_ch = make_chan 0, refilling = True\<rparr>)"
proof -
  have "1000000000 div sint (clamped r) \<le> 0 \<longleftrightarrow> 1000000000 < sint (clamped r)"
    using clamped_pos [of r]
    by (smt (verit) div_pos_pos_trivial pos_imp_zdiv_pos_iff)
  then show ?thesis
    unfolding NewBucket_def Let_def clamped_def [symmetric] NewTicker_cases bucket_period_value
    by simp
qed

lemma NewBucket_ok:
  assumes "NewBucket r now = Inr b"
  shows "bucket_ok b" and "level b = 0" and "capacity_of b = nat (sint (clamped r))"
    and "period_of b = nat (1000000000 div sint (clamped r))"
    and "next_of b = now + period_of b" and "pending b = 0"
    and "\<not> is_closed b" and "refilling b"
proof -
  from assms have le: "sint (clamped r) \<le> 1000000000" and
    b: "b = \<lparr>tokens = make_chan (nat (sint (clamped r))),
                refill_ticker = \<lparr>tk_period = nat (1000000000 div sint (clamped r)),
                  tk_next = now + nat (1000000000 div sint (clamped r)),
                  tk_pending = False, tk_stopped = False\<rparr>,
                closeOnce = False, done_ch = make_chan 0, refilling = True\<rparr>"
    by (auto simp: NewBucket_eq split: if_splits)
  have "0 < 1000000000 div sint (clamped r)"
    using le clamped_pos [of r] by (simp add: pos_imp_zdiv_pos_iff)
  with b clamped_pos [of r] show "bucket_ok b" by (simp add: bucket_ok_def bucket_views)
  from b show "level b = 0" "capacity_of b = nat (sint (clamped r))"
    "period_of b = nat (1000000000 div sint (clamped r))"
    "next_of b = now + period_of b" "pending b = 0" "\<not> is_closed b" "refilling b"
    by (simp_all add: bucket_views)
qed

lemma NewBucket_total: "sint r \<le> 1000000000 \<Longrightarrow> \<exists>b. NewBucket r now = Inr b"
  by (cases "sint r < 1") (simp_all add: NewBucket_eq clamped_def)

section \<open>What each operation does\<close>

lemma refill_tick_spec:
  assumes "bucket_ok b" and "Bucket_refill b RefillTick = Some b'"
  shows "level b' = min (Suc (level b)) (capacity_of b)" and "pending b = 1" and "pending b' = 0"
    and "refilling b"
  using assms
  by (auto simp: bucket_ok_def bucket_views send_or_drop_def try_send_def split: if_splits)

lemma refill_done_spec:
  assumes "bucket_ok b" and "Bucket_refill b RefillDone = Some b'"
  shows "level b' = level b" and "pending b' = pending b" and "\<not> refilling b'" and "is_closed b"
  using assms by (auto simp: bucket_ok_def bucket_views split: if_splits)

lemma refill_spec:
  assumes "bucket_ok b" and "Bucket_refill b c = Some b'"
  shows "bucket_ok b'" and "next_of b' = next_of b" and "capacity_of b' = capacity_of b"
    and "period_of b' = period_of b" and "is_closed b' = is_closed b"
    and "level b' + pending b' \<le> level b + pending b"
  using assms
  by (cases c; auto simp: bucket_ok_def bucket_views send_or_drop_def try_send_def split: if_splits)+

lemma Wait_token_iff:
  "Bucket_Wait b ctx WaitToken = Some (b', r) \<longleftrightarrow>
     0 < level b \<and> r = None \<and> b' = b\<lparr>tokens := (tokens b)\<lparr>ch_buf := tl (ch_buf (tokens b))\<rparr>\<rparr>"
  by (cases "ch_buf (tokens b)") (auto simp: recv_first_Cons recv_first_Nil level_def)

lemma Wait_error_spec:
  assumes "Bucket_Wait b ctx c = Some (b', r)" and "c \<noteq> WaitToken"
  shows "b' = b" and "r \<noteq> None"
  using assms by (cases c; auto split: option.splits if_splits)+

lemma Wait_result_cases:
  assumes "Bucket_Wait b ctx c = Some (b', r)"
  shows "(c = WaitToken \<and> 0 < level b \<and> r = None) \<or>
     (c = WaitCtx \<and> b' = b \<and> (\<exists>e. ctx = Some e \<and> r = Some (CtxErr e))) \<or>
     (c = WaitDone \<and> b' = b \<and> is_closed b \<and> r = Some ErrClosed)"
proof (cases c)
  case WaitToken
  with assms show ?thesis using Wait_token_iff by simp
qed (use assms in \<open>auto simp: is_closed_def split: option.splits if_splits\<close>)

lemma Wait_spec:
  assumes "bucket_ok b" and "Bucket_Wait b ctx c = Some (b', r)"
  shows "bucket_ok b'" and "next_of b' = next_of b" and "capacity_of b' = capacity_of b"
    and "period_of b' = period_of b" and "is_closed b' = is_closed b" and "pending b' = pending b"
    and "refilling b' = refilling b"
    and "level b = level b' + (if r = None then 1 else 0)"
proof -
  have "bucket_ok b' \<and> next_of b' = next_of b \<and> capacity_of b' = capacity_of b \<and>
    period_of b' = period_of b \<and> is_closed b' = is_closed b \<and> pending b' = pending b \<and>
    refilling b' = refilling b \<and> level b = level b' + (if r = None then 1 else 0)"
  proof (cases "c = WaitToken")
    case True
    with assms(2) have pos: "0 < level b" and r: "r = None"
      and b': "b' = b\<lparr>tokens := (tokens b)\<lparr>ch_buf := tl (ch_buf (tokens b))\<rparr>\<rparr>"
      using Wait_token_iff by simp_all
    show ?thesis
      using assms(1) pos unfolding b' r bucket_ok_def bucket_views by auto
  next
    case False
    note e = Wait_error_spec [OF assms(2) False]
    with assms(1) show ?thesis by simp
  qed
  then show "bucket_ok b'" "next_of b' = next_of b" "capacity_of b' = capacity_of b"
    "period_of b' = period_of b" "is_closed b' = is_closed b" "pending b' = pending b"
    "refilling b' = refilling b" "level b = level b' + (if r = None then 1 else 0)"
    by simp_all
qed

text \<open>A caller is blocked exactly when no token, no expired context and no close is there.\<close>

lemma Wait_blocked_iff:
  "(\<forall>c. Bucket_Wait b ctx c = None) \<longleftrightarrow> level b = 0 \<and> ctx = None \<and> \<not> is_closed b"
proof -
  have split3: "(\<forall>c. P c) \<longleftrightarrow> P WaitToken \<and> P WaitCtx \<and> P WaitDone" for P
    by (metis wait_case.exhaust)
  have "Bucket_Wait b ctx WaitToken = None \<longleftrightarrow> level b = 0"
    by (cases "ch_buf (tokens b)") (simp_all add: recv_first_Cons recv_first_Nil level_def)
  then show ?thesis unfolding split3 by (auto simp: is_closed_def split: option.splits)
qed

lemma Close_spec:
  assumes "bucket_ok b" and "Bucket_Close b = Inr b'"
  shows "bucket_ok b'" and "is_closed b'" and "level b' = level b" and "pending b' = pending b"
    and "next_of b' = next_of b" and "capacity_of b' = capacity_of b"
    and "period_of b' = period_of b" and "refilling b' = refilling b" and "Bucket_Close b' = Inr b'"
  using assms
  by (auto simp: Bucket_Close_def close_chan_def bucket_ok_def bucket_views split: if_splits)

lemma Close_total: "bucket_ok b \<Longrightarrow> \<exists>b'. Bucket_Close b = Inr b'"
  by (simp add: Bucket_Close_def close_chan_def bucket_ok_def)

declare Bucket_refill.simps [simp del] Bucket_Wait.simps [simp del]

end
