(* ===== verification/Bucket_System.thy ===== *)
theory Bucket_System
  imports Bucket
begin

text \<open>
  One bucket with its refill goroutine, its ticker and any number of goroutines
  that call \<open>Wait\<close> (numbered by \<open>nat\<close>), as a step relation over their atomic
  actions. The fields \<open>fired\<close> and \<open>granted\<close> are history: how many ticks the ticker
  has fired and how many calls of \<open>Wait\<close> have returned \<open>nil\<close>.
\<close>

section \<open>The step relation\<close>

datatype waiter = Idle | InWait | Returned "wait_err option"

record bsys =
  bk :: bucket
  clock :: time
  ctx_of :: "nat \<Rightarrow> ctx_err option"
  waiter_of :: "nat \<Rightarrow> waiter"
  fired :: nat
  granted :: nat

datatype bevent =
    Advance nat               \<comment> \<open>time passes\<close>
  | Fire                      \<comment> \<open>the run-time fires the ticker\<close>
  | Refill refill_case        \<comment> \<open>one iteration of the refill loop\<close>
  | EnterWait nat "ctx_err option"  \<comment> \<open>a goroutine calls \<open>Wait\<close> with this context\<close>
  | EndCtx nat ctx_err        \<comment> \<open>the context of a call ends\<close>
  | WaitStep nat wait_case    \<comment> \<open>a call of \<open>Wait\<close> returns through this case\<close>
  | CallClose

inductive bstep :: "bsys \<Rightarrow> bevent \<Rightarrow> bsys \<Rightarrow> bool" where
  advance: "bstep s (Advance d) (s\<lparr>clock := clock s + d\<rparr>)"
| fire: "ticker_due (refill_ticker (bk s)) (clock s) \<Longrightarrow>
    bstep s Fire (s\<lparr>bk := (bk s)\<lparr>refill_ticker := ticker_fire (refill_ticker (bk s)) (clock s)\<rparr>,
                   fired := Suc (fired s)\<rparr>)"
| refill: "Bucket_refill (bk s) c = Some b \<Longrightarrow> bstep s (Refill c) (s\<lparr>bk := b\<rparr>)"
| enter: "waiter_of s w \<noteq> InWait \<Longrightarrow>
    bstep s (EnterWait w ctx)
      (s\<lparr>waiter_of := (waiter_of s)(w := InWait), ctx_of := (ctx_of s)(w := ctx)\<rparr>)"
| end_ctx: "ctx_of s w = None \<Longrightarrow>
    bstep s (EndCtx w e) (s\<lparr>ctx_of := (ctx_of s)(w := Some e)\<rparr>)"
| wait: "waiter_of s w = InWait \<Longrightarrow> Bucket_Wait (bk s) (ctx_of s w) c = Some (b, r) \<Longrightarrow>
    bstep s (WaitStep w c)
      (s\<lparr>bk := b, waiter_of := (waiter_of s)(w := Returned r),
        granted := granted s + (if r = None then 1 else 0)\<rparr>)"
| close: "Bucket_Close (bk s) = Inr b \<Longrightarrow> bstep s CallClose (s\<lparr>bk := b\<rparr>)"

inductive_cases bstep_cases: "bstep s e t"
inductive_simps bstep_advance_iff [simp]: "bstep s (Advance d) t"
inductive_simps bstep_fire_iff: "bstep s Fire t"
inductive_simps bstep_refill_iff: "bstep s (Refill c) t"
inductive_simps bstep_enter_iff: "bstep s (EnterWait w ctx) t"
inductive_simps bstep_wait_iff: "bstep s (WaitStep w c) t"
inductive_simps bstep_close_iff: "bstep s CallClose t"

definition binit :: "i64 \<Rightarrow> time \<Rightarrow> bsys \<Rightarrow> bool" where
  "binit rps t0 s \<longleftrightarrow> NewBucket rps t0 = Inr (bk s) \<and> clock s = t0 \<and>
     (\<forall>w. waiter_of s w = Idle) \<and> fired s = 0 \<and> granted s = 0"

abbreviation "slevel s \<equiv> level (bk s)"
abbreviation "spend s \<equiv> pending (bk s)"
abbreviation "scap s \<equiv> capacity_of (bk s)"
abbreviation "speriod s \<equiv> period_of (bk s)"
abbreviation "snext s \<equiv> next_of (bk s)"

definition binv :: "time \<Rightarrow> bsys \<Rightarrow> bool" where
  "binv t0 s \<longleftrightarrow> bucket_ok (bk s) \<and>
     t0 + speriod s * Suc (fired s) \<le> snext s \<and> snext s \<le> clock s + speriod s \<and>
     granted s + slevel s + spend s \<le> fired s"

lemma binv_ok: "binv t0 s \<Longrightarrow> bucket_ok (bk s)"
  by (simp add: binv_def)

section \<open>The invariant\<close>

lemma binit_binv: "binit rps t0 s \<Longrightarrow> binv t0 s"
  using NewBucket_ok [of rps t0 "bk s"] by (auto simp: binit_def binv_def)

text \<open>What a single step does to the quantities of the bucket.\<close>

definition steady :: "bsys \<Rightarrow> bsys \<Rightarrow> bool" where
  "steady s t \<longleftrightarrow> bucket_ok (bk t) \<and> scap t = scap s \<and> speriod t = speriod s \<and>
     clock s \<le> clock t \<and> granted s \<le> granted t"

lemma fire_effect:
  assumes "bstep s Fire t" and "bucket_ok (bk s)"
  shows "steady s t" and "fired t = Suc (fired s)" and "granted t = granted s"
    and "slevel t = slevel s" and "spend t \<le> Suc (spend s)" and "clock t = clock s"
    and "snext s + speriod s \<le> snext t" and "clock s < snext t" and "snext t \<le> clock s + speriod s"
proof -
  let ?k = "refill_ticker (bk s)"
  from assms(1) have due: "tk_next ?k \<le> clock s"
    and t: "t = s\<lparr>bk := (bk s)\<lparr>refill_ticker := ticker_fire ?k (clock s)\<rparr>, fired := Suc (fired s)\<rparr>"
    by (simp_all add: bstep_fire_iff ticker_due_def)
  have pos: "0 < tk_period ?k" using assms(2) by (simp add: bucket_ok_def period_of_def)
  note nxt = ticker_fire_next [OF due pos]
  from assms(2) show "steady s t" by (simp add: t steady_def bucket_ok_def bucket_views)
  from nxt show "snext s + speriod s \<le> snext t" "clock s < snext t" "snext t \<le> clock s + speriod s"
    by (simp_all add: t bucket_views)
  show "fired t = Suc (fired s)" "granted t = granted s" "slevel t = slevel s"
    "spend t \<le> Suc (spend s)" "clock t = clock s"
    by (simp_all add: t bucket_views)
qed

lemma other_effect:
  assumes "bstep s e t" and "e \<noteq> Fire" and "bucket_ok (bk s)"
  shows "steady s t" and "fired t = fired s" and "snext t = snext s"
    and "granted t + slevel t + spend t \<le> granted s + slevel s + spend s"
proof -
  have "steady s t \<and> fired t = fired s \<and> snext t = snext s \<and>
    granted t + slevel t + spend t \<le> granted s + slevel s + spend s"
    using assms(1)
  proof (cases rule: bstep.cases)
    case (refill c b)
    note refill_spec [OF assms(3) \<open>Bucket_refill (bk s) c = Some b\<close>]
    with refill show ?thesis by (simp add: steady_def)
  next
    case (wait w c b r)
    note Wait_spec [OF assms(3) \<open>Bucket_Wait (bk s) (ctx_of s w) c = Some (b, r)\<close>]
    with wait show ?thesis by (simp add: steady_def)
  next
    case (close b)
    note Close_spec [OF assms(3) \<open>Bucket_Close (bk s) = Inr b\<close>]
    with close show ?thesis by (simp add: steady_def)
  qed (use assms(2,3) in \<open>simp_all add: steady_def\<close>)
  then show "steady s t" "fired t = fired s" "snext t = snext s"
    "granted t + slevel t + spend t \<le> granted s + slevel s + spend s"
    by simp_all
qed

lemma bstep_steady: "bstep s e t \<Longrightarrow> bucket_ok (bk s) \<Longrightarrow> steady s t"
  using fire_effect(1) other_effect(1) by (cases "e = Fire") blast+

lemma bstep_binv:
  assumes "bstep s e t" and "binv t0 s"
  shows "binv t0 t"
proof (cases "e = Fire")
  case True
  note f = fire_effect [OF assms(1) [unfolded True] binv_ok [OF assms(2)]]
  with assms(2) show ?thesis by (simp add: binv_def steady_def)
next
  case False
  note o = other_effect [OF assms(1) False binv_ok [OF assms(2)]]
  with assms(2) show ?thesis by (simp add: binv_def steady_def)
qed

interpretation bucket_sys: invariant_system "binit rps t0" bstep "binv t0" for rps t0
  by unfold_locales (auto intro: binit_binv bstep_binv)

lemma run_steady:
  assumes "run bstep s es t" and "bucket_ok (bk s)"
  shows "steady s t"
  using assms
proof (induction rule: run.induct)
  case (run_cons s e t es u)
  from bstep_steady [OF run_cons.hyps(1) run_cons.prems] have st: "steady s t" .
  then have "bucket_ok (bk t)" by (simp add: steady_def)
  with run_cons.IH have "steady t u" by simp
  with st show ?case by (simp add: steady_def)
qed (simp add: steady_def)

section \<open>The rate over any window\<close>

text \<open>
  Between two states of a run the ticker fires at most once for every period that
  passes, plus one tick that was overdue at the start and one on the boundary.
\<close>

definition window_ok :: "bsys \<Rightarrow> bsys \<Rightarrow> bool" where
  "window_ok s t \<longleftrightarrow> fired t = fired s \<or>
     fired s < fired t \<and> clock s + speriod s * (fired t - fired s - 1) < snext t"

lemma window_step:
  assumes "window_ok s u" and "bstep u e t" and "bucket_ok (bk u)"
    and "speriod u = speriod s" and "clock s \<le> clock u"
  shows "window_ok s t"
proof (cases "e = Fire")
  case False
  from other_effect [OF assms(2) False assms(3)] assms(1) show ?thesis by (simp add: window_ok_def)
next
  case True
  note f = fire_effect [OF assms(2) [unfolded True] assms(3)]
  show ?thesis
  proof (cases "fired u = fired s")
    case True
    with f(2,8) assms(5) show ?thesis by (simp add: window_ok_def)
  next
    case False
    with assms(1) have lt: "fired s < fired u"
      and w: "clock s + speriod s * (fired u - fired s - 1) < snext u"
      by (simp_all add: window_ok_def)
    from lt f(2) have "fired t - fired s - 1 = Suc (fired u - fired s - 1)" by simp
    then have "speriod s * (fired t - fired s - 1) = speriod s * (fired u - fired s - 1) + speriod s"
      by simp
    with w f(7) assms(4) have "clock s + speriod s * (fired t - fired s - 1) < snext t" by linarith
    with lt f(2) show ?thesis by (simp add: window_ok_def)
  qed
qed

lemma fires_in_window:
  assumes "run bstep s es t" and "bucket_ok (bk s)"
  shows "window_ok s t"
  using assms(1)
proof (induction es arbitrary: t rule: rev_induct)
  case Nil
  then show ?case by (simp add: window_ok_def)
next
  case (snoc e es)
  then obtain u where u: "run bstep s es u" "bstep u e t"
    by (auto simp: run_append_iff run_Cons_iff)
  from run_steady [OF u(1) assms(2)] snoc.IH [OF u(1)] u(2) show ?case
    by (auto simp: steady_def intro: window_step)
qed

lemma fires_bound:
  assumes "run bstep s es t" and "binv t0 s"
  shows "fired t \<le> fired s + (clock t - clock s) div speriod s + 2"
proof (cases "fired t \<le> Suc (fired s)")
  case True
  then show ?thesis by linarith
next
  case False
  then obtain k where k: "fired t = fired s + k + 2"
    by (metis add_2_eq_Suc' le_Suc_ex not_less_eq_eq add.commute add_Suc_right)
  from run_steady [OF assms(1) binv_ok [OF assms(2)]] assms(2)
  have same: "speriod t = speriod s" "clock s \<le> clock t" and pos: "0 < speriod s"
    by (simp_all add: steady_def binv_def bucket_ok_def)
  have "snext t \<le> clock t + speriod s"
    using bucket_sys.inv_run [OF assms] same by (simp add: binv_def)
  with fires_in_window [OF assms(1) binv_ok [OF assms(2)]] k
  have "clock s + speriod s * Suc k < clock t + speriod s" by (simp add: window_ok_def)
  then have "k * speriod s \<le> clock t - clock s" by (simp add: mult.commute)
  then have "k \<le> (clock t - clock s) div speriod s"
    using pos by (simp add: less_eq_div_iff_mult_less_eq)
  with k show ?thesis by linarith
qed

text \<open>
  Tokens only move: what is granted in a window was at hand, pending or fired.
\<close>

lemma grants_from_fires:
  assumes "run bstep s es t" and "bucket_ok (bk s)"
  shows "granted t + slevel t + spend t + fired s \<le> granted s + slevel s + spend s + fired t"
  using assms
proof (induction rule: run.induct)
  case (run_cons s e t es u)
  have "granted t + slevel t + spend t + fired s \<le> granted s + slevel s + spend s + fired t"
    using fire_effect [of s t] other_effect [OF run_cons.hyps(1) _ run_cons.prems] run_cons
    by (cases "e = Fire") simp_all
  moreover have "bucket_ok (bk t)"
    using bstep_steady [OF run_cons.hyps(1) run_cons.prems] by (simp add: steady_def)
  ultimately show ?case using run_cons.IH by simp
qed simp

end
