(* ===== verification/Bucket_Rate.thy ===== *)
theory Bucket_Rate
  imports Bucket_System
begin

text \<open>
  What the rate limiter promises for one key, over every interleaving of the
  bucket system: the bound on the tokens granted in a window of time, the burst
  that the bound leaves room for, and how closing the bucket ends every call.
\<close>

section \<open>Upper bounds\<close>

lemma binit_views:
  assumes "binit rps t0 s"
  shows "scap s = nat (sint (clamped rps))" and "speriod s = nat (1000000000 div sint (clamped rps))"
    and "bucket_ok (bk s)" and "binv t0 s"
  using NewBucket_ok [of rps t0 "bk s"] assms binit_binv [OF assms] by (auto simp: binit_def)

lemma grants_in_window:
  assumes "binit rps t0 s0" and "run bstep s0 es s" and "run bstep s fs t"
  shows "granted t \<le> granted s + nat (sint (clamped rps)) + 3
           + (clock t - clock s) div nat (1000000000 div sint (clamped rps))"
proof -
  have inv: "binv t0 s" using bucket_sys.inv_reachable [OF assms(1,2)] .
  have same: "scap s = nat (sint (clamped rps))" "speriod s = nat (1000000000 div sint (clamped rps))"
    using run_steady [OF assms(2)] binit_views [OF assms(1)] by (simp_all add: steady_def)
  have "slevel s \<le> scap s" "spend s \<le> 1"
    using binv_ok [OF inv] by (simp_all add: bucket_ok_def pending_def)
  with grants_from_fires [OF assms(3) binv_ok [OF inv]] fires_bound [OF assms(3) inv]
  show ?thesis unfolding same by linarith
qed


text \<open>
  No initial burst. Whatever the interleaving, the tokens granted since the
  bucket was created, times the refill period, never exceed the elapsed time: the
  bucket starts empty and the first token comes with the first tick.
\<close>

theorem bucket_no_initial_burst:
  assumes "binit rps t0 s0" and "run bstep s0 es s"
  shows "granted s * nat (1000000000 div sint (clamped rps)) \<le> clock s - t0"
proof -
  have inv: "binv t0 s" using bucket_sys.inv_reachable [OF assms] .
  have per: "speriod s = nat (1000000000 div sint (clamped rps))"
    using run_steady [OF assms(2)] binit_views [OF assms(1)] by (simp add: steady_def)
  from inv have "granted s * speriod s \<le> fired s * speriod s" by (simp add: binv_def)
  also from inv have "\<dots> + t0 + speriod s \<le> clock s + speriod s"
    by (simp add: binv_def algebra_simps)
  then have "fired s * speriod s \<le> clock s - t0" by simp
  finally show ?thesis using per by simp
qed

section \<open>The burst the bucket admits\<close>

definition quiet :: "bsys \<Rightarrow> bool" where
  "quiet s \<longleftrightarrow> bucket_ok (bk s) \<and> refilling (bk s) \<and> spend s = 0 \<and>
     snext s = clock s + speriod s \<and> waiter_of s 0 \<noteq> InWait"

definition moved :: "bsys \<Rightarrow> bsys \<Rightarrow> nat \<Rightarrow> nat \<Rightarrow> bool" where
  "moved s t ticks grants \<longleftrightarrow> quiet t \<and> scap t = scap s \<and> speriod t = speriod s \<and>
     clock t = clock s + ticks * speriod s \<and> granted t = granted s + grants \<and>
     slevel t + grants = slevel s + ticks"

lemma moved_refl: "quiet s \<Longrightarrow> moved s s 0 0"
  by (simp add: moved_def)

lemma moved_trans: "moved s t a b \<Longrightarrow> moved t u c d \<Longrightarrow> moved s u (a + c) (b + d)"
  by (simp add: moved_def algebra_simps)

lemma tick_cycle:
  assumes "quiet s" and "slevel s < scap s"
  shows "\<exists>es t. run bstep s es t \<and> moved s t 1 0"
proof -
  let ?p = "speriod s" and ?k = "refill_ticker (bk s)"
  let ?k2 = "ticker_fire ?k (clock s + ?p)"
  let ?b2 = "(bk s)\<lparr>refill_ticker := ?k2\<rparr>"
  let ?b3 = "?b2\<lparr>refill_ticker := ticker_take ?k2, tokens := send_or_drop () (tokens (bk s))\<rparr>"
  let ?s1 = "s\<lparr>clock := clock s + ?p\<rparr>"
  let ?s2 = "?s1\<lparr>bk := ?b2, fired := Suc (fired s)\<rparr>"
  let ?t = "?s2\<lparr>bk := ?b3\<rparr>"
  have live: "\<not> tk_stopped ?k" "tk_next ?k = clock s + ?p" "0 < tk_period ?k" "refilling (bk s)"
    using assms(1) by (auto simp: quiet_def bucket_ok_def bucket_views)
  have s1: "bstep s (Advance ?p) ?s1" by simp
  have s2: "bstep ?s1 Fire ?s2" using live by (simp add: bstep_fire_iff ticker_due_def)
  have b3: "Bucket_refill ?b2 RefillTick = Some ?b3" using live by (simp add: Bucket_refill.simps)
  then have s3: "bstep ?s2 (Refill RefillTick) ?t" by (simp add: bstep_refill_iff)
  have ok2: "bucket_ok ?b2" using bstep_steady [OF s2] assms(1) by (simp add: steady_def quiet_def)
  note refill_spec [OF ok2 b3] and refill_tick_spec [OF ok2 b3]
  moreover have "level ?b2 = slevel s" "capacity_of ?b2 = scap s" "period_of ?b2 = ?p"
    "next_of ?b2 = clock s + ?p + ?p"
    using live by (simp_all add: bucket_views ticker_fire_def)
  ultimately have "moved s ?t 1 0"
    using assms live by (simp add: moved_def quiet_def)
  moreover have "run bstep s [Advance ?p, Fire, Refill RefillTick] ?t"
    using s1 s2 s3 by (blast intro: run_cons run_nil)
  ultimately show ?thesis by blast
qed

lemma take_cycle:
  assumes "quiet s" and "0 < slevel s"
  shows "\<exists>es t. run bstep s es t \<and> moved s t 0 1"
proof -
  let ?b = "(bk s)\<lparr>tokens := (tokens (bk s))\<lparr>ch_buf := tl (ch_buf (tokens (bk s)))\<rparr>\<rparr>"
  let ?s1 = "s\<lparr>waiter_of := (waiter_of s)(0 := InWait), ctx_of := (ctx_of s)(0 := None)\<rparr>"
  let ?t = "?s1\<lparr>bk := ?b, waiter_of := (waiter_of ?s1)(0 := Returned None),
                granted := granted s + 1\<rparr>"
  have w: "Bucket_Wait (bk s) None WaitToken = Some (?b, None)"
    using assms(2) by (simp add: Wait_token_iff)
  have s1: "bstep s (EnterWait 0 None) ?s1" using assms(1) by (simp add: quiet_def bstep_enter_iff)
  have s2: "bstep ?s1 (WaitStep 0 WaitToken) ?t"
    unfolding bstep_wait_iff using w by (intro exI [of _ ?b] exI [of _ None]) simp
  have ok: "bucket_ok (bk s)" using assms(1) by (simp add: quiet_def)
  note Wait_spec [OF ok w]
  then have "moved s ?t 0 1" using assms by (simp add: moved_def quiet_def)
  moreover have "run bstep s [EnterWait 0 None, WaitStep 0 WaitToken] ?t"
    using s1 s2 by (blast intro: run_cons run_nil)
  ultimately show ?thesis by blast
qed

lemma moved_run_trans:
  assumes "\<exists>es t. run bstep s es t \<and> moved s t a b"
    and "\<And>t. moved s t a b \<Longrightarrow> \<exists>es u. run bstep t es u \<and> moved t u c d"
  shows "\<exists>es u. run bstep s es u \<and> moved s u (a + c) (b + d)"
  using assms by (meson moved_trans run_append)

lemma fill:
  "quiet s \<Longrightarrow> slevel s + n \<le> scap s \<Longrightarrow> \<exists>es t. run bstep s es t \<and> moved s t n 0"
proof (induction n)
  case 0
  then show ?case by (blast intro: run_nil moved_refl)
next
  case (Suc n)
  have "\<exists>es u. run bstep s es u \<and> moved s u (n + 1) (0 + 0)"
    by (rule moved_run_trans [OF Suc.IH tick_cycle]) (use Suc.prems in \<open>auto simp: moved_def\<close>)
  then show ?case by simp
qed

lemma drain:
  "quiet s \<Longrightarrow> n \<le> slevel s \<Longrightarrow> \<exists>es t. run bstep s es t \<and> moved s t 0 n"
proof (induction n)
  case 0
  then show ?case by (blast intro: run_nil moved_refl)
next
  case (Suc n)
  have "\<exists>es u. run bstep s es u \<and> moved s u (0 + 0) (n + 1)"
    by (rule moved_run_trans [OF Suc.IH take_cycle]) (use Suc.prems in \<open>auto simp: moved_def\<close>)
  then show ?case by simp
qed

lemma serve:
  "quiet s \<Longrightarrow> slevel s < scap s \<Longrightarrow> \<exists>es t. run bstep s es t \<and> moved s t n n"
proof (induction n)
  case 0
  then show ?case by (blast intro: run_nil moved_refl)
next
  case (Suc n)
  have one: "\<exists>es u. run bstep t es u \<and> moved t u (1 + 0) (0 + 1)" if "moved s t n n" for t
    by (rule moved_run_trans [OF tick_cycle take_cycle])
      (use that Suc.prems in \<open>auto simp: moved_def\<close>)
  have "\<exists>es u. run bstep s es u \<and> moved s u (n + (1 + 0)) (n + (0 + 1))"
    using Suc.prems by (intro moved_run_trans [OF Suc.IH one])
  then show ?case by simp
qed

text \<open>A first run: a bucket for five requests per second grants one token after 200 ms.\<close>

lemma first_grant_run:
  "\<exists>s0 es t. binit 5 0 s0 \<and> run bstep s0 es t \<and> clock t = 200000000 \<and> granted s0 = 0 \<and>
     clock s0 = 0 \<and> granted t = 1"
proof -
  have cl: "clamped 5 = 5" by (simp add: clamped_def)
  obtain b where b: "NewBucket 5 0 = Inr b" using cl by (simp add: NewBucket_eq)
  define s0 where "s0 = \<lparr>bk = b, clock = 0, ctx_of = (\<lambda>_. None), waiter_of = (\<lambda>_. Idle),
    fired = 0, granted = 0\<rparr>"
  have init: "binit 5 0 s0" by (simp add: s0_def binit_def b)
  have q0: "quiet s0" "slevel s0 = 0" "scap s0 = 5" "speriod s0 = 200000000"
    using NewBucket_ok [OF b] cl by (simp_all add: s0_def quiet_def)
  obtain es t where "run bstep s0 es t" "moved s0 t 1 1" using serve [of s0 1] q0 by auto
  with init q0 show ?thesis
    by (intro exI [of _ s0] exI [of _ es] exI [of _ t]) (simp add: moved_def s0_def)
qed


theorem bucket_no_initial_burst_witness:
  "\<exists>s0 es t. binit 5 0 s0 \<and> run bstep s0 es t \<and> granted t = 1 \<and> granted t * 200000000 \<le> clock t - 0"
proof -
  obtain s0 es t where r: "binit 5 0 s0" "run bstep s0 es t" "granted t = 1"
    using first_grant_run by blast
  have "granted t * 200000000 \<le> clock t - 0"
    using bucket_no_initial_burst [OF r(1,2)] by (simp add: clamped_def)
  with r show ?thesis by blast
qed

text \<open>
  The burst. For every rate from 1 to a thousand million requests per second
  there is an interleaving in which a bucket that has been idle lets twice its
  rate through within one second: a full bucket at once and one token per period
  after that. The stated aim that at most the configured rate passes in a second
  is not met by a factor of two, and C1 shows that it is no worse.
\<close>

theorem bucket_double_rate_burst:
  assumes "1 \<le> sint rps" and "sint rps \<le> 1000000000"
  shows "\<exists>s0 es s fs t. binit rps t0 s0 \<and> run bstep s0 es s \<and> run bstep s fs t \<and>
     clock t - clock s \<le> 1000000000 \<and> granted t = granted s + 2 * nat (sint rps)"
proof -
  let ?r = "nat (sint rps)" and ?p = "nat (1000000000 div sint rps)"
  from assms have cl: "clamped rps = rps" by (simp add: clamped_def)
  with assms obtain b where b: "NewBucket rps t0 = Inr b" by (simp add: NewBucket_eq)
  define s0 where "s0 = \<lparr>bk = b, clock = t0, ctx_of = (\<lambda>_. None), waiter_of = (\<lambda>_. Idle),
    fired = 0, granted = 0\<rparr>"
  have init: "binit rps t0 s0" by (simp add: s0_def binit_def b)
  have q0: "quiet s0" "slevel s0 = 0" "scap s0 = ?r" "speriod s0 = ?p"
    using NewBucket_ok [OF b] cl by (simp_all add: s0_def quiet_def)
  then obtain es s where s: "run bstep s0 es s" "moved s0 s ?r 0" using fill [of s0 ?r] by auto
  then have qs: "quiet s" "slevel s = ?r" "scap s = ?r" "speriod s = ?p"
    using q0 by (simp_all add: moved_def)
  have "\<exists>fs t. run bstep s fs t \<and> moved s t (0 + ?r) (?r + ?r)"
    by (rule moved_run_trans [OF drain serve]) (use qs assms in \<open>auto simp: moved_def\<close>)
  then obtain fs t where t: "run bstep s fs t" "moved s t ?r (2 * ?r)"
    by (auto simp: mult_2)
  have "sint rps * (1000000000 div sint rps) = 1000000000 - 1000000000 mod sint rps"
    by (simp add: minus_mod_eq_mult_div)
  moreover have "0 \<le> 1000000000 mod sint rps" using assms by simp
  ultimately have "nat (sint rps * (1000000000 div sint rps)) \<le> 1000000000" by simp
  then have "?r * ?p \<le> 1000000000" using assms by (simp add: nat_mult_distrib)
  with t(2) qs have "clock t - clock s \<le> 1000000000" "granted t = granted s + 2 * ?r"
    by (simp_all add: moved_def)
  with init s(1) t(1) show ?thesis by blast
qed

theorem bucket_double_rate_burst_witness:
  "\<exists>s0 es s fs t. binit 5 0 s0 \<and> run bstep s0 es s \<and> run bstep s fs t \<and>
     clock t - clock s \<le> 1000000000 \<and> granted t = granted s + 10"
  using bucket_double_rate_burst [of 5 0] by simp

section \<open>Creation\<close>

text \<open>
  Creating a bucket. \<open>NewBucket\<close> panics exactly for rates above a thousand
  million per second, where the integer division of a second by the rate is zero.
  Every other rate, zero and negative ones included, gives an open, empty bucket
  whose capacity is the rate clamped to at least one, with a live refill goroutine.
\<close>

theorem NewBucket_outcome:
  "(NewBucket rps now = Inl NonPositiveTicker \<and> 1000000000 < sint rps) \<or>
   (\<exists>b. NewBucket rps now = Inr b \<and> sint rps \<le> 1000000000 \<and> level b = 0 \<and>
      int (capacity_of b) = max 1 (sint rps) \<and> \<not> is_closed b \<and> refilling b \<and>
      0 < period_of b \<and> next_of b = now + period_of b)"
proof (cases "1000000000 < sint (clamped rps)")
  case True
  then have "1000000000 < sint rps" by (simp add: clamped_def split: if_splits)
  with True show ?thesis by (simp add: NewBucket_eq)
next
  case False
  then obtain b where b: "NewBucket rps now = Inr b" by (simp add: NewBucket_eq)
  have "int (nat (sint (clamped rps))) = max 1 (sint rps)" by (simp add: clamped_def)
  moreover have "sint rps \<le> 1000000000" using False by (simp add: clamped_def split: if_splits)
  moreover have "0 < period_of b" using NewBucket_ok(1) [OF b] by (simp add: bucket_ok_def)
  ultimately show ?thesis using NewBucket_ok [OF b] b by (intro disjI2 exI [of _ b]) simp
qed

section \<open>Closing\<close>

lemma closed_iff_close_called:
  assumes "run bstep s es t" and "bucket_ok (bk s)"
  shows "is_closed (bk t) \<longleftrightarrow> is_closed (bk s) \<or> CallClose \<in> set es"
  using assms
proof (induction rule: run.induct)
  case (run_cons s e t es u)
  note ok = run_cons.prems
  have "is_closed (bk t) \<longleftrightarrow> is_closed (bk s) \<or> e = CallClose"
    using run_cons.hyps(1)
  proof (cases rule: bstep.cases)
    case (refill c b)
    note refill_spec [OF ok \<open>Bucket_refill (bk s) c = Some b\<close>]
    with refill show ?thesis by simp
  next
    case (wait w c b r)
    note Wait_spec [OF ok \<open>Bucket_Wait (bk s) (ctx_of s w) c = Some (b, r)\<close>]
    with wait show ?thesis by simp
  next
    case (close b)
    note Close_spec [OF ok \<open>Bucket_Close (bk s) = Inr b\<close>]
    with close show ?thesis by simp
  qed (simp_all add: is_closed_def)
  moreover have "bucket_ok (bk t)" using bstep_steady [OF run_cons.hyps(1) ok] by (simp add: steady_def)
  ultimately show ?case using run_cons.IH by auto
qed simp

lemma wait_enabled_iff:
  assumes "waiter_of s w = InWait"
  shows "(\<exists>c t. bstep s (WaitStep w c) t) \<longleftrightarrow>
     \<not> (slevel s = 0 \<and> ctx_of s w = None \<and> \<not> is_closed (bk s))"
  unfolding bstep_wait_iff using assms Wait_blocked_iff [of "bk s" "ctx_of s w"] by fastforce

text \<open>
  When a call of \<open>Wait\<close> blocks. In any interleaving a pending call cannot
  return exactly while the bucket holds no token, the caller's context has not
  ended and \<open>Close\<close> has not been called. So a call never outlives its context and
  \<open>Close\<close> leaves no caller hanging.
\<close>

theorem bucket_wait_blocks_iff:
  assumes "binit rps t0 s0" and "run bstep s0 es s" and "waiter_of s w = InWait"
  shows "(\<nexists>c t. bstep s (WaitStep w c) t) \<longleftrightarrow>
     slevel s = 0 \<and> ctx_of s w = None \<and> CallClose \<notin> set es"
proof -
  have "\<not> is_closed (bk s0)" using NewBucket_ok [of rps t0 "bk s0"] assms(1) by (auto simp: binit_def)
  then have "is_closed (bk s) \<longleftrightarrow> CallClose \<in> set es"
    using closed_iff_close_called [OF assms(2)] binit_views(3) [OF assms(1)] by simp
  with wait_enabled_iff [OF assms(3)] show ?thesis by simp
qed

theorem bucket_wait_blocks_iff_witness:
  "\<exists>s0 s. binit 5 0 s0 \<and> run bstep s0 [EnterWait 7 None] s \<and> (\<nexists>c t. bstep s (WaitStep 7 c) t)"
proof -
  obtain s0 where s0: "binit 5 0 s0" using first_grant_run by blast
  let ?s = "s0\<lparr>waiter_of := (waiter_of s0)(7 := InWait), ctx_of := (ctx_of s0)(7 := None)\<rparr>"
  have "bstep s0 (EnterWait 7 None) ?s" using s0 by (simp add: bstep_enter_iff binit_def)
  then have r: "run bstep s0 [EnterWait 7 None] ?s" by (rule run_single)
  have "slevel s0 = 0" using NewBucket_ok(2) s0 by (auto simp: binit_def)
  then have "\<nexists>c t. bstep ?s (WaitStep 7 c) t"
    using bucket_wait_blocks_iff [OF s0 r, of 7] by simp
  with s0 r show ?thesis by blast
qed

lemma stopped_step:
  assumes "bstep s e t" and "bucket_ok (bk s)" and "\<not> refilling (bk s)"
  shows "\<not> refilling (bk t) \<and> granted t + slevel t \<le> granted s + slevel s"
  using assms(1)
proof (cases rule: bstep.cases)
  case (refill c b)
  with assms(3) show ?thesis by (cases c) (simp_all add: Bucket_refill.simps)
next
  case (wait w c b r)
  note Wait_spec [OF assms(2) \<open>Bucket_Wait (bk s) (ctx_of s w) c = Some (b, r)\<close>]
  with wait assms(3) show ?thesis by simp
next
  case (close b)
  note Close_spec [OF assms(2) \<open>Bucket_Close (bk s) = Inr b\<close>]
  with close assms(3) show ?thesis by simp
qed (use assms(3) in \<open>simp_all add: level_def\<close>)

lemma stopped_run:
  "run bstep s es t \<Longrightarrow> bucket_ok (bk s) \<Longrightarrow> \<not> refilling (bk s) \<Longrightarrow>
     \<not> refilling (bk t) \<and> granted t + slevel t \<le> granted s + slevel s"
proof (induction rule: run.induct)
  case (run_cons s e t es u)
  note st = stopped_step [OF run_cons.hyps(1) run_cons.prems]
  have "bucket_ok (bk t)" using bstep_steady [OF run_cons.hyps(1) run_cons.prems(1)]
    by (simp add: steady_def)
  with run_cons.IH st show ?case by simp
qed simp

text \<open>
  The goroutine a bucket owns. Once \<open>Close\<close> has been called the refill
  goroutine, if it still runs, can take its exit in every state; after the exit it
  never comes back, its ticker is stopped, and from then on at most the tokens left
  in the bucket are granted. A second \<open>Close\<close> changes nothing and never panics.
\<close>

theorem bucket_close_stops_refill:
  assumes "binit rps t0 s0" and "run bstep s0 es s" and "CallClose \<in> set es"
  shows "(refilling (bk s) \<longrightarrow> (\<exists>t. bstep s (Refill RefillDone) t \<and> \<not> refilling (bk t))) \<and>
    (\<not> refilling (bk s) \<longrightarrow> tk_stopped (refill_ticker (bk s)) \<and>
      (\<forall>fs t. run bstep s fs t \<longrightarrow> \<not> refilling (bk t) \<and> granted t \<le> granted s + slevel s)) \<and>
    Bucket_Close (bk s) = Inr (bk s)"
proof (intro conjI)
  have ok: "bucket_ok (bk s)" using run_steady [OF assms(2)] binit_views(3) [OF assms(1)]
    by (simp add: steady_def)
  have cl: "is_closed (bk s)"
    using closed_iff_close_called [OF assms(2) binit_views(3) [OF assms(1)]] assms(3) by simp
  show "refilling (bk s) \<longrightarrow> (\<exists>t. bstep s (Refill RefillDone) t \<and> \<not> refilling (bk t))"
    using cl by (auto simp: bstep_refill_iff Bucket_refill.simps is_closed_def)
  show "\<not> refilling (bk s) \<longrightarrow> tk_stopped (refill_ticker (bk s)) \<and>
      (\<forall>fs t. run bstep s fs t \<longrightarrow> \<not> refilling (bk t) \<and> granted t \<le> granted s + slevel s)"
    using ok stopped_run [OF _ ok] by (fastforce simp: bucket_ok_def)
  show "Bucket_Close (bk s) = Inr (bk s)"
    using ok cl by (simp add: Bucket_Close_def bucket_ok_def is_closed_def)
qed

lemma close_run:
  assumes "binit rps t0 s0"
  shows "\<exists>s. run bstep s0 [CallClose] s \<and> refilling (bk s)"
proof -
  have ok: "bucket_ok (bk s0)" using binit_views(3) [OF assms] .
  obtain b where b: "Bucket_Close (bk s0) = Inr b" using Close_total [OF ok] by blast
  moreover have "refilling (bk s0)" using NewBucket_ok(8) assms by (auto simp: binit_def)
  ultimately have "refilling b" using Close_spec(8) [OF ok b] by simp
  moreover have "run bstep s0 [CallClose] (s0\<lparr>bk := b\<rparr>)"
    using b by (intro run_single) (simp add: bstep_close_iff)
  ultimately show ?thesis by fastforce
qed

theorem bucket_close_stops_refill_witness:
  "\<exists>s0 s t. binit 5 0 s0 \<and> run bstep s0 [CallClose] s \<and> bstep s (Refill RefillDone) t \<and>
     \<not> refilling (bk t)"
proof -
  obtain s0 where s0: "binit 5 0 s0" using first_grant_run by blast
  obtain s where s: "run bstep s0 [CallClose] s" "refilling (bk s)" using close_run [OF s0] by blast
  then show ?thesis using bucket_close_stops_refill [OF s0 s(1)] s0 by auto
qed

section \<open>The abstract token ledger\<close>

text \<open>
  The contract of the limiter without goroutines, channels or clocks: a bounded
  account that earns and spends one token at a time.
\<close>

record ledger =
  l_cap :: nat
  l_level :: nat
  l_spent :: nat

datatype ledger_event = Earn | Spend

inductive ledger_step :: "ledger \<Rightarrow> ledger_event \<Rightarrow> ledger \<Rightarrow> bool" where
  earn: "l_level a < l_cap a \<Longrightarrow> ledger_step a Earn (a\<lparr>l_level := Suc (l_level a)\<rparr>)"
| spend: "l_level a = Suc n \<Longrightarrow>
    ledger_step a Spend (a\<lparr>l_level := n, l_spent := Suc (l_spent a)\<rparr>)"

inductive_simps ledger_earn_iff: "ledger_step a Earn a'"
inductive_simps ledger_spend_iff: "ledger_step a Spend a'"

definition ledger_of :: "bsys \<Rightarrow> ledger" where
  "ledger_of s = \<lparr>l_cap = scap s, l_level = slevel s, l_spent = granted s\<rparr>"

fun ledger_label :: "bsys \<Rightarrow> bevent \<Rightarrow> ledger_event option" where
  "ledger_label s (Refill RefillTick) = (if slevel s < scap s then Some Earn else None)"
| "ledger_label s (WaitStep w WaitToken) = Some Spend"
| "ledger_label s e = None"

lemma ledger_hidden:
  assumes "bstep s e t" and "bucket_ok (bk s)" and "ledger_label s e = None"
  shows "ledger_of t = ledger_of s"
  using assms(1)
proof (cases rule: bstep.cases)
  case (refill c b)
  note r = refill_spec [OF assms(2) \<open>Bucket_refill (bk s) c = Some b\<close>]
  show ?thesis
  proof (cases c)
    case RefillDone
    with refill r refill_done_spec [OF assms(2)] show ?thesis by (simp add: ledger_of_def)
  next
    case RefillTick
    with refill assms(2,3) have "slevel s = scap s"
      by (auto simp: bucket_ok_def split: if_splits)
    with RefillTick refill r refill_tick_spec(1) [OF assms(2)] show ?thesis
      by (simp add: ledger_of_def)
  qed
next
  case (wait w c b r)
  note ws = Wait_spec [OF assms(2) \<open>Bucket_Wait (bk s) (ctx_of s w) c = Some (b, r)\<close>]
  from wait assms(3) have "c \<noteq> WaitToken" by auto
  with wait Wait_error_spec have "r \<noteq> None" by blast
  with wait ws show ?thesis by (simp add: ledger_of_def)
next
  case (close b)
  note Close_spec [OF assms(2) \<open>Bucket_Close (bk s) = Inr b\<close>]
  with close show ?thesis by (simp add: ledger_of_def)
qed (simp_all add: ledger_of_def bucket_views)

lemma ledger_visible:
  assumes "bstep s e t" and "bucket_ok (bk s)" and "ledger_label s e = Some f"
  shows "ledger_step (ledger_of s) f (ledger_of t)"
proof (cases "f = Earn")
  case True
  with assms(3) have e: "e = Refill RefillTick" and room: "slevel s < scap s"
    by (cases "(s, e)" rule: ledger_label.cases; simp split: if_splits)+
  from assms(1) e obtain b where b: "Bucket_refill (bk s) RefillTick = Some b" "t = s\<lparr>bk := b\<rparr>"
    by (auto simp: bstep_refill_iff)
  from refill_spec [OF assms(2) b(1)] refill_tick_spec(1) [OF assms(2) b(1)] room True b(2)
  show ?thesis by (simp add: ledger_of_def ledger_earn_iff)
next
  case False
  with assms(3) obtain w where e: "e = WaitStep w WaitToken" and f: "f = Spend"
    by (cases "(s, e)" rule: ledger_label.cases; simp split: if_splits)
  from assms(1) e obtain b r where w: "Bucket_Wait (bk s) (ctx_of s w) WaitToken = Some (b, r)"
    "bk t = b" "granted t = granted s + (if r = None then 1 else 0)"
    by (auto simp: bstep_wait_iff)
  moreover have "r = None" using w(1) by (simp add: Wait_token_iff)
  ultimately show ?thesis using Wait_spec [OF assms(2) w(1)] f
    by (simp add: ledger_of_def ledger_spend_iff)
qed

interpretation bucket_ledger: simulation bstep ledger_step "\<lambda>s. bucket_ok (bk s)" ledger_of ledger_label
proof
  show "bstep s e t \<Longrightarrow> bucket_ok (bk s) \<Longrightarrow> bucket_ok (bk t)" for s e t
    using bstep_steady by (auto simp: steady_def)
qed (auto intro: ledger_visible dest: ledger_hidden)



end
