(* ===== verification/Manager.thy ===== *)
theory Manager
  imports Bucket
begin

text \<open>
  The per-key rate limiter of \<open>internal/ratelimit/manager.go\<close>. Buckets are shared
  by pointer: the map of the manager holds addresses, and the buckets themselves
  lie in a store, so that two callers with the same key really meet in one bucket.
  The mutex makes \<open>bucketFor\<close> and \<open>Close\<close> atomic, which is how they are modelled;
  waiting for a token happens outside it, one \<open>select\<close> case at a time.
\<close>

section \<open>State and operations\<close>

type_synonym address = nat

record manager =
  ratePerSecond :: i64
  buckets :: "string \<rightharpoonup> address"
  bucket_store :: "address \<rightharpoonup> bucket"
  next_address :: address

definition NewManager :: "i64 \<Rightarrow> manager" where
  "NewManager rps = \<lparr>ratePerSecond = rps, buckets = Map.empty,
                     bucket_store = Map.empty, next_address = 0\<rparr>"

definition Manager_bucketFor :: "manager \<Rightarrow> string \<Rightarrow> time \<Rightarrow> go_panic + (manager \<times> address)" where
  "Manager_bucketFor m key now =
     (case buckets m key of
        Some a \<Rightarrow> Inr (m, a)
      | None \<Rightarrow>
          (case NewBucket (ratePerSecond m) now of
             Inl p \<Rightarrow> Inl p
           | Inr b \<Rightarrow>
               (let a = next_address m in
                Inr (m\<lparr>buckets := (buckets m)(key \<mapsto> a),
                       bucket_store := (bucket_store m)(a \<mapsto> b), next_address := Suc a\<rparr>, a))))"

text \<open>The \<open>select\<close> of \<open>Bucket.Wait\<close> on the bucket behind an address.\<close>

definition wait_at :: "manager \<Rightarrow> address \<Rightarrow> ctx_err option \<Rightarrow> wait_case \<Rightarrow> (manager \<times> wait_err option) option" where
  "wait_at m a ctx c =
     (case bucket_store m a of
        None \<Rightarrow> None
      | Some b \<Rightarrow>
          (case Bucket_Wait b ctx c of
             None \<Rightarrow> None
           | Some (b', r) \<Rightarrow> Some (m\<lparr>bucket_store := (bucket_store m)(a \<mapsto> b')\<rparr>, r)))"

text \<open>
  \<open>Wait\<close>: find or create the bucket, then wait on it. The inner \<open>None\<close> says that
  the chosen case is not ready; the manager, with the bucket created, is then the
  state in which the caller is blocked.
\<close>

definition Manager_Wait ::
  "manager \<Rightarrow> ctx_err option \<Rightarrow> string \<Rightarrow> time \<Rightarrow> wait_case \<Rightarrow>
     go_panic + (manager \<times> wait_err option option)" where
  "Manager_Wait m ctx key now c =
     (case Manager_bucketFor m key now of
        Inl p \<Rightarrow> Inl p
      | Inr (m', a) \<Rightarrow>
          (case wait_at m' a ctx c of
             None \<Rightarrow> Inr (m', None)
           | Some (m'', r) \<Rightarrow> Inr (m'', Some r)))"

text \<open>
  \<open>Close\<close> ranges over the map, whose order Go leaves open: the order is an
  argument, any list of the map's keys.
\<close>

fun close_each :: "string list \<Rightarrow> manager \<Rightarrow> go_panic + manager" where
  "close_each [] m = Inr m"
| "close_each (key # keys) m =
     (case buckets m key of
        None \<Rightarrow> close_each keys m
      | Some a \<Rightarrow>
          (case bucket_store m a of
             None \<Rightarrow> close_each keys m
           | Some b \<Rightarrow>
               (case Bucket_Close b of
                  Inl p \<Rightarrow> Inl p
                | Inr b' \<Rightarrow> close_each keys (m\<lparr>bucket_store := (bucket_store m)(a \<mapsto> b')\<rparr>))))"

definition Manager_Close :: "string list \<Rightarrow> manager \<Rightarrow> go_panic + manager" where
  "Manager_Close order m = close_each order m"

text \<open>One iteration of the refill goroutine of the bucket behind an address.\<close>

definition refill_at :: "manager \<Rightarrow> address \<Rightarrow> refill_case \<Rightarrow> manager option" where
  "refill_at m a c =
     (case bucket_store m a of
        None \<Rightarrow> None
      | Some b \<Rightarrow> map_option (\<lambda>b'. m\<lparr>bucket_store := (bucket_store m)(a \<mapsto> b')\<rparr>) (Bucket_refill b c))"

definition fire_at :: "manager \<Rightarrow> address \<Rightarrow> time \<Rightarrow> manager option" where
  "fire_at m a now =
     (case bucket_store m a of
        None \<Rightarrow> None
      | Some b \<Rightarrow>
          (if ticker_due (refill_ticker b) now
           then Some (m\<lparr>bucket_store := (bucket_store m)
                  (a \<mapsto> b\<lparr>refill_ticker := ticker_fire (refill_ticker b) now\<rparr>)\<rparr>)
           else None))"

section \<open>The bucket of a key\<close>

definition bucket_at :: "manager \<Rightarrow> string \<Rightarrow> bucket option" where
  "bucket_at m key = (case buckets m key of None \<Rightarrow> None | Some a \<Rightarrow> bucket_store m a)"

text \<open>
  The manager's invariant: its map is injective, its addresses are exactly the
  allocated ones, and every bucket is well formed and has the common rate.
\<close>

definition manager_ok :: "manager \<Rightarrow> bool" where
  "manager_ok m \<longleftrightarrow>
     inj_on (buckets m) (dom (buckets m)) \<and>
     ran (buckets m) = {a. a < next_address m} \<and>
     dom (bucket_store m) = {a. a < next_address m} \<and>
     (\<forall>a b. bucket_store m a = Some b \<longrightarrow>
        bucket_ok b \<and> capacity_of b = nat (sint (clamped (ratePerSecond m))))"

lemma manager_ok_new [simp]: "manager_ok (NewManager rps)"
  by (simp add: manager_ok_def NewManager_def)

lemma manager_ok_key:
  assumes "manager_ok m" and "buckets m key = Some a"
  shows "a < next_address m" and "\<exists>b. bucket_store m a = Some b \<and> bucket_ok b"
proof -
  from assms show "a < next_address m" by (auto simp: manager_ok_def intro: ranI)
  then have "a \<in> dom (bucket_store m)" using assms(1) by (simp add: manager_ok_def)
  then obtain b where b: "bucket_store m a = Some b" by blast
  with assms(1) have "bucket_ok b" unfolding manager_ok_def by blast
  with b show "\<exists>b. bucket_store m a = Some b \<and> bucket_ok b" by blast
qed

lemma manager_ok_inj:
  "manager_ok m \<Longrightarrow> buckets m key = Some a \<Longrightarrow> buckets m key' = Some a \<Longrightarrow> key = key'"
  by (metis domI inj_onD manager_ok_def)

text \<open>What it takes to replace one bucket of the store by another.\<close>

lemma manager_ok_store:
  assumes "manager_ok m" and "bucket_store m a = Some b" and "bucket_ok b'"
    and "capacity_of b' = capacity_of b"
  shows "manager_ok (m\<lparr>bucket_store := (bucket_store m)(a \<mapsto> b')\<rparr>)"
proof -
  have "a \<in> dom (bucket_store m)" using assms(2) by blast
  moreover have "capacity_of b = nat (sint (clamped (ratePerSecond m)))"
    using assms(1,2) unfolding manager_ok_def by blast
  ultimately show ?thesis
    using assms(1,3,4) unfolding manager_ok_def by (simp add: insert_absorb)
qed

lemma bucket_at_store:
  assumes "manager_ok m" and "buckets m key = Some a"
  shows "bucket_at (m\<lparr>bucket_store := (bucket_store m)(a \<mapsto> b')\<rparr>) key' =
     (if key' = key then Some b' else bucket_at m key')"
proof (cases "key' = key")
  case True
  with assms(2) show ?thesis by (simp add: bucket_at_def)
next
  case False
  then have "buckets m key' \<noteq> Some a" using manager_ok_inj [OF assms] by blast
  with False show ?thesis by (auto simp: bucket_at_def split: option.split)
qed

lemma bucketFor_known [simp]:
  "buckets m key = Some a \<Longrightarrow> Manager_bucketFor m key now = Inr (m, a)"
  by (simp add: Manager_bucketFor_def)

lemma bucketFor_fresh:
  assumes "manager_ok m" and "buckets m key = None" and "Manager_bucketFor m key now = Inr (m', a)"
  obtains b where "NewBucket (ratePerSecond m) now = Inr b" and "a = next_address m"
    and "m' = m\<lparr>buckets := (buckets m)(key \<mapsto> a), bucket_store := (bucket_store m)(a \<mapsto> b),
                 next_address := Suc a\<rparr>"
  using assms by (auto simp: Manager_bucketFor_def Let_def split: sum.splits)

lemma bucketFor_spec:
  assumes "manager_ok m" and "Manager_bucketFor m key now = Inr (m', a)"
  shows "manager_ok m'" and "buckets m' key = Some a" and "ratePerSecond m' = ratePerSecond m"
    and "dom (buckets m') = insert key (dom (buckets m))"
    and "\<And>key'. key' \<noteq> key \<Longrightarrow> buckets m' key' = buckets m key' \<and> bucket_at m' key' = bucket_at m key'"
    and "buckets m key \<noteq> None \<Longrightarrow> m' = m"
proof -
  have "manager_ok m' \<and> buckets m' key = Some a \<and> ratePerSecond m' = ratePerSecond m \<and>
    dom (buckets m') = insert key (dom (buckets m)) \<and>
    (\<forall>key'. key' \<noteq> key \<longrightarrow> buckets m' key' = buckets m key' \<and> bucket_at m' key' = bucket_at m key') \<and>
    (buckets m key \<noteq> None \<longrightarrow> m' = m)"
  proof (cases "buckets m key")
    case None
    from bucketFor_fresh [OF assms(1) None assms(2)] obtain b where
      b: "NewBucket (ratePerSecond m) now = Inr b" and a: "a = next_address m" and
      m': "m' = m\<lparr>buckets := (buckets m)(key \<mapsto> a), bucket_store := (bucket_store m)(a \<mapsto> b),
                   next_address := Suc a\<rparr>" .
    have fresh: "a \<notin> ran (buckets m)" "a \<notin> dom (bucket_store m)"
      using assms(1) a by (simp_all add: manager_ok_def)
    have "inj_on (buckets m') (dom (buckets m'))"
      using assms(1) fresh(1) unfolding m' manager_ok_def
      by (auto simp: inj_on_def ran_def)
    moreover have "ran (buckets m') = {k. k < next_address m'}"
      using assms(1) None a unfolding m' manager_ok_def by (auto simp: ran_map_upd)
    moreover have "dom (bucket_store m') = {k. k < next_address m'}"
      using assms(1) a unfolding m' manager_ok_def by auto
    moreover have "\<forall>k d. bucket_store m' k = Some d \<longrightarrow>
        bucket_ok d \<and> capacity_of d = nat (sint (clamped (ratePerSecond m')))"
      using assms(1) NewBucket_ok [OF b] unfolding m' manager_ok_def by auto
    ultimately have "manager_ok m'" by (simp add: manager_ok_def)
    moreover have "bucket_at m' key' = bucket_at m key'" if "key' \<noteq> key" for key'
      using that fresh(1) by (auto simp: m' bucket_at_def ran_def split: option.splits)
    ultimately show ?thesis using None by (simp add: m')
  next
    case (Some a')
    with assms show ?thesis by auto
  qed
  then show "manager_ok m'" "buckets m' key = Some a" "ratePerSecond m' = ratePerSecond m"
    "dom (buckets m') = insert key (dom (buckets m))"
    "\<And>key'. key' \<noteq> key \<Longrightarrow> buckets m' key' = buckets m key' \<and> bucket_at m' key' = bucket_at m key'"
    "buckets m key \<noteq> None \<Longrightarrow> m' = m"
    by auto
qed

lemma bucketFor_total:
  assumes "sint (ratePerSecond m) \<le> 1000000000"
  shows "\<exists>m' a. Manager_bucketFor m key now = Inr (m', a)"
proof (cases "buckets m key")
  case None
  obtain b where "NewBucket (ratePerSecond m) now = Inr b"
    using NewBucket_total [OF assms] by blast
  with None show ?thesis by (simp add: Manager_bucketFor_def Let_def)
qed simp

section \<open>Operations addressed to a key\<close>

text \<open>
  The interface the monitor relies on: a store of per-key resources in which an
  operation addressed to one key never touches another key's resource.
\<close>

fun run_ops :: "('k \<Rightarrow> 'op \<Rightarrow> 'm \<Rightarrow> 'm option) \<Rightarrow> ('k \<times> 'op) list \<Rightarrow> 'm \<Rightarrow> 'm option" where
  "run_ops perform [] m = Some m"
| "run_ops perform ((k, op) # ops) m =
     (case perform k op m of None \<Rightarrow> None | Some m' \<Rightarrow> run_ops perform ops m')"

locale keyed_store =
  fixes view :: "'m \<Rightarrow> 'k \<Rightarrow> 'b option"
    and ok :: "'m \<Rightarrow> bool"
    and perform :: "'k \<Rightarrow> 'op \<Rightarrow> 'm \<Rightarrow> 'm option"
  assumes perform_ok: "ok m \<Longrightarrow> perform k op m = Some m' \<Longrightarrow> ok m'"
    and perform_frame: "ok m \<Longrightarrow> perform k op m = Some m' \<Longrightarrow> k' \<noteq> k \<Longrightarrow> view m' k' = view m k'"
    and perform_keeps: "ok m \<Longrightarrow> perform k op m = Some m' \<Longrightarrow> view m k \<noteq> None \<Longrightarrow> view m' k \<noteq> None"
begin

lemma run_ops_ok: "ok m \<Longrightarrow> run_ops perform ops m = Some m' \<Longrightarrow> ok m'"
proof (induction ops arbitrary: m)
  case (Cons x ops)
  obtain k op where x: "x = (k, op)" by (cases x)
  with Cons.prems obtain m1 where m1: "perform k op m = Some m1" "run_ops perform ops m1 = Some m'"
    by (auto split: option.splits)
  show ?case using Cons.IH [OF perform_ok [OF Cons.prems(1) m1(1)] m1(2)] .
qed simp

lemma run_ops_frame:
  "ok m \<Longrightarrow> run_ops perform ops m = Some m' \<Longrightarrow> k \<notin> fst ` set ops \<Longrightarrow> view m' k = view m k"
proof (induction ops arbitrary: m)
  case (Cons x ops)
  obtain k' op where x: "x = (k', op)" by (cases x)
  with Cons.prems obtain m1 where m1: "perform k' op m = Some m1" "run_ops perform ops m1 = Some m'"
    by (auto split: option.splits)
  with Cons have "view m' k = view m1 k" using perform_ok by auto
  with m1 Cons.prems x show ?case using perform_frame by auto
qed simp

lemma run_ops_keeps:
  "ok m \<Longrightarrow> run_ops perform ops m = Some m' \<Longrightarrow> view m k \<noteq> None \<Longrightarrow> view m' k \<noteq> None"
proof (induction ops arbitrary: m)
  case (Cons x ops)
  obtain k' op where x: "x = (k', op)" by (cases x)
  with Cons.prems obtain m1 where m1: "perform k' op m = Some m1" "run_ops perform ops m1 = Some m'"
    by (auto split: option.splits)
  have "view m1 k \<noteq> None"
    using m1(1) Cons.prems perform_frame [of m k' op m1 k] perform_keeps [of m k' op m1]
    by (cases "k = k'") auto
  moreover have "ok m1" using perform_ok [OF Cons.prems(1) m1(1)] .
  ultimately show ?case using Cons.IH [OF _ m1(2)] by blast
qed simp

end

datatype limiter_op =
    OpLookup time
  | OpWait "ctx_err option" time wait_case
  | OpRefill refill_case
  | OpFire time

fun limiter_perform :: "string \<Rightarrow> limiter_op \<Rightarrow> manager \<Rightarrow> manager option" where
  "limiter_perform key (OpLookup now) m =
     (case Manager_bucketFor m key now of Inl _ \<Rightarrow> None | Inr (m', _) \<Rightarrow> Some m')"
| "limiter_perform key (OpWait ctx now c) m =
     (case Manager_Wait m ctx key now c of Inl _ \<Rightarrow> None | Inr (m', _) \<Rightarrow> Some m')"
| "limiter_perform key (OpRefill c) m =
     (case buckets m key of None \<Rightarrow> None | Some a \<Rightarrow> refill_at m a c)"
| "limiter_perform key (OpFire now) m =
     (case buckets m key of None \<Rightarrow> None | Some a \<Rightarrow> fire_at m a now)"

text \<open>Every operation either leaves the store alone or replaces the bucket of its key.\<close>

definition replaces :: "manager \<Rightarrow> string \<Rightarrow> manager \<Rightarrow> bool" where
  "replaces m key m' \<longleftrightarrow> m' = m \<or>
     (\<exists>a b b'. buckets m key = Some a \<and> bucket_store m a = Some b \<and> bucket_ok b' \<and>
        capacity_of b' = capacity_of b \<and>
        m' = m\<lparr>bucket_store := (bucket_store m)(a \<mapsto> b')\<rparr>)"

lemma replaces_spec:
  assumes "manager_ok m" and "replaces m key m'"
  shows "manager_ok m'" and "buckets m' = buckets m" and "ratePerSecond m' = ratePerSecond m"
    and "key' \<noteq> key \<Longrightarrow> bucket_at m' key' = bucket_at m key'"
    and "bucket_at m key \<noteq> None \<Longrightarrow> bucket_at m' key \<noteq> None"
proof -
  have "manager_ok m' \<and> buckets m' = buckets m \<and> ratePerSecond m' = ratePerSecond m \<and>
    (key' \<noteq> key \<longrightarrow> bucket_at m' key' = bucket_at m key') \<and>
    (bucket_at m key \<noteq> None \<longrightarrow> bucket_at m' key \<noteq> None)"
  proof (cases "m' = m")
    case False
    with assms(2) obtain a b b' where r: "buckets m key = Some a" "bucket_store m a = Some b"
      "bucket_ok b'" "capacity_of b' = capacity_of b"
      and m': "m' = m\<lparr>bucket_store := (bucket_store m)(a \<mapsto> b')\<rparr>"
      unfolding replaces_def by blast
    show ?thesis unfolding m'
      using manager_ok_store [OF assms(1) r(2-4)] by (simp add: bucket_at_store [OF assms(1) r(1)])
  qed (simp add: assms(1))
  then show "manager_ok m'" "buckets m' = buckets m" "ratePerSecond m' = ratePerSecond m"
    "key' \<noteq> key \<Longrightarrow> bucket_at m' key' = bucket_at m key'"
    "bucket_at m key \<noteq> None \<Longrightarrow> bucket_at m' key \<noteq> None"
    by simp_all
qed

lemma wait_at_replaces:
  assumes "manager_ok m" and "buckets m key = Some a" and "wait_at m a ctx c = Some (m', r)"
  shows "replaces m key m'"
proof -
  from assms(3) obtain b b' where b: "bucket_store m a = Some b" "Bucket_Wait b ctx c = Some (b', r)"
    "m' = m\<lparr>bucket_store := (bucket_store m)(a \<mapsto> b')\<rparr>"
    by (auto simp: wait_at_def split: option.splits)
  moreover have "bucket_ok b" using manager_ok_key(2) [OF assms(1,2)] b(1) by auto
  ultimately show ?thesis using Wait_spec(1,3) [of b ctx c b' r] assms(2)
    unfolding replaces_def by blast
qed

lemma refill_at_replaces:
  assumes "manager_ok m" and "buckets m key = Some a" and "refill_at m a c = Some m'"
  shows "replaces m key m'"
proof -
  from assms(3) obtain b b' where b: "bucket_store m a = Some b" "Bucket_refill b c = Some b'"
    "m' = m\<lparr>bucket_store := (bucket_store m)(a \<mapsto> b')\<rparr>"
    by (auto simp: refill_at_def split: option.splits)
  moreover have "bucket_ok b" using manager_ok_key(2) [OF assms(1,2)] b(1) by auto
  ultimately show ?thesis using refill_spec(1,3) [of b c b'] assms(2)
    unfolding replaces_def by blast
qed

lemma fire_at_replaces:
  assumes "manager_ok m" and "buckets m key = Some a" and "fire_at m a now = Some m'"
  shows "replaces m key m'"
proof -
  from assms(3) obtain b where b: "bucket_store m a = Some b"
    "m' = m\<lparr>bucket_store := (bucket_store m)
       (a \<mapsto> b\<lparr>refill_ticker := ticker_fire (refill_ticker b) now\<rparr>)\<rparr>"
    by (auto simp: fire_at_def split: option.splits if_splits)
  have "bucket_ok b" using manager_ok_key(2) [OF assms(1,2)] b(1) by auto
  then have "bucket_ok (b\<lparr>refill_ticker := ticker_fire (refill_ticker b) now\<rparr>)"
    "capacity_of (b\<lparr>refill_ticker := ticker_fire (refill_ticker b) now\<rparr>) = capacity_of b"
    by (simp_all add: bucket_ok_def bucket_views)
  with b assms(2) show ?thesis unfolding replaces_def by blast
qed

lemma Manager_Wait_cases:
  assumes "manager_ok m" and "Manager_Wait m ctx key now c = Inr (m', res)"
  obtains m1 a where "Manager_bucketFor m key now = Inr (m1, a)" and "replaces m1 key m'"
    and "manager_ok m1" and "buckets m1 key = Some a"
proof -
  from assms(2) obtain m1 a where m1: "Manager_bucketFor m key now = Inr (m1, a)"
    and w: "(wait_at m1 a ctx c = None \<and> m' = m1) \<or> (\<exists>r. wait_at m1 a ctx c = Some (m', r))"
    by (auto simp: Manager_Wait_def split: sum.splits option.splits)
  note sp = bucketFor_spec [OF assms(1) m1]
  from w have "replaces m1 key m'"
    using wait_at_replaces [OF sp(1,2)] by (auto simp: replaces_def)
  from that [OF m1 this sp(1,2)] show ?thesis .
qed

interpretation limiter_keys: keyed_store bucket_at manager_ok limiter_perform
proof
  fix m m' k k' op
  assume ok: "manager_ok m" and p: "limiter_perform k op m = Some m'"
  have "manager_ok m' \<and> (k' \<noteq> k \<longrightarrow> bucket_at m' k' = bucket_at m k') \<and>
    (bucket_at m k \<noteq> None \<longrightarrow> bucket_at m' k \<noteq> None)"
  proof (cases op)
    case (OpLookup now)
    with p obtain a where a: "Manager_bucketFor m k now = Inr (m', a)" by (auto split: sum.splits)
    note sp = bucketFor_spec [OF ok a]
    have "bucket_at m' k \<noteq> None" using manager_ok_key(2) [OF sp(1,2)] sp(2) by (auto simp: bucket_at_def)
    with sp show ?thesis by blast
  next
    case (OpWait ctx now c)
    with p obtain res where "Manager_Wait m ctx k now c = Inr (m', res)" by (auto split: sum.splits)
    then obtain m1 a where m1: "Manager_bucketFor m k now = Inr (m1, a)" "replaces m1 k m'"
      "manager_ok m1" "buckets m1 k = Some a"
      using Manager_Wait_cases [OF ok] by metis
    note sp = bucketFor_spec [OF ok m1(1)]
    have "bucket_at m1 k \<noteq> None" using manager_ok_key(2) [OF m1(3,4)] m1(4) by (auto simp: bucket_at_def)
    with sp replaces_spec [OF m1(3,2)] show ?thesis by metis
  next
    case (OpRefill c)
    with p obtain a where "buckets m k = Some a" "refill_at m a c = Some m'"
      by (auto split: option.splits)
    then have "replaces m k m'" by (rule refill_at_replaces [OF ok])
    from replaces_spec [OF ok this] show ?thesis by metis
  next
    case (OpFire now)
    with p obtain a where "buckets m k = Some a" "fire_at m a now = Some m'"
      by (auto split: option.splits)
    then have "replaces m k m'" by (rule fire_at_replaces [OF ok])
    from replaces_spec [OF ok this] show ?thesis by metis
  qed
  then show "manager_ok m'" "k' \<noteq> k \<Longrightarrow> bucket_at m' k' = bucket_at m k'"
    "bucket_at m k \<noteq> None \<Longrightarrow> bucket_at m' k \<noteq> None"
    by auto
qed

end
