(* ===== verification/Manager_Props.thy ===== *)
theory Manager_Props
  imports Manager
begin

text \<open>
  What the per-key limiter promises: one bucket per key however the lookups are
  ordered, isolation of the keys, and a shutdown that ends every wait.
\<close>

section \<open>One bucket per key\<close>

text \<open>A sequence of lookups, in the order in which they take the mutex.\<close>

fun bucketFor_all :: "(string \<times> time) list \<Rightarrow> manager \<Rightarrow> go_panic + (manager \<times> address list)" where
  "bucketFor_all [] m = Inr (m, [])"
| "bucketFor_all ((key, now) # ks) m =
     (case Manager_bucketFor m key now of
        Inl p \<Rightarrow> Inl p
      | Inr (m', a) \<Rightarrow>
          (case bucketFor_all ks m' of
             Inl p \<Rightarrow> Inl p
           | Inr (m'', as) \<Rightarrow> Inr (m'', a # as)))"

lemma bucketFor_all_spec:
  assumes "manager_ok m" and "sint (ratePerSecond m) \<le> 1000000000"
  shows "\<exists>m' as. bucketFor_all ks m = Inr (m', as) \<and> manager_ok m' \<and>
     dom (buckets m') = dom (buckets m) \<union> fst ` set ks \<and>
     (\<forall>k a. buckets m k = Some a \<longrightarrow> buckets m' k = Some a) \<and>
     map (\<lambda>(k, _). buckets m' k) ks = map Some as"
  using assms
proof (induction ks arbitrary: m)
  case Nil
  then show ?case by simp
next
  case (Cons x ks)
  obtain key now where x: "x = (key, now)" by (cases x)
  obtain m1 a where m1: "Manager_bucketFor m key now = Inr (m1, a)"
    using bucketFor_total [OF Cons.prems(2)] by blast
  note sp = bucketFor_spec [OF Cons.prems(1) m1]
  have "sint (ratePerSecond m1) \<le> 1000000000" using sp(3) Cons.prems(2) by simp
  from Cons.IH [OF sp(1) this] obtain m2 as where m2:
    "bucketFor_all ks m1 = Inr (m2, as)" "manager_ok m2"
    "dom (buckets m2) = dom (buckets m1) \<union> fst ` set ks"
    "\<And>k a. buckets m1 k = Some a \<Longrightarrow> buckets m2 k = Some a"
    "map (\<lambda>(k, _). buckets m2 k) ks = map Some as"
    by blast
  have keep: "buckets m1 k = Some a'" if "buckets m k = Some a'" for k a'
    using that sp(5) [of k] sp(6) by (cases "k = key") auto
  have "bucketFor_all (x # ks) m = Inr (m2, a # as)" by (simp add: x m1 m2(1))
  moreover have "dom (buckets m2) = dom (buckets m) \<union> fst ` set (x # ks)"
    using m2(3) sp(4) x by auto
  moreover have "map (\<lambda>(k, _). buckets m2 k) (x # ks) = map Some (a # as)"
    using m2(4) [OF sp(2)] m2(5) x by simp
  ultimately show ?case using m2(2,4) keep by blast
qed

text \<open>
  One bucket per key. For any sequence of lookups on a fresh manager whose rate
  does not exceed a thousand million, every lookup succeeds, two lookups return
  the same bucket exactly when their keys are equal, and the manager then holds
  as many buckets as there are distinct keys.
\<close>

theorem manager_one_bucket_per_key:
  assumes "sint rps \<le> 1000000000"
  shows "\<exists>m as. bucketFor_all ks (NewManager rps) = Inr (m, as) \<and> length as = length ks \<and>
     (\<forall>i j. i < length ks \<and> j < length ks \<longrightarrow>
        (as ! i = as ! j \<longleftrightarrow> fst (ks ! i) = fst (ks ! j))) \<and>
     card (dom (buckets m)) = card (fst ` set ks)"
proof -
  have "sint (ratePerSecond (NewManager rps)) \<le> 1000000000"
    and empty: "dom (buckets (NewManager rps)) = {}"
    using assms by (simp_all add: NewManager_def)
  from bucketFor_all_spec [OF manager_ok_new this(1), of ks] obtain m as where
    m: "bucketFor_all ks (NewManager rps) = Inr (m, as)" "manager_ok m"
    "dom (buckets m) = fst ` set ks" "map (\<lambda>(k, _). buckets m k) ks = map Some as"
    unfolding empty by auto
  have len: "length as = length ks" using m(4) by (metis length_map)
  have look: "buckets m (fst (ks ! i)) = Some (as ! i)" if "i < length ks" for i
    using that m(4) len by (metis (no_types, lifting) case_prod_beta nth_map)
  have "as ! i = as ! j \<longleftrightarrow> fst (ks ! i) = fst (ks ! j)" if "i < length ks" "j < length ks" for i j
    using look [OF that(1)] look [OF that(2)] manager_ok_inj [OF m(2)] by (metis option.inject)
  with m len show ?thesis by auto
qed

theorem manager_one_bucket_per_key_witness:
  "\<exists>m as. bucketFor_all [(''a'', 0), (''b'', 1), (''a'', 2)] (NewManager 5) = Inr (m, as) \<and>
     as ! 0 = as ! 2 \<and> as ! 0 \<noteq> as ! 1 \<and> card (dom (buckets m)) = 2"
proof -
  define ks :: "(string \<times> time) list" where "ks = [(''a'', 0), (''b'', 1), (''a'', 2)]"
  have "sint (5 :: i64) \<le> 1000000000" by simp
  from manager_one_bucket_per_key [OF this, of ks] obtain m as where
    m: "bucketFor_all ks (NewManager 5) = Inr (m, as)"
    and eq: "\<forall>i j. i < length ks \<and> j < length ks \<longrightarrow> (as ! i = as ! j \<longleftrightarrow> fst (ks ! i) = fst (ks ! j))"
    and card: "card (dom (buckets m)) = card (fst ` set ks)"
    by blast
  have "as ! 0 = as ! 2" using eq [rule_format, of 0 2] by (simp add: ks_def)
  moreover have "as ! 0 \<noteq> as ! 1" using eq [rule_format, of 0 1] by (simp add: ks_def)
  moreover have "card (dom (buckets m)) = 2" using card by (simp add: ks_def card_insert_if)
  ultimately show ?thesis using m unfolding ks_def by blast
qed

section \<open>Isolation\<close>

text \<open>
  C15. Keys are isolated. Whatever lookups, waits, ticks and refills are performed
  for other keys, in any order, the bucket of a key is left exactly as it was: a
  burst against one host takes nothing from the budget of another.
\<close>

theorem manager_keys_isolated:
  assumes "manager_ok m" and "run_ops limiter_perform ops m = Some m'" and "key \<notin> fst ` set ops"
  shows "bucket_at m' key = bucket_at m key"
  using assms by (rule limiter_keys.run_ops_frame)

theorem manager_keys_isolated_witness:
  "\<exists>m m'. run_ops limiter_perform [(''slow'', OpLookup 0), (''slow'', OpFire 200000000),
       (''slow'', OpRefill RefillTick), (''slow'', OpWait None 200000000 WaitToken)] m = Some m' \<and>
     bucket_at m ''quiet'' \<noteq> None \<and> bucket_at m' ''quiet'' = bucket_at m ''quiet''"
proof -
  have cl: "clamped 5 = 5" by (simp add: clamped_def)
  have r: "ratePerSecond (NewManager 5) = 5" by (simp add: NewManager_def)
  obtain m a where m: "Manager_bucketFor (NewManager 5) ''quiet'' 0 = Inr (m, a)"
    using bucketFor_total [of "NewManager 5" "''quiet''" 0] unfolding r by auto
  note sp = bucketFor_spec [OF manager_ok_new m]
  let ?ops = "[(''slow'', OpLookup 0), (''slow'', OpFire 200000000),
       (''slow'', OpRefill RefillTick), (''slow'', OpWait None 200000000 WaitToken)]"
  have "buckets m ''slow'' = None" using sp(5) [of "''slow''"] by (simp add: NewManager_def)
  moreover have "ratePerSecond m = 5" using sp(3) r by simp
  ultimately have "\<exists>m'. run_ops limiter_perform ?ops m = Some m'"
    by (simp add: Manager_bucketFor_def NewBucket_eq cl Let_def fire_at_def ticker_due_def
        refill_at_def Bucket_refill.simps Manager_Wait_def split: option.split)
  then obtain m' where m': "run_ops limiter_perform ?ops m = Some m'" ..
  have "bucket_at m' ''quiet'' = bucket_at m ''quiet''"
    using manager_keys_isolated [OF sp(1) m'] by simp
  moreover have "bucket_at m ''quiet'' \<noteq> None"
    using manager_ok_key(2) [OF sp(1,2)] sp(2) by (auto simp: bucket_at_def)
  ultimately show ?thesis using m' by blast
qed

section \<open>Shutdown\<close>

definition closed_bucket :: "bucket \<Rightarrow> bucket" where
  "closed_bucket b = (case Bucket_Close b of Inl _ \<Rightarrow> b | Inr b' \<Rightarrow> b')"

lemma closed_bucket_spec:
  assumes "bucket_ok b"
  shows "Bucket_Close b = Inr (closed_bucket b)" and "bucket_ok (closed_bucket b)"
    and "is_closed (closed_bucket b)" and "capacity_of (closed_bucket b) = capacity_of b"
    and "closed_bucket (closed_bucket b) = closed_bucket b" and "level (closed_bucket b) = level b"
proof -
  obtain b' where b: "Bucket_Close b = Inr b'" using Close_total [OF assms] by blast
  then have eq: "closed_bucket b = b'" by (simp add: closed_bucket_def)
  note Close_spec [OF assms b]
  then show "Bucket_Close b = Inr (closed_bucket b)" "bucket_ok (closed_bucket b)"
    "is_closed (closed_bucket b)" "capacity_of (closed_bucket b) = capacity_of b"
    "closed_bucket (closed_bucket b) = closed_bucket b" "level (closed_bucket b) = level b"
    using b by (simp_all add: eq) (simp add: closed_bucket_def)
qed

text \<open>The store after the buckets of some keys have been closed.\<close>

definition close_keys :: "string set \<Rightarrow> manager \<Rightarrow> manager" where
  "close_keys K m = m\<lparr>bucket_store := (\<lambda>a. if a \<in> ran (buckets m |` K)
                         then map_option closed_bucket (bucket_store m a) else bucket_store m a)\<rparr>"

lemma close_keys_empty [simp]: "close_keys {} m = m"
  by (simp add: close_keys_def)

lemma close_keys_fields [simp]:
  "buckets (close_keys K m) = buckets m" "ratePerSecond (close_keys K m) = ratePerSecond m"
  "next_address (close_keys K m) = next_address m"
  by (simp_all add: close_keys_def)

lemma close_keys_unbound: "buckets m k = None \<Longrightarrow> close_keys (insert k K) m = close_keys K m"
  unfolding close_keys_def ran_def restrict_map_def by (rule arg_cong [where f = "\<lambda>st. m\<lparr>bucket_store := st\<rparr>"]) (auto simp: fun_eq_iff)

lemma close_keys_one:
  assumes "manager_ok m" and "buckets m k = Some a" and "bucket_store m a = Some b"
  shows "close_keys {k} m = m\<lparr>bucket_store := (bucket_store m)(a \<mapsto> closed_bucket b)\<rparr>"
proof -
  have "ran (buckets m |` {k}) = {a}" using assms(2) by (auto simp: ran_def restrict_map_def)
  then show ?thesis using assms(3) unfolding close_keys_def by (auto simp: fun_eq_iff)
qed

lemma close_keys_ok:
  assumes "manager_ok m"
  shows "manager_ok (close_keys K m)"
proof -
  have "dom (bucket_store (close_keys K m)) = dom (bucket_store m)"
    by (auto simp: close_keys_def dom_def split: if_splits)
  moreover have "bucket_ok d \<and> capacity_of d = nat (sint (clamped (ratePerSecond m)))"
    if "bucket_store (close_keys K m) a = Some d" for a d
  proof -
    from that obtain b where b: "bucket_store m a = Some b" and "d = b \<or> d = closed_bucket b"
      by (auto simp: close_keys_def split: if_splits)
    moreover have "bucket_ok b \<and> capacity_of b = nat (sint (clamped (ratePerSecond m)))"
      using assms b unfolding manager_ok_def by blast
    ultimately show ?thesis using closed_bucket_spec [of b] by auto
  qed
  ultimately show ?thesis using assms unfolding manager_ok_def by simp
qed

lemma close_keys_twice:
  assumes "manager_ok m"
  shows "close_keys K (close_keys L m) = close_keys (L \<union> K) m"
proof -
  have "closed_bucket (closed_bucket b) = closed_bucket b" if "bucket_store m a = Some b" for a b
    using assms that closed_bucket_spec(5) [of b] unfolding manager_ok_def by blast
  then have "map_option closed_bucket (map_option closed_bucket (bucket_store m a)) =
      map_option closed_bucket (bucket_store m a)" for a
    by (cases "bucket_store m a") auto
  moreover have "ran (buckets m |` (L \<union> K)) = ran (buckets m |` L) \<union> ran (buckets m |` K)"
    by (auto simp: ran_def restrict_map_def)
  ultimately show ?thesis unfolding close_keys_def by (auto simp: fun_eq_iff)
qed

lemma close_each_eq: "manager_ok m \<Longrightarrow> close_each order m = Inr (close_keys (set order) m)"
proof (induction order arbitrary: m)
  case Nil
  then show ?case by simp
next
  case (Cons k order)
  show ?case
  proof (cases "buckets m k")
    case None
    with Cons show ?thesis by (simp add: close_keys_unbound)
  next
    case (Some a)
    then obtain b where b: "bucket_store m a = Some b" "bucket_ok b"
      using manager_ok_key(2) [OF Cons.prems] by blast
    let ?m = "m\<lparr>bucket_store := (bucket_store m)(a \<mapsto> closed_bucket b)\<rparr>"
    have one: "?m = close_keys {k} m" using close_keys_one [OF Cons.prems Some b(1)] by simp
    have "close_each (k # order) m = close_each order ?m"
      using Some b closed_bucket_spec(1) [OF b(2)] by simp
    also have "\<dots> = Inr (close_keys (set order) (close_keys {k} m))"
      unfolding one by (rule Cons.IH [OF close_keys_ok [OF Cons.prems]])
    finally show ?thesis by (simp add: close_keys_twice [OF Cons.prems])
  qed
qed

text \<open>
  Shutdown reaches every bucket. \<open>Close\<close> never panics, its result does not
  depend on the order in which Go ranges over the map, and afterwards every call
  of \<open>Wait\<close> for a known key can return \<open>ErrClosed\<close> at once, whatever its context.
\<close>

theorem manager_close_all:
  assumes "manager_ok m" and "set order = dom (buckets m)"
  shows "\<exists>m'. Manager_Close order m = Inr m' \<and> manager_ok m' \<and>
     (\<forall>order'. set order' = dom (buckets m) \<longrightarrow> Manager_Close order' m = Inr m') \<and>
     (\<forall>key ctx now. buckets m key \<noteq> None \<longrightarrow>
        Manager_Wait m' ctx key now WaitDone = Inr (m', Some (Some ErrClosed)))"
proof -
  let ?m = "close_keys (dom (buckets m)) m"
  have eq: "Manager_Close ord m = Inr ?m" if "set ord = dom (buckets m)" for ord
    using close_each_eq [OF assms(1)] that by (simp add: Manager_Close_def)
  have "Manager_Wait ?m ctx key now WaitDone = Inr (?m, Some (Some ErrClosed))"
    if "buckets m key \<noteq> None" for key ctx now
  proof -
    from that obtain a where a: "buckets m key = Some a" by blast
    then obtain b where b: "bucket_store m a = Some b" "bucket_ok b"
      using manager_ok_key(2) [OF assms(1)] by blast
    have "bucket_store ?m a = Some (closed_bucket b)"
      using a b(1) by (auto simp: close_keys_def ran_def restrict_map_def)
    moreover have "Bucket_Wait (closed_bucket b) ctx WaitDone = Some (closed_bucket b, Some ErrClosed)"
      using closed_bucket_spec(3) [OF b(2)] by (simp add: Bucket_Wait.simps is_closed_def)
    ultimately have "wait_at ?m a ctx WaitDone = Some (?m, Some ErrClosed)"
      by (simp add: wait_at_def fun_upd_idem)
    with a show ?thesis by (simp add: Manager_Wait_def)
  qed
  with eq assms(2) close_keys_ok [OF assms(1)] show ?thesis by blast
qed

text \<open>A manager that has handed out one bucket, and its closing.\<close>

lemma one_bucket_manager:
  "\<exists>m. manager_ok m \<and> dom (buckets m) = {''a''} \<and> ratePerSecond m = 5"
proof -
  have r: "ratePerSecond (NewManager 5) = 5" and e: "dom (buckets (NewManager 5)) = {}"
    by (simp_all add: NewManager_def)
  obtain m a where m: "Manager_bucketFor (NewManager 5) ''a'' 0 = Inr (m, a)"
    using bucketFor_total [of "NewManager 5" "''a''" 0] unfolding r by auto
  note sp = bucketFor_spec [OF manager_ok_new m]
  have "dom (buckets m) = {''a''}" using sp(4) e by simp
  moreover have "ratePerSecond m = 5" using sp(3) r by simp
  ultimately show ?thesis using sp(1) by blast
qed

theorem manager_close_all_witness:
  "\<exists>m m'. Manager_Close [''a''] m = Inr m' \<and>
     Manager_Wait m' None ''a'' 0 WaitDone = Inr (m', Some (Some ErrClosed))"
proof -
  obtain m where m: "manager_ok m" "dom (buckets m) = {''a''}" using one_bucket_manager by blast
  then have "set [''a''] = dom (buckets m)" by simp
  from manager_close_all [OF m(1) this] obtain m' where
    c: "Manager_Close [''a''] m = Inr m'" and
    w: "\<forall>key ctx now. buckets m key \<noteq> None \<longrightarrow>
        Manager_Wait m' ctx key now WaitDone = Inr (m', Some (Some ErrClosed))"
    by blast
  have "buckets m ''a'' \<noteq> None" using m(2) by blast
  with c w show ?thesis by blast
qed

text \<open>
  What \<open>Close\<close> does not do. The manager keeps no record of having been closed:
  a call of \<open>Wait\<close> for a key that was not known at \<open>Close\<close> creates a fresh bucket with
  a live refill goroutine that nothing will ever stop, and blocks on it instead of
  returning \<open>ErrClosed\<close>.
\<close>

theorem manager_wait_after_close_leaks:
  assumes "manager_ok m" and "sint (ratePerSecond m) \<le> 1000000000"
    and "Manager_Close order m = Inr m'" and "buckets m key = None"
  shows "\<exists>m''. Manager_Wait m' None key now WaitDone = Inr (m'', None) \<and>
     (\<exists>b. bucket_at m'' key = Some b \<and> \<not> is_closed b \<and> refilling b) \<and>
     (\<forall>c. Manager_Wait m'' None key now c = Inr (m'', None))"
proof -
  have m': "m' = close_keys (set order) m"
    using assms(3) close_each_eq [OF assms(1)] by (simp add: Manager_Close_def)
  have fresh: "buckets m' key = None" and rate: "sint (ratePerSecond m') \<le> 1000000000"
    using assms by (simp_all add: m')
  obtain m'' a where f: "Manager_bucketFor m' key now = Inr (m'', a)"
    using bucketFor_total [OF rate] by blast
  have ok': "manager_ok m'" unfolding m' by (rule close_keys_ok [OF assms(1)])
  from bucketFor_fresh [OF ok' fresh f] obtain b where
    b: "NewBucket (ratePerSecond m') now = Inr b" and
    m'': "m'' = m'\<lparr>buckets := (buckets m')(key \<mapsto> a), bucket_store := (bucket_store m')(a \<mapsto> b),
                 next_address := Suc a\<rparr>" .
  note nb = NewBucket_ok [OF b]
  have at: "buckets m'' key = Some a" "bucket_store m'' a = Some b" by (simp_all add: m'')
  have blocked: "Bucket_Wait b None c = None" for c
    using Wait_blocked_iff [of b None] nb by blast
  have "wait_at m'' a None c = None" for c using at(2) blocked by (simp add: wait_at_def)
  then have "Manager_Wait m' None key now WaitDone = Inr (m'', None)"
    and "Manager_Wait m'' None key now c = Inr (m'', None)" for c
    using f at(1) by (simp_all add: Manager_Wait_def)
  moreover have "bucket_at m'' key = Some b" using at by (simp add: bucket_at_def)
  ultimately show ?thesis using nb by blast
qed

theorem manager_wait_after_close_leaks_witness:
  "\<exists>m m' m''. Manager_Close [''a''] m = Inr m' \<and>
     Manager_Wait m' None ''b'' 7 WaitDone = Inr (m'', None) \<and>
     (\<exists>b. bucket_at m'' ''b'' = Some b \<and> refilling b)"
proof -
  obtain m where m: "manager_ok m" "dom (buckets m) = {''a''}" "ratePerSecond m = 5"
    using one_bucket_manager by blast
  then obtain m' where m': "Manager_Close [''a''] m = Inr m'"
    using close_each_eq [OF m(1)] by (simp add: Manager_Close_def)
  have "''b'' \<notin> dom (buckets m)" unfolding m(2) by simp
  then have "buckets m ''b'' = None" "sint (ratePerSecond m) \<le> 1000000000"
    using m(3) by (simp_all add: domIff)
  from manager_wait_after_close_leaks [OF m(1) this(2) m' this(1), of 7] obtain m'' b where
    "Manager_Wait m' None ''b'' 7 WaitDone = Inr (m'', None)" "bucket_at m'' ''b'' = Some b" "refilling b"
    by blast
  with m' show ?thesis by blast
qed

end
