(* ===== verification/Go_Strings.thy ===== *)
theory Go_Strings
  imports Pulse_Prelude "HOL-Library.Sublist"
begin

text \<open>
  The parts of \<open>strings\<close>, \<open>strconv\<close> and \<open>fmt\<close> the program uses. A Go string is a
  sequence of bytes, which is what \<open>string\<close> (a list of 8-bit characters) is;
  functions that work on runes are given on the UTF-8 encoding.
\<close>

abbreviation (input) LF :: char where "LF \<equiv> CHR 0x0A"
abbreviation (input) CR :: char where "CR \<equiv> CHR 0x0D"

section \<open>Splitting and joining\<close>

text \<open>\<open>strings.Split(s, sep)\<close> for a separator of one byte.\<close>

fun split_on :: "char \<Rightarrow> string \<Rightarrow> string list" where
  "split_on c [] = [[]]"
| "split_on c (x # xs) =
     (if x = c then [] # split_on c xs
      else (case split_on c xs of [] \<Rightarrow> [[x]] | l # ls \<Rightarrow> (x # l) # ls))"

lemma split_on_nonempty [simp]: "split_on c s \<noteq> []"
  by (induction s) (auto split: list.splits)

lemma split_on_pieces: "l \<in> set (split_on c s) \<Longrightarrow> c \<notin> set l"
proof (induction s arbitrary: l)
  case (Cons x s)
  then show ?case by (cases "split_on c s") (auto split: if_splits)
qed simp

fun join_with :: "char \<Rightarrow> string list \<Rightarrow> string" where
  "join_with c [] = []"
| "join_with c [l] = l"
| "join_with c (l # ls) = l @ c # join_with c ls"

lemma join_with_Cons: "ls \<noteq> [] \<Longrightarrow> join_with c (l # ls) = l @ c # join_with c ls"
  by (cases ls) auto

lemma join_split: "join_with c (split_on c s) = s"
proof (induction s)
  case (Cons x s)
  obtain l ls where ls: "split_on c s = l # ls" by (cases "split_on c s") auto
  with Cons show ?case by (cases ls) (auto simp: join_with_Cons)
qed simp

lemma split_on_append: "c \<notin> set l \<Longrightarrow> split_on c (l @ c # s) = l # split_on c s"
  by (induction l) auto

lemma split_on_single: "c \<notin> set l \<Longrightarrow> split_on c l = [l]"
  by (induction l) auto

lemma set_split_on: "l \<in> set (split_on c s) \<Longrightarrow> set l \<subseteq> set s"
proof (induction s arbitrary: l)
  case (Cons x s)
  then show ?case by (cases "split_on c s") (fastforce split: if_splits)+
qed simp

section \<open>White space\<close>

text \<open>
  The UTF-8 encodings of the runes for which \<open>unicode.IsSpace\<close> holds. No encoding
  occurs inside another rune, so looking for these byte sequences at the ends
  (\<open>TrimSpace\<close>) or anywhere (\<open>Fields\<close>) finds exactly the white-space runes.
\<close>

definition space_runes :: "string list" where
  "space_runes =
     [[CHR 0x09], [CHR 0x0A], [CHR 0x0B], [CHR 0x0C], [CHR 0x0D], [CHR 0x20],
      [CHR 0xC2, CHR 0x85], [CHR 0xC2, CHR 0xA0], [CHR 0xE1, CHR 0x9A, CHR 0x80],
      [CHR 0xE2, CHR 0x80, CHR 0x80], [CHR 0xE2, CHR 0x80, CHR 0x81], [CHR 0xE2, CHR 0x80, CHR 0x82],
      [CHR 0xE2, CHR 0x80, CHR 0x83], [CHR 0xE2, CHR 0x80, CHR 0x84], [CHR 0xE2, CHR 0x80, CHR 0x85],
      [CHR 0xE2, CHR 0x80, CHR 0x86], [CHR 0xE2, CHR 0x80, CHR 0x87], [CHR 0xE2, CHR 0x80, CHR 0x88],
      [CHR 0xE2, CHR 0x80, CHR 0x89], [CHR 0xE2, CHR 0x80, CHR 0x8A], [CHR 0xE2, CHR 0x80, CHR 0xA8],
      [CHR 0xE2, CHR 0x80, CHR 0xA9], [CHR 0xE2, CHR 0x80, CHR 0xAF], [CHR 0xE2, CHR 0x81, CHR 0x9F],
      [CHR 0xE3, CHR 0x80, CHR 0x80]]"

definition lead_space :: "string list \<Rightarrow> string \<Rightarrow> nat" where
  "lead_space ws s = (case find (\<lambda>w. w \<noteq> [] \<and> prefix w s) ws of None \<Rightarrow> 0 | Some w \<Rightarrow> length w)"

lemma lead_space_le: "lead_space ws s \<le> length s"
  by (auto simp: lead_space_def find_Some_iff prefix_length_le split: option.splits)

function trim_with :: "string list \<Rightarrow> string \<Rightarrow> string" where
  "trim_with ws s = (if lead_space ws s = 0 then s else trim_with ws (drop (lead_space ws s) s))"
  by pat_completeness auto
termination
proof (relation "measure (\<lambda>(ws, s). length s)")
  fix ws s
  assume "lead_space ws s \<noteq> 0"
  with lead_space_le [of ws s] show "((ws, drop (lead_space ws s) s), ws, s) \<in> measure (\<lambda>(ws, s). length s)"
    by simp
qed simp

declare trim_with.simps [simp del]

lemma trim_with_idle: "lead_space ws s = 0 \<Longrightarrow> trim_with ws s = s"
  by (simp add: trim_with.simps)

lemma trim_with_done: "lead_space ws (trim_with ws s) = 0"
proof (induction ws s rule: trim_with.induct)
  case (1 ws s)
  then show ?case by (cases "lead_space ws s = 0") (simp_all add: trim_with.simps [of ws s])
qed

lemma trim_with_suffix: "suffix (trim_with ws s) s"
proof (induction ws s rule: trim_with.induct)
  case (1 ws s)
  show ?case
  proof (cases "lead_space ws s = 0")
    case False
    with 1 have "suffix (trim_with ws (drop (lead_space ws s) s)) (drop (lead_space ws s) s)" by simp
    with False show ?thesis
      by (metis suffix_drop suffix_order.trans trim_with.simps)
  qed (simp add: trim_with_idle)
qed

definition trim_left :: "string \<Rightarrow> string" where
  "trim_left s = trim_with space_runes s"

definition trim_right :: "string \<Rightarrow> string" where
  "trim_right s = rev (trim_with (map rev space_runes) (rev s))"

text \<open>\<open>strings.TrimPrefix\<close> and \<open>strings.TrimSpace\<close>\<close>

definition TrimPrefix :: "string \<Rightarrow> string \<Rightarrow> string" where
  "TrimPrefix s p = (if prefix p s then drop (length p) s else s)"

definition TrimSpace :: "string \<Rightarrow> string" where
  "TrimSpace s = trim_right (trim_left s)"

lemma trim_right_prefix: "prefix (trim_right s) s"
proof -
  obtain ps where "rev s = ps @ trim_with (map rev space_runes) (rev s)"
    using trim_with_suffix by (auto simp: suffix_def)
  then have "s = trim_right s @ rev ps"
    unfolding trim_right_def by (metis rev_append rev_rev_ident)
  then show ?thesis by (metis prefixI)
qed

lemma TrimSpace_sublist: "set (TrimSpace s) \<subseteq> set s"
  unfolding TrimSpace_def trim_left_def
  using trim_right_prefix [of "trim_with space_runes s"] trim_with_suffix [of space_runes s]
    set_mono_prefix set_mono_suffix by blast

text \<open>\<open>strings.Fields\<close>\<close>

function split_spaces :: "string \<Rightarrow> string \<Rightarrow> string list" where
  "split_spaces cur s =
     (if s = [] then [rev cur]
      else if lead_space space_runes s = 0 then split_spaces (hd s # cur) (tl s)
      else rev cur # split_spaces [] (drop (lead_space space_runes s) s))"
  by pat_completeness auto
termination by (relation "measure (\<lambda>(cur, s). length s)") auto

declare split_spaces.simps [simp del]

definition Fields :: "string \<Rightarrow> string list" where
  "Fields s = filter (\<lambda>w. w \<noteq> []) (split_spaces [] s)"

text \<open>A byte that starts no white-space rune.\<close>

definition plain :: "char \<Rightarrow> bool" where
  "plain c \<longleftrightarrow> 0x20 < (of_char c :: nat) \<and> (of_char c :: nat) < 0x7F"

definition space_leads :: "char set" where
  "space_leads = {CHR 0x09, CHR 0x0A, CHR 0x0B, CHR 0x0C, CHR 0x0D, CHR 0x20,
     CHR 0xC2, CHR 0xE1, CHR 0xE2, CHR 0xE3}"

lemma space_runes_leads: "list_all (\<lambda>w. case w of [] \<Rightarrow> False | c # _ \<Rightarrow> c \<in> space_leads) space_runes"
  by (simp add: space_runes_def space_leads_def)

lemma find_SomeD: "find P xs = Some x \<Longrightarrow> x \<in> set xs \<and> P x"
  by (auto simp: find_Some_iff)

lemma not_lead:
  assumes "c \<notin> space_leads"
  shows "lead_space space_runes (c # s) = 0"
proof (cases "find (\<lambda>w. w \<noteq> [] \<and> prefix w (c # s)) space_runes")
  case (Some w)
  then have "w \<in> set space_runes" "prefix w (c # s)" "w \<noteq> []" by (auto dest: find_SomeD)
  with space_runes_leads assms show ?thesis by (cases w) (auto simp: list_all_iff)
qed (simp add: lead_space_def)

lemma plain_not_lead: "plain c \<Longrightarrow> lead_space space_runes (c # s) = 0"
  by (rule not_lead) (auto simp: plain_def space_leads_def)

lemma space_lead: "lead_space space_runes (CHR '' '' # s) = 1"
  by (simp add: lead_space_def space_runes_def)

lemma split_spaces_plain:
  "list_all plain w \<Longrightarrow> split_spaces cur (w @ s) = split_spaces (rev w @ cur) s"
  by (induction w arbitrary: cur) (simp_all add: split_spaces.simps [of cur "_ # _" for cur] plain_not_lead)

lemma Fields_two:
  assumes "list_all plain a" and "a \<noteq> []" and "list_all plain b" and "b \<noteq> []"
  shows "Fields (a @ CHR '' '' # b) = [a, b]"
proof -
  have "split_spaces [] (a @ CHR '' '' # b) = split_spaces (rev a) (CHR '' '' # b)"
    using split_spaces_plain [OF assms(1)] by simp
  also have "\<dots> = a # split_spaces [] (b @ [])"
    by (subst split_spaces.simps) (simp add: space_lead)
  also have "split_spaces [] (b @ []) = split_spaces (rev b) []"
    using split_spaces_plain [OF assms(3), of "[]" "[]"] by simp
  also have "split_spaces (rev b) [] = [b]" by (simp add: split_spaces.simps)
  finally show ?thesis using assms by (simp add: Fields_def)
qed

section \<open>Decimal numbers\<close>

definition digit_char :: "nat \<Rightarrow> char" where
  "digit_char d = char_of (48 + d)"

definition is_digit :: "char \<Rightarrow> bool" where
  "is_digit c \<longleftrightarrow> 48 \<le> (of_char c :: nat) \<and> (of_char c :: nat) \<le> 57"

definition digit_value :: "char \<Rightarrow> nat" where
  "digit_value c = of_char c - 48"

lemma of_digit_char: "d < 10 \<Longrightarrow> (of_char (digit_char d) :: nat) = 48 + d"
  by (simp add: digit_char_def)

lemma digit_char_props [simp]:
  assumes "d < 10"
  shows "is_digit (digit_char d)" and "digit_value (digit_char d) = d" and "plain (digit_char d)"
    and "digit_char d \<noteq> CHR ''-''" and "digit_char d \<noteq> CHR ''+''" and "digit_char d \<noteq> CHR 0x0A"
proof -
  note v = of_digit_char [OF assms]
  show "is_digit (digit_char d)" "digit_value (digit_char d) = d" "plain (digit_char d)"
    using assms by (simp_all add: v is_digit_def digit_value_def plain_def)
  have "(of_char (digit_char d) :: nat) \<notin> {45, 43, 10}" using v by simp
  then show "digit_char d \<noteq> CHR ''-''" "digit_char d \<noteq> CHR ''+''" "digit_char d \<noteq> CHR 0x0A"
    by auto
qed

text \<open>The verb \<open>%d\<close> of \<open>fmt\<close>.\<close>

fun show_nat :: "nat \<Rightarrow> string" where
  "show_nat n = (if n < 10 then [digit_char n] else show_nat (n div 10) @ [digit_char (n mod 10)])"

declare show_nat.simps [simp del]

definition show_int :: "int \<Rightarrow> string" where
  "show_int k = (if k < 0 then CHR ''-'' # show_nat (nat (- k)) else show_nat (nat k))"

lemma show_nat_digits: "show_nat n \<noteq> [] \<and> list_all plain (show_nat n) \<and> hd (show_nat n) \<noteq> CHR ''-''
    \<and> hd (show_nat n) \<noteq> CHR ''+'' \<and> CHR 0x0A \<notin> set (show_nat n)"
proof (induction n rule: show_nat.induct)
  case (1 n)
  have "digit_char (n mod 10) \<noteq> CHR 0x0A" "CHR 0x0A \<noteq> digit_char (n mod 10)"
    using digit_char_props(6) [of "n mod 10"] by fastforce+
  moreover have "n < 10 \<Longrightarrow> CHR 0x0A \<noteq> digit_char n" using digit_char_props(6) by fastforce
  ultimately show ?case using 1 by (cases "n < 10") (auto simp: show_nat.simps [of n])
qed

text \<open>\<open>strconv.ParseInt(s, 10, 64)\<close>, and \<open>strconv.Atoi\<close>, which agrees with it.\<close>

datatype num_err = ErrSyntax | ErrRange

fun scan_digits :: "nat \<Rightarrow> string \<Rightarrow> num_err + nat" where
  "scan_digits n [] = Inr n"
| "scan_digits n (c # cs) =
     (if \<not> is_digit c then Inl ErrSyntax
      else let n' = 10 * n + digit_value c in
           if 2 ^ 64 \<le> n' then Inl ErrRange else scan_digits n' cs)"

definition ParseUint :: "string \<Rightarrow> num_err + nat" where
  "ParseUint s = (if s = [] then Inl ErrSyntax else scan_digits 0 s)"

definition ParseInt :: "string \<Rightarrow> num_err + i64" where
  "ParseInt s =
     (case s of
        [] \<Rightarrow> Inl ErrSyntax
      | c # cs \<Rightarrow>
          (case ParseUint (if c = CHR ''-'' \<or> c = CHR ''+'' then cs else s) of
             Inl e \<Rightarrow> Inl e
           | Inr un \<Rightarrow>
               (if c \<noteq> CHR ''-'' \<and> 2 ^ 63 \<le> un then Inl ErrRange
                else if c = CHR ''-'' \<and> 2 ^ 63 < un then Inl ErrRange
                else Inr (word_of_int (if c = CHR ''-'' then - int un else int un)))))"

definition Atoi :: "string \<Rightarrow> num_err + i64" where
  "Atoi s = ParseInt s"

lemma scan_digits_append:
  "scan_digits n (xs @ [c]) =
     (case scan_digits n xs of
        Inl e \<Rightarrow> Inl e
      | Inr m \<Rightarrow> (if \<not> is_digit c then Inl ErrSyntax
                  else if 2 ^ 64 \<le> 10 * m + digit_value c then Inl ErrRange
                  else Inr (10 * m + digit_value c)))"
  by (induction xs arbitrary: n) (auto simp: Let_def)

lemma scan_show_nat: "n < 2 ^ 64 \<Longrightarrow> scan_digits 0 (show_nat n) = Inr n"
proof (induction n rule: show_nat.induct)
  case (1 n)
  show ?case
  proof (cases "n < 10")
    case True
    then show ?thesis by (simp add: show_nat.simps [of n])
  next
    case False
    then have "scan_digits 0 (show_nat (n div 10)) = Inr (n div 10)"
      using 1 by (simp add: div_less_dividend less_trans)
    moreover have "10 * (n div 10) + n mod 10 = n" by simp
    ultimately show ?thesis
      using False 1(2) by (simp add: show_nat.simps [of n] scan_digits_append)
  qed
qed

lemma ParseUint_show_nat: "n < 2 ^ 64 \<Longrightarrow> ParseUint (show_nat n) = Inr n"
  using show_nat_digits [of n] by (simp add: ParseUint_def scan_show_nat)

text \<open>Printing and parsing a 64-bit integer are inverse.\<close>

lemma ParseInt_show_int: "ParseInt (show_int (sint w)) = Inr w"
proof (cases "sint w < 0")
  case True
  have "nat (- sint w) < 2 ^ 64" using sint_i64_range [of w] by simp
  then show ?thesis
    using True sint_i64_range(1) [of w]
    by (simp add: ParseInt_def show_int_def ParseUint_show_nat)
next
  case False
  then have lt: "nat (sint w) < 2 ^ 63" using sint_i64_range(2) [of w] by simp
  obtain c cs where s: "show_nat (nat (sint w)) = c # cs" "c \<noteq> CHR ''-''" "c \<noteq> CHR ''+''"
    using show_nat_digits [of "nat (sint w)"] by (cases "show_nat (nat (sint w))") auto
  have "ParseUint (c # cs) = Inr (nat (sint w))"
    using ParseUint_show_nat [of "nat (sint w)"] lt s(1) by simp
  with s False lt show ?thesis by (simp add: ParseInt_def show_int_def)
qed

lemma show_int_plain: "list_all plain (show_int k)" "show_int k \<noteq> []" "CHR 0x0A \<notin> set (show_int k)"
  using show_nat_digits by (auto simp: show_int_def plain_def)

end
