(* ===== verification/Go_Http.thy ===== *)
theory Go_Http
  imports Go_Strings
begin

text \<open>
  What the handlers use of \<open>net/http\<close>: a response writer. The header map can be
  changed until the status line goes out; the first \<open>WriteHeader\<close>, or the first
  write of body bytes, sends the status with the headers set so far, and every
  later \<open>WriteHeader\<close> is ignored.
\<close>

section \<open>Status codes\<close>

abbreviation (input) StatusOK :: nat where "StatusOK \<equiv> 200"
abbreviation (input) StatusBadRequest :: nat where "StatusBadRequest \<equiv> 400"
abbreviation (input) StatusNotFound :: nat where "StatusNotFound \<equiv> 404"
abbreviation (input) StatusConflict :: nat where "StatusConflict \<equiv> 409"
abbreviation (input) StatusInternalServerError :: nat where "StatusInternalServerError \<equiv> 500"

section \<open>The response writer\<close>

type_synonym header = "string \<rightharpoonup> string"

record response =
  rw_header :: header                  \<comment> \<open>the map returned by \<open>w.Header()\<close>\<close>
  rw_sent :: "(nat \<times> header) option"   \<comment> \<open>the status line and headers on the wire\<close>
  rw_body :: string

definition new_response :: response where
  "new_response = \<lparr>rw_header = Map.empty, rw_sent = None, rw_body = []\<rparr>"

definition Header_Set :: "string \<Rightarrow> string \<Rightarrow> response \<Rightarrow> response" where
  "Header_Set k v w = w\<lparr>rw_header := (rw_header w)(k \<mapsto> v)\<rparr>"

definition WriteHeader :: "nat \<Rightarrow> response \<Rightarrow> response" where
  "WriteHeader code w =
     (case rw_sent w of
        None \<Rightarrow> w\<lparr>rw_sent := Some (code, rw_header w)\<rparr>
      | Some _ \<Rightarrow> w)"

definition Write :: "string \<Rightarrow> response \<Rightarrow> response" where
  "Write bytes w = (WriteHeader StatusOK w)\<lparr>rw_body := rw_body w @ bytes\<rparr>"

text \<open>\<open>http.Error\<close>: the message with a final newline, as plain text.\<close>

definition http_Error :: "string \<Rightarrow> nat \<Rightarrow> response \<Rightarrow> response" where
  "http_Error msg code w =
     Write (msg @ [LF])
       (WriteHeader code
         (Header_Set ''X-Content-Type-Options'' ''nosniff''
           (Header_Set ''Content-Type'' ''text/plain; charset=utf-8''
             (w\<lparr>rw_header := (rw_header w)(''Content-Length'' := None, ''Content-Encoding'' := None,
                  ''Etag'' := None, ''Last-Modified'' := None)\<rparr>))))"

text \<open>The status the client sees once the handler has returned.\<close>

definition final_status :: "response \<Rightarrow> nat" where
  "final_status w = (case rw_sent w of None \<Rightarrow> StatusOK | Some (code, _) \<Rightarrow> code)"

lemma new_response_simps [simp]:
  "rw_header new_response = Map.empty" "rw_sent new_response = None" "rw_body new_response = []"
  by (simp_all add: new_response_def)

lemma Header_Set_simps [simp]:
  "rw_sent (Header_Set k v w) = rw_sent w" "rw_body (Header_Set k v w) = rw_body w"
  "rw_header (Header_Set k v w) = (rw_header w)(k \<mapsto> v)"
  by (simp_all add: Header_Set_def)

lemma WriteHeader_simps [simp]:
  "rw_body (WriteHeader code w) = rw_body w" "rw_header (WriteHeader code w) = rw_header w"
  "rw_sent w = None \<Longrightarrow> rw_sent (WriteHeader code w) = Some (code, rw_header w)"
  "rw_sent w = Some s \<Longrightarrow> rw_sent (WriteHeader code w) = Some s"
  by (simp_all add: WriteHeader_def split: option.split)

lemma Write_simps [simp]:
  "rw_body (Write bytes w) = rw_body w @ bytes" "rw_header (Write bytes w) = rw_header w"
  "rw_sent (Write bytes w) = rw_sent (WriteHeader StatusOK w)"
  by (simp_all add: Write_def)

lemma http_Error_fresh:
  "rw_sent w = None \<Longrightarrow> final_status (http_Error msg code w) = code \<and>
     rw_body (http_Error msg code w) = rw_body w @ msg @ [LF]"
  by (simp add: http_Error_def final_status_def)

lemma http_Error_late:
  "rw_sent w = Some s \<Longrightarrow> rw_sent (http_Error msg code w) = Some s"
  by (simp add: http_Error_def)

end
