(* ===== verification/Metrics.thy ===== *)
theory Metrics
  imports Go_Http
begin

text \<open>
  The process counters of \<open>internal/metrics/metrics.go\<close>, their text rendering for
  \<open>GET /metrics\<close>, and the reader of that text in \<open>cmd/loadtest/main.go\<close>. Every
  counter is an atomic \<open>int64\<close>, so each update is one step of its own and wraps.
\<close>

section \<open>Counters\<close>

record metrics =
  checksTotal :: i64
  checksInFlight :: i64
  checksFailed :: i64

definition Metrics_New :: metrics where
  "Metrics_New = \<lparr>checksTotal = 0, checksInFlight = 0, checksFailed = 0\<rparr>"

definition CheckStarted :: "metrics \<Rightarrow> metrics" where
  "CheckStarted m = m\<lparr>checksInFlight := checksInFlight m + 1\<rparr>"

definition CheckFinished :: "bool \<Rightarrow> metrics \<Rightarrow> metrics" where
  "CheckFinished failed m =
     (let m1 = m\<lparr>checksInFlight := checksInFlight m - 1\<rparr>;
          m2 = m1\<lparr>checksTotal := checksTotal m1 + 1\<rparr>
      in if failed then m2\<lparr>checksFailed := checksFailed m2 + 1\<rparr> else m2)"

section \<open>The recorder interface\<close>

text \<open>
  \<open>monitor.MetricsRecorder\<close> as its caller sees it: calls are recorded, and three
  counters can be observed. What a sequence of calls amounts to is proved from
  the contract alone.
\<close>

datatype metric_call = CallStarted | CallFinished bool

fun record_calls :: "('m \<Rightarrow> 'm) \<Rightarrow> (bool \<Rightarrow> 'm \<Rightarrow> 'm) \<Rightarrow> metric_call list \<Rightarrow> 'm \<Rightarrow> 'm" where
  "record_calls st fin [] m = m"
| "record_calls st fin (CallStarted # cs) m = record_calls st fin cs (st m)"
| "record_calls st fin (CallFinished failed # cs) m = record_calls st fin cs (fin failed m)"

definition n_started :: "metric_call list \<Rightarrow> nat" where
  "n_started cs = count_of (\<lambda>c. c = CallStarted) cs"

definition n_finished :: "metric_call list \<Rightarrow> nat" where
  "n_finished cs = count_of (\<lambda>c. \<exists>f. c = CallFinished f) cs"

definition n_failed :: "metric_call list \<Rightarrow> nat" where
  "n_failed cs = count_of (\<lambda>c. c = CallFinished True) cs"

lemmas n_calls = n_started_def n_finished_def n_failed_def

lemma n_calls_simps [simp]:
  "n_started [] = 0" "n_finished [] = 0" "n_failed [] = 0"
  "n_started (c # cs) = (if c = CallStarted then 1 else 0) + n_started cs"
  "n_finished (CallStarted # cs) = n_finished cs"
  "n_finished (CallFinished f # cs) = Suc (n_finished cs)"
  "n_failed (CallStarted # cs) = n_failed cs"
  "n_failed (CallFinished f # cs) = (if f then 1 else 0) + n_failed cs"
  "n_started (cs @ ds) = n_started cs + n_started ds"
  "n_finished (cs @ ds) = n_finished cs + n_finished ds"
  "n_failed (cs @ ds) = n_failed cs + n_failed ds"
  by (auto simp: n_calls)

lemma n_failed_le: "n_failed cs \<le> n_finished cs"
  unfolding n_calls by (rule count_of_mono) auto

locale recorder =
  fixes st :: "'m \<Rightarrow> 'm" and fin :: "bool \<Rightarrow> 'm \<Rightarrow> 'm"
    and in_flight :: "'m \<Rightarrow> i64" and total :: "'m \<Rightarrow> i64" and failures :: "'m \<Rightarrow> i64"
  assumes st_in_flight: "in_flight (st m) = in_flight m + 1"
    and st_total: "total (st m) = total m" and st_failures: "failures (st m) = failures m"
    and fin_in_flight: "in_flight (fin f m) = in_flight m - 1"
    and fin_total: "total (fin f m) = total m + 1"
    and fin_failures: "failures (fin f m) = failures m + (if f then 1 else 0)"
begin

lemmas recorder_laws = st_in_flight st_total st_failures fin_in_flight fin_total fin_failures

lemma calls_in_flight:
  "in_flight (record_calls st fin cs m) = in_flight m + of_nat (n_started cs) - of_nat (n_finished cs)"
proof (induction cs arbitrary: m)
  case (Cons c cs)
  then show ?case by (cases c) (simp_all add: recorder_laws algebra_simps)
qed simp

lemma calls_total: "total (record_calls st fin cs m) = total m + of_nat (n_finished cs)"
proof (induction cs arbitrary: m)
  case (Cons c cs)
  then show ?case by (cases c) (simp_all add: recorder_laws algebra_simps)
qed simp

lemma calls_failures: "failures (record_calls st fin cs m) = failures m + of_nat (n_failed cs)"
proof (induction cs arbitrary: m)
  case (Cons c cs)
  then show ?case by (cases c) (simp_all add: recorder_laws algebra_simps)
qed simp

end

interpretation counters: recorder CheckStarted CheckFinished checksInFlight checksTotal checksFailed
  by unfold_locales (simp_all add: CheckStarted_def CheckFinished_def Let_def)

abbreviation metrics_after :: "metric_call list \<Rightarrow> metrics" where
  "metrics_after cs \<equiv> record_calls CheckStarted CheckFinished cs Metrics_New"

text \<open>
  Every finish follows its own start, so at no moment have more calls finished
  than started.
\<close>

definition balanced :: "metric_call list \<Rightarrow> bool" where
  "balanced cs \<longleftrightarrow> n_finished cs \<le> n_started cs"

lemma sint_of_nat: "n < 2 ^ 63 \<Longrightarrow> sint (of_nat n :: i64) = int n"
proof -
  assume "n < 2 ^ 63"
  then have "int n < 2 ^ 63" by simp
  then have "sint (word_of_int (int n) :: i64) = int n" by (intro sint_i64_of_int) simp_all
  then show ?thesis by simp
qed

text \<open>
  The counters count. After any interleaving of calls in which no check
  finishes before it has started, and below \<open>2^63\<close> checks, the three counters are
  the number of checks running, finished and failed; the failures never exceed the
  total and the in-flight gauge is never negative.
\<close>

theorem metrics_counters_exact:
  assumes "balanced cs" and "n_started cs < 2 ^ 63"
  shows "sint (checksInFlight (metrics_after cs)) = int (n_started cs) - int (n_finished cs) \<and>
     sint (checksTotal (metrics_after cs)) = int (n_finished cs) \<and>
     sint (checksFailed (metrics_after cs)) = int (n_failed cs) \<and>
     0 \<le> sint (checksInFlight (metrics_after cs)) \<and>
     sint (checksFailed (metrics_after cs)) \<le> sint (checksTotal (metrics_after cs))"
proof -
  have le: "n_finished cs \<le> n_started cs" "n_failed cs \<le> n_finished cs"
    using assms(1) n_failed_le by (simp_all add: balanced_def)
  have eq: "checksInFlight (metrics_after cs) = of_nat (n_started cs - n_finished cs)"
    "checksTotal (metrics_after cs) = of_nat (n_finished cs)"
    "checksFailed (metrics_after cs) = of_nat (n_failed cs)"
    using le by (simp_all add: counters.calls_in_flight counters.calls_total counters.calls_failures
        Metrics_New_def of_nat_diff)
  have lt: "n_started cs - n_finished cs < 2 ^ 63" "n_finished cs < 2 ^ 63" "n_failed cs < 2 ^ 63"
    using le assms(2) by linarith+
  show ?thesis unfolding eq sint_of_nat [OF lt(1)] sint_of_nat [OF lt(2)] sint_of_nat [OF lt(3)]
    using le by (simp add: of_nat_diff)
qed

theorem metrics_counters_exact_witness:
  "sint (checksInFlight (metrics_after [CallStarted, CallStarted, CallFinished True])) = 1 \<and>
   sint (checksFailed (metrics_after [CallStarted, CallStarted, CallFinished True])) = 1"
  using metrics_counters_exact [of "[CallStarted, CallStarted, CallFinished True]"]
  by (simp add: balanced_def)

section \<open>The text of \<open>GET /metrics\<close>\<close>

text \<open>
  The handler loads the counters one after the other. The uptime goes through a
  floating-point conversion, whose result is an argument.
\<close>

definition metric_line :: "string \<Rightarrow> i64 \<Rightarrow> string" where
  "metric_line name v = name @ CHR '' '' # show_int (sint v) @ [LF]"

definition Metrics_Handler :: "metrics \<Rightarrow> i64 \<Rightarrow> response \<Rightarrow> response" where
  "Metrics_Handler m uptime w =
     Write (metric_line ''uptime_seconds'' uptime)
      (Write (metric_line ''checks_failures'' (checksFailed m))
        (Write (metric_line ''checks_in_flight'' (checksInFlight m))
          (Write (metric_line ''checks_total'' (checksTotal m))
            (Header_Set ''Content-Type'' ''text/plain; charset=utf-8'' w))))"

section \<open>The reader of the load test\<close>

datatype read_err =
    GetFailed string
  | BodyFailed string
  | BadStatus nat
  | MetricNotFound string
  | BadNumber num_err

text \<open>The outcome of \<open>client.Get\<close> followed by reading the body.\<close>

datatype get_outcome = GetError string | GotResponse nat "string + string"

fun find_metric :: "string \<Rightarrow> string list \<Rightarrow> read_err + i64" where
  "find_metric name [] = Inl (MetricNotFound name)"
| "find_metric name (line # ls) =
     (case Fields line of
        [k, v] \<Rightarrow> (if k = name
                  then (case ParseInt v of Inl e \<Rightarrow> Inl (BadNumber e) | Inr x \<Rightarrow> Inr x)
                  else find_metric name ls)
      | _ \<Rightarrow> find_metric name ls)"

definition readMetric :: "get_outcome \<Rightarrow> string \<Rightarrow> read_err + i64" where
  "readMetric got name =
     (case got of
        GetError e \<Rightarrow> Inl (GetFailed e)
      | GotResponse status (Inl e) \<Rightarrow> Inl (BodyFailed e)
      | GotResponse status (Inr body) \<Rightarrow>
          (if status \<noteq> StatusOK then Inl (BadStatus status)
           else find_metric name (split_on LF body)))"

lemma metric_line_split:
  assumes "list_all plain name"
  shows "split_on LF (metric_line name v @ rest) = (name @ CHR '' '' # show_int (sint v)) # split_on LF rest"
proof -
  have "LF \<notin> set name" using assms by (auto simp: list_all_iff plain_def)
  then have "LF \<notin> set (name @ CHR '' '' # show_int (sint v))" using show_int_plain(3) by simp
  from split_on_append [OF this] show ?thesis by (simp add: metric_line_def)
qed

lemma metric_line_fields:
  assumes "list_all plain name" and "name \<noteq> []"
  shows "Fields (name @ CHR '' '' # show_int (sint v)) = [name, show_int (sint v)]"
  using assms show_int_plain by (simp add: Fields_two)

lemma find_metric_line:
  assumes "list_all plain name'" and "name' \<noteq> []"
  shows "find_metric name (split_on LF (metric_line name' v @ rest)) =
     (if name' = name then Inr v else find_metric name (split_on LF rest))"
  by (simp add: metric_line_split [OF assms(1)] metric_line_fields [OF assms] ParseInt_show_int)

lemma metric_names_plain:
  "list_all plain ''checks_total''" "list_all plain ''checks_in_flight''"
  "list_all plain ''checks_failures''" "list_all plain ''uptime_seconds''"
  by (simp_all add: plain_def)

text \<open>
  Scraping is exact. Whatever the counters hold, negative values included,
  the load test's \<open>readMetric\<close> applied to the body that the metrics handler wrote
  returns for each of the four names exactly the value of that counter.
\<close>

theorem metrics_scrape_roundtrip:
  "readMetric (GotResponse (final_status (Metrics_Handler m up new_response))
      (Inr (rw_body (Metrics_Handler m up new_response)))) name =
    (if name = ''checks_total'' then Inr (checksTotal m)
     else if name = ''checks_in_flight'' then Inr (checksInFlight m)
     else if name = ''checks_failures'' then Inr (checksFailed m)
     else if name = ''uptime_seconds'' then Inr up
     else Inl (MetricNotFound name))"
proof -
  let ?w = "Metrics_Handler m up new_response"
  have body: "rw_body ?w = metric_line ''checks_total'' (checksTotal m) @
      metric_line ''checks_in_flight'' (checksInFlight m) @
      metric_line ''checks_failures'' (checksFailed m) @ metric_line ''uptime_seconds'' up @ []"
    by (simp add: Metrics_Handler_def)
  have "final_status ?w = StatusOK" by (simp add: Metrics_Handler_def final_status_def)
  moreover have "Fields [] = []" by (simp add: Fields_def split_spaces.simps)
  ultimately show ?thesis
    unfolding readMetric_def body
    by (simp add: find_metric_line [OF metric_names_plain(1)] find_metric_line [OF metric_names_plain(2)]
        find_metric_line [OF metric_names_plain(3)] find_metric_line [OF metric_names_plain(4)]
        del: append_Nil2)
qed

end
