(* ===== verification/Config.thy ===== *)
theory Config
  imports Go_Strings
begin

text \<open>
  \<open>internal/config/config.go\<close>: the \<open>.env\<close> file, the environment variables with their
  defaults, and the validation. The process environment is a map; \<open>Load\<close> threads it,
  because reading the \<open>.env\<close> file writes to it.
\<close>

section \<open>The environment\<close>

type_synonym env = "string \<rightharpoonup> string"

text \<open>\<open>os.LookupEnv\<close>, \<open>os.Getenv\<close> and \<open>os.Setenv\<close> (an invalid key or value is an error).\<close>

definition LookupEnv :: "env \<Rightarrow> string \<Rightarrow> string option" where
  "LookupEnv e key = (if key = [] then None else e key)"

definition Getenv :: "env \<Rightarrow> string \<Rightarrow> string" where
  "Getenv e key = (case LookupEnv e key of None \<Rightarrow> [] | Some v \<Rightarrow> v)"

definition settable :: "string \<Rightarrow> string \<Rightarrow> bool" where
  "settable key val \<longleftrightarrow> key \<noteq> [] \<and> CHR ''='' \<notin> set key \<and> CHR 0x00 \<notin> set key \<and> CHR 0x00 \<notin> set val"

definition Setenv :: "string \<Rightarrow> string \<Rightarrow> env \<Rightarrow> env option" where
  "Setenv key val e = (if settable key val then Some (e(key \<mapsto> val)) else None)"

section \<open>The \<open>.env\<close> file\<close>

text \<open>
  \<open>bufio.Scanner\<close> with \<open>ScanLines\<close>: lines end at a newline, one trailing carriage
  return is dropped, a final empty line is no line, and the scan stops with an
  error at the first line of 64 KiB or more.
\<close>

definition raw_lines :: "string \<Rightarrow> string list" where
  "raw_lines s = (let ps = split_on LF s in if last ps = [] then butlast ps else ps)"

definition drop_cr :: "string \<Rightarrow> string" where
  "drop_cr l = (if l \<noteq> [] \<and> last l = CR then butlast l else l)"

definition MaxScanTokenSize :: nat where
  "MaxScanTokenSize = 65536"

definition scanner_lines :: "string \<Rightarrow> string list" where
  "scanner_lines s = map drop_cr (takeWhile (\<lambda>l. length l < MaxScanTokenSize) (raw_lines s))"

definition scanner_too_long :: "string \<Rightarrow> bool" where
  "scanner_too_long s \<longleftrightarrow> list_ex (\<lambda>l. MaxScanTokenSize \<le> length l) (raw_lines s)"

definition unquote :: "string \<Rightarrow> string" where
  "unquote val =
     (if 2 \<le> length val \<and>
         (hd val = CHR 0x22 \<and> last val = CHR 0x22 \<or> hd val = CHR 0x27 \<and> last val = CHR 0x27)
      then butlast (tl val) else val)"

text \<open>The key and value of a line, when it has the form of an assignment.\<close>

definition parse_line :: "string \<Rightarrow> (string \<times> string) option" where
  "parse_line text =
     (let line = TrimSpace text in
      if line = [] \<or> hd line = CHR ''#'' then None
      else if CHR ''='' \<notin> set line then None
      else Some (TrimSpace (takeWhile (\<lambda>c. c \<noteq> CHR ''='') line),
                 unquote (TrimSpace (tl (dropWhile (\<lambda>c. c \<noteq> CHR ''='') line)))))"

definition load_line :: "string \<Rightarrow> env \<Rightarrow> env" where
  "load_line text e =
     (case parse_line text of
        None \<Rightarrow> e
      | Some (key, val) \<Rightarrow>
          (case LookupEnv e key of
             Some _ \<Rightarrow> e
           | None \<Rightarrow> (case Setenv key val e of None \<Rightarrow> e | Some e' \<Rightarrow> e')))"

datatype dotenv_file = NoFile | File string

datatype dotenv_err = OpenFailed | TooLong

definition loadDotEnv :: "dotenv_file \<Rightarrow> env \<Rightarrow> env \<times> dotenv_err option" where
  "loadDotEnv f e =
     (case f of
        NoFile \<Rightarrow> (e, Some OpenFailed)
      | File s \<Rightarrow> (fold load_line (scanner_lines s) e,
                   if scanner_too_long s then Some TooLong else None))"

section \<open>The configuration\<close>

record config =
  Port :: i64
  DatabaseURL :: string
  MaxWorkers :: i64
  CheckInterval :: duration
  CheckTimeout :: duration
  DomainRPS :: i64

definition defaultPort :: i64 where "defaultPort = 8080"
definition defaultMaxWorkers :: i64 where "defaultMaxWorkers = 64"
definition defaultCheckInterval :: duration where "defaultCheckInterval = 30 * Second"
definition defaultCheckTimeout :: duration where "defaultCheckTimeout = 10 * Second"
definition defaultDomainRPS :: i64 where "defaultDomainRPS = 5"

lemmas default_defs = defaultPort_def defaultMaxWorkers_def defaultCheckInterval_def
  defaultCheckTimeout_def defaultDomainRPS_def

datatype config_err =
    DatabaseURLRequired
  | PortRange i64
  | MaxWorkersMin i64
  | CheckIntervalPositive duration
  | CheckTimeoutPositive duration
  | DomainRPSMin i64
  | NotInteger string string
  | NotSeconds string string

definition validate :: "config \<Rightarrow> config_err option" where
  "validate c =
     (if DatabaseURL c = [] then Some DatabaseURLRequired
      else if i64_lt (Port c) 1 \<or> i64_lt 65535 (Port c) then Some (PortRange (Port c))
      else if i64_lt (MaxWorkers c) 1 then Some (MaxWorkersMin (MaxWorkers c))
      else if i64_le (CheckInterval c) 0 then Some (CheckIntervalPositive (CheckInterval c))
      else if i64_le (CheckTimeout c) 0 then Some (CheckTimeoutPositive (CheckTimeout c))
      else if i64_lt (DomainRPS c) 1 then Some (DomainRPSMin (DomainRPS c))
      else None)"

definition intEnv :: "env \<Rightarrow> string \<Rightarrow> i64 \<Rightarrow> config_err + i64" where
  "intEnv e key dflt =
     (case LookupEnv e key of
        None \<Rightarrow> Inr dflt
      | Some raw \<Rightarrow>
          (if raw = [] then Inr dflt
           else (case Atoi raw of Inl _ \<Rightarrow> Inl (NotInteger key raw) | Inr v \<Rightarrow> Inr v)))"

definition secondsEnv :: "env \<Rightarrow> string \<Rightarrow> duration \<Rightarrow> config_err + duration" where
  "secondsEnv e key dflt =
     (case LookupEnv e key of
        None \<Rightarrow> Inr dflt
      | Some raw \<Rightarrow>
          (if raw = [] then Inr dflt
           else (case Atoi raw of Inl _ \<Rightarrow> Inl (NotSeconds key raw) | Inr v \<Rightarrow> Inr (v * Second))))"

text \<open>\<open>Load\<close> after the attempt to read \<open>.env\<close>: the variables in the code's order.\<close>

definition load_env :: "env \<Rightarrow> config_err + config" where
  "load_env e =
     (case intEnv e ''PORT'' defaultPort of
        Inl err \<Rightarrow> Inl err
      | Inr port \<Rightarrow>
     (case intEnv e ''MAX_WORKERS'' defaultMaxWorkers of
        Inl err \<Rightarrow> Inl err
      | Inr maxWorkers \<Rightarrow>
     (case secondsEnv e ''CHECK_INTERVAL_SECONDS'' defaultCheckInterval of
        Inl err \<Rightarrow> Inl err
      | Inr interval \<Rightarrow>
     (case secondsEnv e ''CHECK_TIMEOUT_SECONDS'' defaultCheckTimeout of
        Inl err \<Rightarrow> Inl err
      | Inr timeout \<Rightarrow>
     (case intEnv e ''DOMAIN_RPS'' defaultDomainRPS of
        Inl err \<Rightarrow> Inl err
      | Inr domainRPS \<Rightarrow>
        (let cfg = \<lparr>Port = port, DatabaseURL = Getenv e ''DATABASE_URL'', MaxWorkers = maxWorkers,
                    CheckInterval = interval, CheckTimeout = timeout, DomainRPS = domainRPS\<rparr>
         in case validate cfg of Some err \<Rightarrow> Inl err | None \<Rightarrow> Inr cfg))))))"

text \<open>The error of \<open>loadDotEnv\<close> is ignored; the environment it leaves is returned too.\<close>

definition Load :: "dotenv_file \<Rightarrow> env \<Rightarrow> (config_err + config) \<times> env" where
  "Load f e0 = (let e = fst (loadDotEnv f e0) in (load_env e, e))"

section \<open>What the file can change\<close>

lemma Setenv_Some: "Setenv key val e = Some e' \<longleftrightarrow> settable key val \<and> e' = e(key \<mapsto> val)"
  by (auto simp: Setenv_def)

text \<open>The assignment a line makes to a key, if the environment will take it.\<close>

definition assigns :: "string \<Rightarrow> string \<Rightarrow> string option" where
  "assigns key text =
     (case parse_line text of
        Some (k, v) \<Rightarrow> (if k = key \<and> settable k v then Some v else None)
      | None \<Rightarrow> None)"

lemma load_line_at:
  "load_line text e key = (case e key of Some v \<Rightarrow> Some v | None \<Rightarrow> assigns key text)"
  by (auto simp: load_line_def assigns_def LookupEnv_def Setenv_def settable_def
      split: option.splits prod.splits)

fun first_assignment :: "string \<Rightarrow> string list \<Rightarrow> string option" where
  "first_assignment key [] = None"
| "first_assignment key (text # texts) =
     (case assigns key text of Some v \<Rightarrow> Some v | None \<Rightarrow> first_assignment key texts)"

lemma fold_load_line:
  "fold load_line texts e key =
     (case e key of Some v \<Rightarrow> Some v | None \<Rightarrow> first_assignment key texts)"
  by (induction texts arbitrary: e) (auto simp: load_line_at split: option.splits)

text \<open>
  C26. The \<open>.env\<close> file fills gaps. A variable that is set in the environment, even
  to the empty string, keeps its value; one that is not set takes the value of the
  first line of the file that assigns it; a missing file changes nothing.
\<close>

theorem loadDotEnv_fills_gaps:
  "fst (loadDotEnv f e) key =
     (case e key of
        Some v \<Rightarrow> Some v
      | None \<Rightarrow> (case f of NoFile \<Rightarrow> None | File s \<Rightarrow> first_assignment key (scanner_lines s)))"
  by (cases f) (auto simp: loadDotEnv_def fold_load_line split: option.splits)

section \<open>Accepted configurations\<close>

lemma validate_None_iff:
  "validate c = None \<longleftrightarrow>
     DatabaseURL c \<noteq> [] \<and> 1 \<le> sint (Port c) \<and> sint (Port c) \<le> 65535 \<and> 1 \<le> sint (MaxWorkers c) \<and>
     0 < sint (CheckInterval c) \<and> 0 < sint (CheckTimeout c) \<and> 1 \<le> sint (DomainRPS c)"
  by (auto simp: validate_def)

lemma Load_Inr_iff:
  "fst (Load f e0) = Inr cfg \<longleftrightarrow>
     (let e = fst (loadDotEnv f e0) in
      intEnv e ''PORT'' defaultPort = Inr (Port cfg) \<and>
      DatabaseURL cfg = Getenv e ''DATABASE_URL'' \<and>
      intEnv e ''MAX_WORKERS'' defaultMaxWorkers = Inr (MaxWorkers cfg) \<and>
      secondsEnv e ''CHECK_INTERVAL_SECONDS'' defaultCheckInterval = Inr (CheckInterval cfg) \<and>
      secondsEnv e ''CHECK_TIMEOUT_SECONDS'' defaultCheckTimeout = Inr (CheckTimeout cfg) \<and>
      intEnv e ''DOMAIN_RPS'' defaultDomainRPS = Inr (DomainRPS cfg) \<and> validate cfg = None)"
  by (cases cfg) (auto simp: Load_def load_env_def Let_def split: sum.split option.split)

text \<open>
  What \<open>Load\<close> accepts. It returns a configuration exactly when every number
  parses, and then each field is the value of its variable (its default when the
  variable is unset or empty), the database URL is not empty, the port lies
  between 1 and 65535, workers and requests per second are at least one, and both
  durations are positive.
\<close>

theorem Load_accepts_iff:
  "fst (Load f e0) = Inr cfg \<longleftrightarrow>
     (\<exists>e. e = fst (loadDotEnv f e0) \<and>
      intEnv e ''PORT'' 8080 = Inr (Port cfg) \<and> 1 \<le> sint (Port cfg) \<and> sint (Port cfg) \<le> 65535 \<and>
      DatabaseURL cfg = Getenv e ''DATABASE_URL'' \<and> DatabaseURL cfg \<noteq> [] \<and>
      intEnv e ''MAX_WORKERS'' 64 = Inr (MaxWorkers cfg) \<and> 1 \<le> sint (MaxWorkers cfg) \<and>
      secondsEnv e ''CHECK_INTERVAL_SECONDS'' 30000000000 = Inr (CheckInterval cfg) \<and>
      0 < sint (CheckInterval cfg) \<and>
      secondsEnv e ''CHECK_TIMEOUT_SECONDS'' 10000000000 = Inr (CheckTimeout cfg) \<and>
      0 < sint (CheckTimeout cfg) \<and>
      intEnv e ''DOMAIN_RPS'' 5 = Inr (DomainRPS cfg) \<and> 1 \<le> sint (DomainRPS cfg))"
  unfolding Load_Inr_iff validate_None_iff Let_def default_defs Second_def by auto

text \<open>
  Defaults. With no \<open>.env\<close> file and nothing but a database URL in the
  environment, \<open>Load\<close> succeeds with the documented defaults and leaves the
  environment unchanged.
\<close>

theorem Load_defaults:
  assumes "url \<noteq> []"
  shows "Load NoFile [''DATABASE_URL'' \<mapsto> url] =
     (Inr \<lparr>Port = 8080, DatabaseURL = url, MaxWorkers = 64, CheckInterval = 30 * Second,
           CheckTimeout = 10 * Second, DomainRPS = 5\<rparr>, [''DATABASE_URL'' \<mapsto> url])"
  using assms
  by (simp add: Load_def load_env_def loadDotEnv_def intEnv_def secondsEnv_def LookupEnv_def Getenv_def
      validate_def default_defs Second_def Let_def)

theorem Load_defaults_witness:
  "fst (Load NoFile [''DATABASE_URL'' \<mapsto> ''postgres://x'']) =
     Inr \<lparr>Port = 8080, DatabaseURL = ''postgres://x'', MaxWorkers = 64, CheckInterval = 30 * Second,
           CheckTimeout = 10 * Second, DomainRPS = 5\<rparr>"
  using Load_defaults [of "''postgres://x''"] by simp

section \<open>Durations given in seconds\<close>

lemma secondsEnv_set:
  assumes "e key = Some raw" and "key \<noteq> []" and "raw \<noteq> []" and "Atoi raw = Inr v"
  shows "secondsEnv e key dflt = Inr (v * Second)"
  using assms by (simp add: secondsEnv_def LookupEnv_def)

lemma seconds_exact:
  assumes "- 9223372036 \<le> sint v" and "sint v \<le> 9223372036"
  shows "sint (v * Second) = sint v * 1000000000"
proof -
  have "sint (v * Second) = sint (word_of_int (sint v * 1000000000) :: i64)"
    by (simp add: Second_def)
  also have "sint (word_of_int (sint v * 1000000000) :: i64) = sint v * 1000000000"
    using assms by (intro sint_i64_of_int) simp_all
  finally show ?thesis .
qed

text \<open>
  Seconds become nanoseconds. When a duration variable holds an integer of at
  most 9223372036 seconds, the loaded duration is exactly that many seconds. Above
  that bound the multiplication wraps: an interval of 18446744074 seconds (585
  years) is accepted as an interval of 290448384 nanoseconds.
\<close>

theorem secondsEnv_exact:
  assumes "e key = Some raw" and "key \<noteq> []" and "raw \<noteq> []" and "Atoi raw = Inr v"
    and "- 9223372036 \<le> sint v" and "sint v \<le> 9223372036"
  shows "\<exists>d. secondsEnv e key dflt = Inr d \<and> sint d = sint v * 1000000000"
  using secondsEnv_set [of e key raw v dflt] seconds_exact [OF assms(5,6)] assms(1-4) by simp

theorem secondsEnv_exact_witness:
  "\<exists>d. secondsEnv [''CHECK_TIMEOUT_SECONDS'' \<mapsto> ''2''] ''CHECK_TIMEOUT_SECONDS'' 7 = Inr d \<and>
     sint d = 2000000000"
proof -
  have "Atoi ''2'' = Inr 2"
    by (simp add: Atoi_def ParseInt_def ParseUint_def is_digit_def digit_value_def)
  then show ?thesis
    using secondsEnv_exact [of "[''CHECK_TIMEOUT_SECONDS'' \<mapsto> ''2'']" "''CHECK_TIMEOUT_SECONDS''"
        "''2''" 2 7] by simp
qed

lemma Atoi_wrapping_seconds: "Atoi ''18446744074'' = Inr 18446744074"
  by (simp add: Atoi_def ParseInt_def ParseUint_def is_digit_def digit_value_def)

text \<open>
  Beyond the bound the multiplication wraps and nothing notices. An interval of
  18446744074 seconds (585 years) is accepted by \<open>Load\<close> as an interval of 290448384
  nanoseconds, so that every target would be checked more than three times a second.
\<close>

theorem Load_accepts_wrapped_interval:
  "\<exists>cfg. fst (Load NoFile [''DATABASE_URL'' \<mapsto> ''postgres://x'',
       ''CHECK_INTERVAL_SECONDS'' \<mapsto> ''18446744074'']) = Inr cfg \<and>
     sint (CheckInterval cfg) = 290448384"
proof -
  let ?e = "[''DATABASE_URL'' \<mapsto> ''postgres://x'', ''CHECK_INTERVAL_SECONDS'' \<mapsto> ''18446744074'']"
  have d: "(18446744074 :: i64) * Second = 290448384" by (simp add: Second_def)
  have "secondsEnv ?e ''CHECK_INTERVAL_SECONDS'' defaultCheckInterval = Inr 290448384"
    using secondsEnv_set [of ?e "''CHECK_INTERVAL_SECONDS''" "''18446744074''"] Atoi_wrapping_seconds d
    by simp
  then show ?thesis
    by (simp add: Load_def load_env_def loadDotEnv_def Let_def intEnv_def LookupEnv_def Getenv_def
        validate_def default_defs secondsEnv_def [of _ "''CHECK_TIMEOUT_SECONDS''"] Second_def)
qed

end
