(* ===== verification/Sse_Frame.thy ===== *)
theory Sse_Frame
  imports Go_Strings
begin

text \<open>
  The wire format of \<open>internal/sse/hub.go\<close>: \<open>Event.Frame\<close>, a reference reader of an
  event stream written from the rules of the EventSource interface, and the round
  trip between the two.
\<close>

section \<open>Frames\<close>

record event =
  Name :: string
  Data :: string

definition data_line :: "string \<Rightarrow> string" where
  "data_line line = ''data: '' @ line @ [LF]"

definition Frame :: "event \<Rightarrow> string" where
  "Frame e = ''event: '' @ Name e @ [LF] @ concat (map data_line (split_on LF (Data e))) @ [LF]"

section \<open>A reader of event streams\<close>

text \<open>
  Lines end at a carriage return, a newline or the pair of them; what follows the
  last line end is not a line.
\<close>

fun stream_lines :: "string \<Rightarrow> string \<Rightarrow> string list" where
  "stream_lines cur [] = []"
| "stream_lines cur (c # s) =
     (if c = LF then rev cur # stream_lines [] s
      else if c = CR then
        (case s of d # s' \<Rightarrow> (if d = LF then rev cur # stream_lines [] s'
                              else rev cur # stream_lines [] s)
                 | [] \<Rightarrow> [rev cur])
      else stream_lines (c # cur) s)"

text \<open>A line is a comment, or a field with a value that loses one leading space.\<close>

definition field_of :: "string \<Rightarrow> string \<times> string" where
  "field_of l =
     (if CHR '':'' \<in> set l
      then (takeWhile (\<lambda>c. c \<noteq> CHR '':'') l,
            (let v = tl (dropWhile (\<lambda>c. c \<noteq> CHR '':'') l) in
             if v \<noteq> [] \<and> hd v = CHR '' '' then tl v else v))
      else (l, []))"

record reader =
  rd_type :: string
  rd_data :: string

definition fresh_reader :: reader where
  "fresh_reader = \<lparr>rd_type = [], rd_data = []\<rparr>"

fun read_lines :: "reader \<Rightarrow> string list \<Rightarrow> (string \<times> string) list" where
  "read_lines r [] = []"
| "read_lines r (l # ls) =
     (if l = [] then
        (if rd_data r = [] then read_lines fresh_reader ls
         else (if rd_type r = [] then ''message'' else rd_type r, butlast (rd_data r))
                # read_lines fresh_reader ls)
      else if hd l = CHR '':'' then read_lines r ls
      else (case field_of l of (f, v) \<Rightarrow>
        read_lines
          (if f = ''event'' then r\<lparr>rd_type := v\<rparr>
           else if f = ''data'' then r\<lparr>rd_data := rd_data r @ v @ [LF]\<rparr>
           else r) ls))"

definition read_stream :: "string \<Rightarrow> (string \<times> string) list" where
  "read_stream s = read_lines fresh_reader (stream_lines [] s)"

section \<open>The round trip\<close>

text \<open>Payloads the format can carry: no carriage return, and a one-line name.\<close>

definition sendable :: "event \<Rightarrow> bool" where
  "sendable e \<longleftrightarrow> Name e \<noteq> [] \<and> LF \<notin> set (Name e) \<and> CR \<notin> set (Name e) \<and> CR \<notin> set (Data e)"

lemma stream_lines_line:
  "LF \<notin> set l \<Longrightarrow> CR \<notin> set l \<Longrightarrow> stream_lines cur (l @ LF # s) = (rev cur @ l) # stream_lines [] s"
  by (induction l arbitrary: cur) auto

lemma stream_lines_prefixed:
  assumes "LF \<notin> set p" "CR \<notin> set p" "LF \<notin> set l" "CR \<notin> set l"
  shows "stream_lines [] (p @ l @ LF # s) = (p @ l) # stream_lines [] s"
  using stream_lines_line [of "p @ l" "[]" s] assms by simp

declare stream_lines.simps(2) [simp del]

lemma stream_lines_data:
  "(\<And>l. l \<in> set ls \<Longrightarrow> LF \<notin> set l \<and> CR \<notin> set l) \<Longrightarrow>
     stream_lines [] (concat (map data_line ls) @ s) = map (\<lambda>l. ''data: '' @ l) ls @ stream_lines [] s"
proof (induction ls)
  case (Cons l ls)
  have line: "stream_lines [] (''data: '' @ l @ LF # t) = (''data: '' @ l) # stream_lines [] t" for t
    using Cons.prems [of l] by (intro stream_lines_prefixed) auto
  have "concat (map data_line (l # ls)) @ s = ''data: '' @ l @ LF # (concat (map data_line ls) @ s)"
    by (simp add: data_line_def)
  then have "stream_lines [] (concat (map data_line (l # ls)) @ s) =
      (''data: '' @ l) # stream_lines [] (concat (map data_line ls) @ s)"
    by (simp only: line)
  with Cons show ?case by simp
qed simp

lemma stream_lines_frame:
  assumes "sendable e"
  shows "stream_lines [] (Frame e @ s) =
     (''event: '' @ Name e) # map (\<lambda>l. ''data: '' @ l) (split_on LF (Data e)) @ [] # stream_lines [] s"
proof -
  have "LF \<notin> set l \<and> CR \<notin> set l" if "l \<in> set (split_on LF (Data e))" for l
    using that assms split_on_pieces set_split_on by (fastforce simp: sendable_def)
  note data = stream_lines_data [OF this, of "split_on LF (Data e)" "LF # s"]
  have line: "stream_lines [] (''event: '' @ Name e @ LF # t) = (''event: '' @ Name e) # stream_lines [] t" for t
    using assms by (intro stream_lines_prefixed) (auto simp: sendable_def)
  have "Frame e @ s = ''event: '' @ Name e @ LF # (concat (map data_line (split_on LF (Data e))) @ LF # s)"
    by (simp add: Frame_def)
  then have "stream_lines [] (Frame e @ s) =
      (''event: '' @ Name e) # stream_lines [] (concat (map data_line (split_on LF (Data e))) @ LF # s)"
    by (simp only: line)
  also have "\<dots> = (''event: '' @ Name e) # map (\<lambda>l. ''data: '' @ l) (split_on LF (Data e)) @ [] # stream_lines [] s"
    by (simp only: data) (simp add: stream_lines.simps(2))
  finally show ?thesis .
qed

lemma field_of_event [simp]: "field_of (''event: '' @ v) = (''event'', v)"
  by (simp add: field_of_def)

lemma field_of_data [simp]: "field_of (''data: '' @ v) = (''data'', v)"
  by (simp add: field_of_def)

lemma read_event_line:
  "read_lines r ((''event: '' @ v) # ls) = read_lines (r\<lparr>rd_type := v\<rparr>) ls"
  by (simp add: field_of_event [simplified])

lemma read_data_line:
  "read_lines r ((''data: '' @ v) # ls) = read_lines (r\<lparr>rd_data := rd_data r @ v @ [LF]\<rparr>) ls"
  by (simp add: field_of_data [simplified])

declare read_lines.simps(2) [simp del]

lemma read_data_lines:
  "read_lines r (map (\<lambda>l. ''data: '' @ l) ls @ rest) =
     read_lines (r\<lparr>rd_data := rd_data r @ concat (map (\<lambda>l. l @ [LF]) ls)\<rparr>) rest"
proof (induction ls arbitrary: r)
  case (Cons l ls)
  have "read_lines r (map (\<lambda>l. ''data: '' @ l) (l # ls) @ rest) =
      read_lines r ((''data: '' @ l) # map (\<lambda>l. ''data: '' @ l) ls @ rest)" by simp
  also note read_data_line
  also note Cons.IH
  finally show ?case by simp
qed simp

lemma concat_lines: "ls \<noteq> [] \<Longrightarrow> concat (map (\<lambda>l. l @ [c]) ls) = join_with c ls @ [c]"
proof (induction ls)
  case (Cons a ls)
  then show ?case by (cases ls) simp_all
qed simp

lemma read_frame:
  assumes "sendable e"
  shows "read_lines fresh_reader (stream_lines [] (Frame e @ s)) =
     (Name e, Data e) # read_lines fresh_reader (stream_lines [] s)"
proof -
  have "concat (map (\<lambda>l. l @ [LF]) (split_on LF (Data e))) = Data e @ [LF]"
    by (simp add: concat_lines join_split)
  then have body: "read_lines r (map (\<lambda>l. ''data: '' @ l) (split_on LF (Data e)) @ rest) =
      read_lines (r\<lparr>rd_data := rd_data r @ Data e @ [LF]\<rparr>) rest" for r rest
    by (simp only: read_data_lines)
  show ?thesis
    unfolding stream_lines_frame [OF assms] read_event_line body
    using assms by (simp add: read_lines.simps(2) fresh_reader_def sendable_def)
qed

text \<open>
  A stream as \<open>HandleEvents\<close> writes it: frames interleaved with heartbeat comments.
\<close>

datatype chunk = FrameChunk event | PingChunk

definition ping :: string where
  "ping = '': ping'' @ [LF, LF]"

fun chunk_bytes :: "chunk \<Rightarrow> string" where
  "chunk_bytes (FrameChunk e) = Frame e"
| "chunk_bytes PingChunk = ping"

definition chunk_events :: "chunk list \<Rightarrow> event list" where
  "chunk_events cs = concat (map (\<lambda>c. case c of FrameChunk e \<Rightarrow> [e] | PingChunk \<Rightarrow> []) cs)"

lemma chunk_events_simps [simp]:
  "chunk_events [] = []" "chunk_events (FrameChunk e # cs) = e # chunk_events cs"
  "chunk_events (PingChunk # cs) = chunk_events cs"
  "chunk_events (cs @ ds) = chunk_events cs @ chunk_events ds"
  by (simp_all add: chunk_events_def)

lemma read_ping: "read_lines fresh_reader (stream_lines [] (ping @ s)) = read_lines fresh_reader (stream_lines [] s)"
  by (simp add: ping_def read_lines.simps(2) stream_lines.simps(2) fresh_reader_def)

lemma frame_stream_reads:
  "\<forall>e \<in> set (chunk_events cs). sendable e \<Longrightarrow>
     read_stream (concat (map chunk_bytes cs)) = map (\<lambda>e. (Name e, Data e)) (chunk_events cs)"
proof (induction cs)
  case Nil
  then show ?case by (simp add: read_stream_def)
next
  case (Cons c cs)
  then show ?case by (cases c) (simp_all add: read_stream_def read_frame read_ping)
qed

text \<open>
  C16. The browser reassembles what was sent. Any stream of frames, with heartbeat
  comments between them, is read back as exactly the sequence of events that were
  framed, name and payload, for payloads of any number of lines (empty ones
  included) that hold no carriage return.
\<close>

theorem frame_stream_roundtrip:
  assumes "\<forall>e \<in> set (chunk_events cs). sendable e"
  shows "read_stream (concat (map chunk_bytes cs)) = map (\<lambda>e. (Name e, Data e)) (chunk_events cs)"
  using assms by (rule frame_stream_reads)

theorem frame_stream_roundtrip_witness:
  "read_stream (Frame \<lparr>Name = ''check'', Data = ''hello'' @ LF # ''world''\<rparr> @ ping @
     Frame \<lparr>Name = ''stats'', Data = []\<rparr>) = [(''check'', ''hello'' @ LF # ''world''), (''stats'', [])]"
  using frame_stream_roundtrip [of "[FrameChunk \<lparr>Name = ''check'', Data = ''hello'' @ LF # ''world''\<rparr>,
     PingChunk, FrameChunk \<lparr>Name = ''stats'', Data = []\<rparr>]"]
  by (simp add: sendable_def)

text \<open>
  A carriage return breaks the reassembly. \<open>Frame\<close> splits the payload at
  newlines only, while a browser also ends a line at a carriage return: what stands
  between the carriage return and the next newline of the payload is taken for an
  unknown field and lost.
\<close>

theorem frame_loses_after_carriage_return:
  "read_stream (Frame \<lparr>Name = ''check'', Data = ''up'' @ CR # ''down''\<rparr>) = [(''check'', ''up'')]"
  by (simp add: Frame_def data_line_def read_stream_def fresh_reader_def read_lines.simps(2)
      stream_lines.simps(2)
      field_of_def Let_def)

end
