(* ===== verification/Sse_Hub.thy ===== *)
theory Sse_Hub
  imports Sse_Frame Go_Runtime
begin

text \<open>
  The broadcast hub of \<open>internal/sse/hub.go\<close>. A channel is a reference into a heap
  of channels, because the hub and the tab that owns a channel share it. Each
  operation of the hub runs under \<open>h.mu\<close>, so it is one atomic function. A Go map is
  iterated in an unspecified order: \<open>Publish\<close> takes the order as an argument, any
  enumeration of the clients.
\<close>

section \<open>State\<close>

type_synonym chan_ref = nat
type_synonym chan_heap = "chan_ref \<rightharpoonup> string chan"

record hub =
  clients :: "chan_ref set"

definition New_hub :: hub where
  "New_hub = \<lparr>clients = {}\<rparr>"

definition Subscribe :: "chan_ref \<Rightarrow> hub \<Rightarrow> hub" where
  "Subscribe ch h = h\<lparr>clients := insert ch (clients h)\<rparr>"

definition Unsubscribe :: "chan_ref \<Rightarrow> hub \<Rightarrow> hub" where
  "Unsubscribe ch h = h\<lparr>clients := clients h - {ch}\<rparr>"

section \<open>Publish\<close>

text \<open>The \<open>select\<close> of the loop body; a send on a nil channel is never ready.\<close>

definition send_to :: "string \<Rightarrow> chan_ref \<Rightarrow> chan_heap \<Rightarrow> go_panic + chan_heap" where
  "send_to frame ch heap =
     (case heap ch of
        None \<Rightarrow> Inr heap
      | Some c \<Rightarrow> (case try_send frame c of
          Inl p \<Rightarrow> Inl p
        | Inr c' \<Rightarrow> Inr (heap(ch \<mapsto> c'))))"

fun send_all :: "string \<Rightarrow> chan_ref list \<Rightarrow> chan_heap \<Rightarrow> go_panic + chan_heap" where
  "send_all frame [] heap = Inr heap"
| "send_all frame (ch # chs) heap =
     (case send_to frame ch heap of
        Inl p \<Rightarrow> Inl p
      | Inr heap' \<Rightarrow> send_all frame chs heap')"

definition Publish :: "chan_ref list \<Rightarrow> event \<Rightarrow> chan_heap \<Rightarrow> go_panic + chan_heap" where
  "Publish order ev heap = send_all (Frame ev) order heap"

definition enumerates :: "chan_ref list \<Rightarrow> hub \<Rightarrow> bool" where
  "enumerates order h \<longleftrightarrow> distinct order \<and> set order = clients h"

text \<open>The clients whose channel has been closed under the hub.\<close>

definition closed_clients :: "hub \<Rightarrow> chan_heap \<Rightarrow> chan_ref set" where
  "closed_clients h heap = {ch \<in> clients h. \<exists>c. heap ch = Some c \<and> ch_closed c}"

section \<open>What a publish does to the heap\<close>

definition offer_all :: "string \<Rightarrow> chan_ref set \<Rightarrow> chan_heap \<Rightarrow> chan_heap" where
  "offer_all frame C heap = (\<lambda>ch. if ch \<in> C then map_option (send_or_drop frame) (heap ch) else heap ch)"

lemma offer_all_apply:
  "offer_all frame C heap ch = (if ch \<in> C then map_option (send_or_drop frame) (heap ch) else heap ch)"
  by (simp add: offer_all_def)

lemma send_to_open:
  assumes "\<And>c. heap ch = Some c \<Longrightarrow> \<not> ch_closed c"
  shows "send_to frame ch heap = Inr (offer_all frame {ch} heap)"
proof (cases "heap ch")
  case None
  then have "offer_all frame {ch} heap = heap" by (auto simp: offer_all_def)
  with None show ?thesis by (simp add: send_to_def)
next
  case (Some c)
  then have "try_send frame c = Inr (send_or_drop frame c)"
    using assms by (auto simp: send_or_drop_def try_send_def)
  with Some show ?thesis by (auto simp: send_to_def offer_all_def)
qed

lemma send_to_closed: "heap ch = Some c \<Longrightarrow> ch_closed c \<Longrightarrow> send_to frame ch heap = Inl SendOnClosed"
  by (simp add: send_to_def try_send_def)

lemma send_or_drop_closed [simp]: "ch_closed (send_or_drop x c) = ch_closed c"
  by (auto simp: send_or_drop_def try_send_def)

lemma send_or_drop_cap [simp]: "ch_cap (send_or_drop x c) = ch_cap c"
  by (auto simp: send_or_drop_def try_send_def)

lemma send_or_drop_buf:
  "\<not> ch_closed c \<Longrightarrow> ch_buf (send_or_drop x c) =
     (if length (ch_buf c) < ch_cap c then ch_buf c @ [x] else ch_buf c)"
  by (simp add: send_or_drop_def try_send_def)

lemma send_all_open:
  "distinct order \<Longrightarrow> (\<And>ch c. ch \<in> set order \<Longrightarrow> heap ch = Some c \<Longrightarrow> \<not> ch_closed c) \<Longrightarrow>
     send_all frame order heap = Inr (offer_all frame (set order) heap)"
proof (induction order arbitrary: heap)
  case Nil
  then show ?case by (simp add: offer_all_def)
next
  case (Cons ch chs)
  have "send_to frame ch heap = Inr (offer_all frame {ch} heap)"
    using Cons.prems(2) by (intro send_to_open) auto
  moreover have "send_all frame chs (offer_all frame {ch} heap) =
      Inr (offer_all frame (set chs) (offer_all frame {ch} heap))"
    using Cons.prems by (intro Cons.IH) (auto simp: offer_all_apply split: if_splits)
  moreover have "offer_all frame (set chs) (offer_all frame {ch} heap) = offer_all frame (set (ch # chs)) heap"
    using Cons.prems(1) by (auto simp: offer_all_def)
  ultimately show ?case by simp
qed

lemma send_all_closed:
  "ch \<in> set order \<Longrightarrow> heap ch = Some c \<Longrightarrow> ch_closed c \<Longrightarrow> send_all frame order heap = Inl SendOnClosed"
proof (induction order arbitrary: heap c)
  case Nil
  then show ?case by simp
next
  case (Cons d chs)
  consider (here) "\<exists>e. heap d = Some e \<and> ch_closed e" | (there) "\<And>e. heap d = Some e \<Longrightarrow> \<not> ch_closed e"
    by blast
  then show ?case
  proof cases
    case here
    then show ?thesis by (auto simp: send_to_closed)
  next
    case there
    with Cons.prems have "ch \<in> set chs" by auto
    moreover have "offer_all frame {d} heap ch = Some c"
      using there Cons.prems by (auto simp: offer_all_apply)
    ultimately show ?thesis
      using Cons.IH Cons.prems(3) by (simp add: send_to_open [OF there])
  qed
qed

lemma Publish_open:
  assumes "enumerates order h" and "closed_clients h heap = {}"
  shows "Publish order ev heap = Inr (offer_all (Frame ev) (clients h) heap)"
  using assms send_all_open [of order heap "Frame ev"]
  by (auto simp: Publish_def enumerates_def closed_clients_def)

lemma closed_clients_offer [simp]:
  "closed_clients h (offer_all frame C heap) = closed_clients h heap"
  by (auto simp: closed_clients_def offer_all_apply)

section \<open>Properties\<close>

text \<open>
  A publish reaches everyone and only them. As long as no subscribed channel
  has been closed, \<open>Publish\<close> returns without a panic and without blocking; every
  client with room in its buffer holds the frame at the end of it, a client whose
  buffer is full keeps what it had, no other channel changes, and the order in
  which the map is iterated makes no difference.
\<close>

theorem Publish_fan_out:
  assumes "enumerates order h" and "enumerates order' h" and "closed_clients h heap = {}"
  shows "\<exists>heap'. Publish order ev heap = Inr heap' \<and> Publish order' ev heap = Inr heap' \<and>
     dom heap' = dom heap \<and>
     (\<forall>ch. ch \<notin> clients h \<longrightarrow> heap' ch = heap ch) \<and>
     (\<forall>ch c. ch \<in> clients h \<longrightarrow> heap ch = Some c \<longrightarrow>
        (\<exists>c'. heap' ch = Some c' \<and> \<not> ch_closed c' \<and> ch_cap c' = ch_cap c \<and>
          ch_buf c' = (if length (ch_buf c) < ch_cap c then ch_buf c @ [Frame ev] else ch_buf c)))"
proof (intro exI conjI)
  let ?heap = "offer_all (Frame ev) (clients h) heap"
  show "Publish order ev heap = Inr ?heap" "Publish order' ev heap = Inr ?heap"
    using assms by (simp_all add: Publish_open)
  show "dom ?heap = dom heap" by (auto simp: offer_all_def split: if_splits)
  show "\<forall>ch. ch \<notin> clients h \<longrightarrow> ?heap ch = heap ch" by (simp add: offer_all_apply)
  show "\<forall>ch c. ch \<in> clients h \<longrightarrow> heap ch = Some c \<longrightarrow>
        (\<exists>c'. ?heap ch = Some c' \<and> \<not> ch_closed c' \<and> ch_cap c' = ch_cap c \<and>
          ch_buf c' = (if length (ch_buf c) < ch_cap c then ch_buf c @ [Frame ev] else ch_buf c))"
    using assms(3) by (auto simp: offer_all_apply closed_clients_def send_or_drop_buf)
qed

theorem Publish_fan_out_witness:
  "\<exists>heap'. Publish [1, 2] \<lparr>Name = ''check'', Data = ''up''\<rparr> [1 \<mapsto> make_chan 1, 2 \<mapsto> make_chan 0, 3 \<mapsto> make_chan 1]
       = Inr heap' \<and> heap' 3 = Some (make_chan 1) \<and>
     (\<exists>c. heap' 1 = Some c \<and> ch_buf c = [Frame \<lparr>Name = ''check'', Data = ''up''\<rparr>]) \<and>
     (\<exists>c. heap' 2 = Some c \<and> ch_buf c = [])"
proof -
  have "enumerates [1, 2] \<lparr>clients = {1, 2}\<rparr>" "enumerates [2, 1] \<lparr>clients = {1, 2}\<rparr>"
    "closed_clients \<lparr>clients = {1, 2}\<rparr> [1 \<mapsto> make_chan 1, 2 \<mapsto> make_chan 0, 3 \<mapsto> make_chan 1] = {}"
    by (auto simp: enumerates_def closed_clients_def)
  note fan = Publish_fan_out [OF this, of "\<lparr>Name = ''check'', Data = ''up''\<rparr>"]
  from fan obtain heap' where h: "Publish [1, 2] \<lparr>Name = ''check'', Data = ''up''\<rparr>
       [1 \<mapsto> make_chan 1, 2 \<mapsto> make_chan 0, 3 \<mapsto> make_chan 1] = Inr heap'"
    by (elim exE conjE)
  from fan [unfolded h]
  have out: "\<forall>ch. ch \<notin> {1, 2} \<longrightarrow> heap' ch = [1 \<mapsto> make_chan 1, 2 \<mapsto> make_chan 0, 3 \<mapsto> make_chan 1] ch"
    and into: "\<forall>ch c. ch \<in> {1, 2} \<longrightarrow> [1 \<mapsto> make_chan 1, 2 \<mapsto> make_chan 0, 3 \<mapsto> make_chan 1] ch = Some c \<longrightarrow>
      (\<exists>c'. heap' ch = Some c' \<and> ch_buf c' = (if length (ch_buf c) < ch_cap c
         then ch_buf c @ [Frame \<lparr>Name = ''check'', Data = ''up''\<rparr>] else ch_buf c))"
    by (force, fastforce)
  have "heap' 3 = Some (make_chan 1)" using out by simp
  moreover have "\<exists>c. heap' 1 = Some c \<and> ch_buf c = [Frame \<lparr>Name = ''check'', Data = ''up''\<rparr>]"
    using into [rule_format, of 1 "make_chan 1"] by simp
  moreover have "\<exists>c. heap' 2 = Some c \<and> ch_buf c = []"
    using into [rule_format, of 2 "make_chan 0"] by simp
  ultimately show ?thesis using h by (intro exI [of _ heap']) (simp only: simp_thms)
qed

text \<open>
  The rule for closing a channel is exact. A publish panics, whatever the
  order of the iteration, if and only if a channel that is still subscribed has
  been closed; so a subscriber that calls \<open>Unsubscribe\<close> first can close its channel
  at any later moment, and one that does not brings the publisher down.
\<close>

theorem Publish_panics_iff:
  assumes "enumerates order h"
  shows "Publish order ev heap = Inl p \<longleftrightarrow> p = SendOnClosed \<and> closed_clients h heap \<noteq> {}"
proof (cases "closed_clients h heap = {}")
  case True
  with assms show ?thesis by (simp add: Publish_open)
next
  case False
  then obtain ch c where "ch \<in> set order" "heap ch = Some c" "ch_closed c"
    using assms by (auto simp: closed_clients_def enumerates_def)
  then have "Publish order ev heap = Inl SendOnClosed"
    unfolding Publish_def by (rule send_all_closed)
  with False show ?thesis by auto
qed

theorem Publish_panics_iff_witness:
  "Publish [7] \<lparr>Name = ''stats'', Data = []\<rparr> [7 \<mapsto> (make_chan 32)\<lparr>ch_closed := True\<rparr>] = Inl SendOnClosed \<and>
   closed_clients (Unsubscribe 7 \<lparr>clients = {7}\<rparr>) [7 \<mapsto> (make_chan 32)\<lparr>ch_closed := True\<rparr>] = {}"
proof -
  have "enumerates [7] \<lparr>clients = {7}\<rparr>" by (simp add: enumerates_def)
  note iff = Publish_panics_iff [OF this, of "\<lparr>Name = ''stats'', Data = []\<rparr>"
      "[7 \<mapsto> (make_chan 32)\<lparr>ch_closed := True\<rparr>]" SendOnClosed]
  then show ?thesis by (auto simp: closed_clients_def Unsubscribe_def)
qed

text \<open>A burst of publishes between two changes of the client set.\<close>

fun publish_burst :: "(chan_ref list \<times> event) list \<Rightarrow> chan_heap \<Rightarrow> go_panic + chan_heap" where
  "publish_burst [] heap = Inr heap"
| "publish_burst ((order, ev) # rest) heap =
     (case Publish order ev heap of
        Inl p \<Rightarrow> Inl p
      | Inr heap' \<Rightarrow> publish_burst rest heap')"

lemma publish_burst_open:
  "\<forall>oe \<in> set es. enumerates (fst oe) h \<Longrightarrow> closed_clients h heap = {} \<Longrightarrow>
     \<exists>heap'. publish_burst es heap = Inr heap' \<and>
       (\<forall>ch \<in> clients h. heap' ch = map_option (fold send_or_drop (map (\<lambda>oe. Frame (snd oe)) es)) (heap ch))"
proof (induction es arbitrary: heap)
  case Nil
  then show ?case by (simp add: option.map_ident)
next
  case (Cons oe es)
  obtain order ev where oe: "oe = (order, ev)" by force
  let ?heap = "offer_all (Frame ev) (clients h) heap"
  have pub: "Publish order ev heap = Inr ?heap"
    using Cons.prems oe by (intro Publish_open) auto
  have "\<forall>oe \<in> set es. enumerates (fst oe) h" "closed_clients h ?heap = {}"
    using Cons.prems by simp_all
  from Cons.IH [OF this] obtain heap' where "publish_burst es ?heap = Inr heap'"
    "\<forall>ch \<in> clients h. heap' ch = map_option (fold send_or_drop (map (\<lambda>oe. Frame (snd oe)) es)) (?heap ch)"
    by (elim exE conjE)
  with pub oe show ?case
    by (intro exI [of _ heap']) (simp add: offer_all_apply option.map_comp comp_def)
qed

text \<open>
  What a tab that does not read misses. After any burst of events, a client
  holds what it held before followed by exactly as many of the first frames of the
  burst as its buffer had room for, in publication order; the later frames are
  dropped for this client, and the publisher is never blocked by it.
\<close>

theorem stalled_client_keeps_prefix:
  assumes "\<forall>oe \<in> set es. enumerates (fst oe) h"
    and "closed_clients h heap = {}"
    and "ch \<in> clients h" and "heap ch = Some c" and "chan_ok c"
  shows "\<exists>heap' c'. publish_burst es heap = Inr heap' \<and> heap' ch = Some c' \<and>
     ch_buf c' = ch_buf c @ take (ch_cap c - length (ch_buf c)) (map (\<lambda>oe. Frame (snd oe)) es) \<and> chan_ok c'"
proof -
  have live: "\<not> ch_closed c" using assms(2-4) by (auto simp: closed_clients_def)
  have room: "length (ch_buf c) \<le> ch_cap c" using assms(5) by (simp add: chan_ok_def)
  from publish_burst_open [OF assms(1,2)] assms(3,4) obtain heap' where
    "publish_burst es heap = Inr heap'" "heap' ch = Some (fold send_or_drop (map (\<lambda>oe. Frame (snd oe)) es) c)"
    by auto
  then show ?thesis
    using chan_queue.send_burst [OF live room] chan_queue.burst_bounded [OF live room, of "map (\<lambda>oe. Frame (snd oe)) es"]
    by (auto simp: chan_ok_def)
qed

theorem stalled_client_keeps_prefix_witness:
  "\<exists>heap' c'. publish_burst [([4], \<lparr>Name = ''a'', Data = []\<rparr>), ([4], \<lparr>Name = ''b'', Data = []\<rparr>)]
       [4 \<mapsto> make_chan 1] = Inr heap' \<and> heap' 4 = Some c' \<and> ch_buf c' = [Frame \<lparr>Name = ''a'', Data = []\<rparr>]"
  using stalled_client_keeps_prefix [of "[([4], \<lparr>Name = ''a'', Data = []\<rparr>), ([4], \<lparr>Name = ''b'', Data = []\<rparr>)]"
      "\<lparr>clients = {4}\<rparr>" "[4 \<mapsto> make_chan 1]" 4 "make_chan 1"]
  by (auto simp: enumerates_def closed_clients_def)

end
