(* ===== verification/Sse_Stream.thy ===== *)
theory Sse_Stream
  imports Sse_Hub Go_Http "HOL-Library.Sublist"
begin

text \<open>
  \<open>HandleEvents\<close> of \<open>internal/handlers/handlers.go\<close>: the goroutine that serves one
  open tab, and all the tabs, the hub and the publishers together as a step
  relation. A tab is named by the reference of its channel. The fields
  \<open>tab_chunks\<close>, \<open>tab_wait\<close>, \<open>tab_lost\<close>, \<open>tab_seen\<close> and \<open>tab_missed\<close> are history: no
  operation of the model reads them.
\<close>

section \<open>The handler\<close>

text \<open>Up to the subscription: whether the handler goes on to stream, and the response.\<close>

definition HandleEvents_open :: "bool \<Rightarrow> bool \<Rightarrow> response \<Rightarrow> bool \<times> response" where
  "HandleEvents_open hub_nil is_flusher w =
     (if hub_nil then (False, http_Error ''streaming unavailable'' StatusInternalServerError w)
      else if \<not> is_flusher then (False, http_Error ''streaming unsupported'' StatusInternalServerError w)
      else (True, WriteHeader StatusOK
             (Header_Set ''X-Accel-Buffering'' ''no''
               (Header_Set ''Connection'' ''keep-alive''
                 (Header_Set ''Cache-Control'' ''no-cache''
                   (Header_Set ''Content-Type'' ''text/event-stream'' w))))))"

datatype tab_pc =
    Streaming  \<comment> \<open>at the \<open>select\<close>\<close>
  | Leaving    \<comment> \<open>returned; the deferred \<open>Unsubscribe\<close> has not run yet\<close>
  | Gone

text \<open>
  One turn of the loop through the chosen case. The flag of a write says whether
  it succeeds; the bytes of a failed write are not counted as received.
  \<open>None\<close>: the case is not ready.
\<close>

datatype tab_case = CtxDone | HeartbeatC bool | FrameC bool

definition HandleEvents_select ::
    "bool \<Rightarrow> string chan \<Rightarrow> response \<Rightarrow> tab_case \<Rightarrow> (tab_pc \<times> response \<times> string chan) option" where
  "HandleEvents_select ctx_done c w branch =
     (case branch of
        CtxDone \<Rightarrow> (if ctx_done then Some (Leaving, w, c) else None)
      | HeartbeatC ok \<Rightarrow> (if ok then Some (Streaming, Write ping w, c) else Some (Leaving, w, c))
      | FrameC ok \<Rightarrow> (case recv c of
            None \<Rightarrow> None
          | Some (None, c') \<Rightarrow> Some (Leaving, w, c')
          | Some (Some frame, c') \<Rightarrow>
              (if ok then Some (Streaming, Write frame w, c') else Some (Leaving, w, c'))))"

section \<open>Tabs, hub and publishers\<close>

record tab =
  tab_at :: tab_pc
  tab_w :: response
  tab_ctx_done :: bool
  tab_chunks :: "chunk list"
  tab_wait :: "event list"
  tab_lost :: "event list"
  tab_seen :: "event list"
  tab_missed :: nat

definition new_tab :: "response \<Rightarrow> tab" where
  "new_tab w = \<lparr>tab_at = Streaming, tab_w = w, tab_ctx_done = False, tab_chunks = [], tab_wait = [],
     tab_lost = [], tab_seen = [], tab_missed = 0\<rparr>"

record stream_sys =
  st_hub :: hub
  st_heap :: chan_heap
  st_tabs :: "chan_ref \<rightharpoonup> tab"

definition stream_init :: stream_sys where
  "stream_init = \<lparr>st_hub = New_hub, st_heap = Map.empty, st_tabs = Map.empty\<rparr>"

text \<open>The history a publish and a turn of the loop leave.\<close>

definition note_offer :: "event \<Rightarrow> string chan \<Rightarrow> tab \<Rightarrow> tab" where
  "note_offer ev c t =
     (if length (ch_buf c) < ch_cap c then t\<lparr>tab_seen := tab_seen t @ [ev], tab_wait := tab_wait t @ [ev]\<rparr>
      else t\<lparr>tab_seen := tab_seen t @ [ev], tab_missed := Suc (tab_missed t)\<rparr>)"

definition note_publish :: "event \<Rightarrow> stream_sys \<Rightarrow> chan_ref \<rightharpoonup> tab" where
  "note_publish ev s = (\<lambda>ch. case (st_tabs s ch, st_heap s ch) of
     (Some t, Some c) \<Rightarrow> Some (if ch \<in> clients (st_hub s) then note_offer ev c t else t)
   | (ot, _) \<Rightarrow> ot)"

definition note_turn :: "tab_case \<Rightarrow> tab \<Rightarrow> tab" where
  "note_turn branch t =
     (case branch of
        CtxDone \<Rightarrow> t
      | HeartbeatC ok \<Rightarrow> (if ok then t\<lparr>tab_chunks := tab_chunks t @ [PingChunk]\<rparr> else t)
      | FrameC ok \<Rightarrow> (case tab_wait t of [] \<Rightarrow> t
          | e # es \<Rightarrow> (if ok then t\<lparr>tab_chunks := tab_chunks t @ [FrameChunk e], tab_wait := es\<rparr>
                      else t\<lparr>tab_lost := tab_lost t @ [e], tab_wait := es\<rparr>)))"

datatype sevent =
    Connect chan_ref
  | PublishEv "chan_ref list" event
  | CtxEnds chan_ref
  | TabTurn chan_ref tab_case
  | Leave chan_ref   \<comment> \<open>the deferred \<open>Unsubscribe\<close>\<close>

inductive sstep :: "stream_sys \<Rightarrow> sevent \<Rightarrow> stream_sys \<Rightarrow> bool" where
  connect: "st_heap s ch = None \<Longrightarrow> HandleEvents_open False True new_response = (True, w) \<Longrightarrow>
    sstep s (Connect ch)
      (s\<lparr>st_heap := (st_heap s)(ch \<mapsto> make_chan 32), st_hub := Subscribe ch (st_hub s),
         st_tabs := (st_tabs s)(ch \<mapsto> new_tab w)\<rparr>)"
| publish: "enumerates order (st_hub s) \<Longrightarrow> Publish order ev (st_heap s) = Inr heap' \<Longrightarrow>
    sstep s (PublishEv order ev) (s\<lparr>st_heap := heap', st_tabs := note_publish ev s\<rparr>)"
| ctx_ends: "st_tabs s ch = Some t \<Longrightarrow>
    sstep s (CtxEnds ch) (s\<lparr>st_tabs := (st_tabs s)(ch \<mapsto> t\<lparr>tab_ctx_done := True\<rparr>)\<rparr>)"
| turn: "st_tabs s ch = Some t \<Longrightarrow> tab_at t = Streaming \<Longrightarrow> st_heap s ch = Some c \<Longrightarrow>
    HandleEvents_select (tab_ctx_done t) c (tab_w t) branch = Some (pc, w, c') \<Longrightarrow>
    sstep s (TabTurn ch branch)
      (s\<lparr>st_heap := (st_heap s)(ch \<mapsto> c'),
         st_tabs := (st_tabs s)(ch \<mapsto> (note_turn branch t)\<lparr>tab_at := pc, tab_w := w\<rparr>)\<rparr>)"
| leave: "st_tabs s ch = Some t \<Longrightarrow> tab_at t = Leaving \<Longrightarrow>
    sstep s (Leave ch)
      (s\<lparr>st_hub := Unsubscribe ch (st_hub s), st_tabs := (st_tabs s)(ch \<mapsto> t\<lparr>tab_at := Gone\<rparr>)\<rparr>)"

inductive_cases sstep_cases: "sstep s e t"
inductive_simps sstep_publish_iff: "sstep s (PublishEv order ev) t"
inductive_simps sstep_turn_iff: "sstep s (TabTurn ch branch) t"

text \<open>What a trace publishes while a channel is subscribed.\<close>

fun heard_from :: "chan_ref \<Rightarrow> bool \<Rightarrow> sevent list \<Rightarrow> event list" where
  "heard_from ch on [] = []"
| "heard_from ch on (Connect ch' # es) = heard_from ch (on \<or> ch' = ch) es"
| "heard_from ch on (PublishEv order ev # es) = (if on then [ev] else []) @ heard_from ch on es"
| "heard_from ch on (Leave ch' # es) = heard_from ch (on \<and> ch' \<noteq> ch) es"
| "heard_from ch on (_ # es) = heard_from ch on es"

abbreviation heard :: "chan_ref \<Rightarrow> sevent list \<Rightarrow> event list" where
  "heard ch es \<equiv> heard_from ch False es"

section \<open>The invariant\<close>

definition tab_ok :: "string chan \<Rightarrow> tab \<Rightarrow> bool" where
  "tab_ok c t \<longleftrightarrow> \<not> ch_closed c \<and> ch_cap c = 32 \<and> chan_ok c \<and>
     ch_buf c = map Frame (tab_wait t) \<and>
     rw_body (tab_w t) = concat (map chunk_bytes (tab_chunks t)) \<and>
     final_status (tab_w t) = StatusOK \<and> rw_sent (tab_w t) \<noteq> None \<and>
     subseq (chunk_events (tab_chunks t) @ tab_lost t @ tab_wait t) (tab_seen t) \<and>
     length (chunk_events (tab_chunks t) @ tab_lost t @ tab_wait t) + tab_missed t = length (tab_seen t) \<and>
     (tab_at t = Streaming \<longrightarrow> tab_lost t = [])"

definition stream_inv :: "stream_sys \<Rightarrow> bool" where
  "stream_inv s \<longleftrightarrow> finite (dom (st_tabs s)) \<and> dom (st_tabs s) = dom (st_heap s) \<and>
     clients (st_hub s) = {ch. \<exists>t. st_tabs s ch = Some t \<and> tab_at t \<noteq> Gone} \<and>
     (\<forall>ch t c. st_tabs s ch = Some t \<longrightarrow> st_heap s ch = Some c \<longrightarrow> tab_ok c t)"

lemma stream_inv_tab:
  assumes "stream_inv s" and "st_tabs s ch = Some t"
  obtains c where "st_heap s ch = Some c" "tab_ok c t"
  using assms unfolding stream_inv_def by (metis domD domI)

lemma stream_inv_open: "stream_inv s \<Longrightarrow> closed_clients (st_hub s) (st_heap s) = {}"
  unfolding stream_inv_def closed_clients_def tab_ok_def by (fastforce dest: domI)

lemma stream_inv_update:
  assumes "stream_inv s" and "st_heap s ch = Some c0" and "tab_ok c t"
    and "H = (if tab_at t = Gone then clients (st_hub s) - {ch} else insert ch (clients (st_hub s)))"
  shows "stream_inv (s\<lparr>st_heap := (st_heap s)(ch \<mapsto> c), st_tabs := (st_tabs s)(ch \<mapsto> t),
     st_hub := \<lparr>clients = H\<rparr>\<rparr>)"
  using assms unfolding stream_inv_def by (auto split: if_splits)

lemma HandleEvents_open_ok:
  "HandleEvents_open False True new_response = (True, w) \<Longrightarrow> tab_ok (make_chan 32) (new_tab w)"
  by (auto simp: HandleEvents_open_def tab_ok_def new_tab_def final_status_def)

lemma subseq_snoc_both: "subseq xs ys \<Longrightarrow> subseq (xs @ [e]) (ys @ [e])"
  by (intro list_emb_append_mono) simp_all

lemma subseq_snoc_drop: "subseq xs ys \<Longrightarrow> subseq xs (ys @ [e])"
  using list_emb_append2 [of "(=)" xs ys] list_emb_append_mono [of "(=)" xs ys "[]" "[e]"] by simp

lemma note_offer_ok: "tab_ok c t \<Longrightarrow> tab_ok (send_or_drop (Frame ev) c) (note_offer ev c t)"
  using subseq_snoc_both [of "chunk_events (tab_chunks t) @ tab_lost t @ tab_wait t" "tab_seen t" ev]
    subseq_snoc_drop [of "chunk_events (tab_chunks t) @ tab_lost t @ tab_wait t" "tab_seen t" ev]
  by (auto simp: tab_ok_def note_offer_def send_or_drop_buf chan_ok_def)

lemma final_status_Write: "rw_sent w \<noteq> None \<Longrightarrow> final_status (Write b w) = final_status w \<and> rw_sent (Write b w) \<noteq> None"
  by (auto simp: final_status_def)

lemma turn_ok:
  assumes "tab_ok c t" and "tab_at t = Streaming"
    and "HandleEvents_select (tab_ctx_done t) c (tab_w t) branch = Some (pc, w, c')"
  shows "tab_ok c' ((note_turn branch t)\<lparr>tab_at := pc, tab_w := w\<rparr>) \<and> pc \<noteq> Gone"
proof (cases branch)
  case CtxDone
  with assms show ?thesis by (auto simp: HandleEvents_select_def note_turn_def tab_ok_def split: if_splits)
next
  case (HeartbeatC ok)
  with assms show ?thesis
    using final_status_Write [of "tab_w t" ping]
    by (auto simp: HandleEvents_select_def note_turn_def tab_ok_def split: if_splits)
next
  case (FrameC ok)
  show ?thesis
  proof (cases "tab_wait t")
    case Nil
    with FrameC assms show ?thesis by (simp add: HandleEvents_select_def tab_ok_def recv_def)
  next
    case (Cons e es)
    with assms(1) have "recv c = Some (Some (Frame e), c\<lparr>ch_buf := map Frame es\<rparr>)"
      by (simp add: recv_def tab_ok_def)
    with FrameC Cons assms show ?thesis
      using final_status_Write [of "tab_w t" "Frame e"]
      by (auto simp: HandleEvents_select_def note_turn_def tab_ok_def chan_ok_def split: if_splits)
  qed
qed

section \<open>Every step keeps it\<close>

lemma stream_inv_init: "stream_inv stream_init"
  by (simp add: stream_inv_def stream_init_def New_hub_def)

lemma stream_inv_step:
  assumes "sstep s e t" and inv: "stream_inv s"
  shows "stream_inv t"
  using assms(1)
proof (cases rule: sstep.cases)
  case (connect ch w)
  then show ?thesis
    using inv HandleEvents_open_ok [of w] by (auto simp: stream_inv_def Subscribe_def new_tab_def)
next
  case (publish order ev heap')
  have heap': "heap' = offer_all (Frame ev) (clients (st_hub s)) (st_heap s)"
    using publish Publish_open [OF _ stream_inv_open [OF inv]] by simp
  have ok: "tab_ok c' t'" if "note_publish ev s ch = Some t'" "heap' ch = Some c'" for ch t' c'
    using that inv note_offer_ok
    by (auto simp: stream_inv_def note_publish_def heap' offer_all_apply split: option.splits if_splits)
  have "dom (note_publish ev s) = dom (st_tabs s)"
    by (auto simp: note_publish_def split: option.splits)
  moreover have "dom heap' = dom (st_heap s)"
    by (auto simp: heap' offer_all_def split: if_splits)
  moreover have "(\<exists>t. note_publish ev s ch = Some t \<and> tab_at t \<noteq> Gone) \<longleftrightarrow>
      (\<exists>t. st_tabs s ch = Some t \<and> tab_at t \<noteq> Gone)" for ch
    by (auto simp: note_publish_def note_offer_def split: option.splits)
  moreover have "finite (dom (st_heap s))" using inv by (auto simp: stream_inv_def)
  ultimately show ?thesis using inv publish(2) ok by (simp add: stream_inv_def)
next
  case (ctx_ends ch t')
  moreover have "tab_ok c (t'\<lparr>tab_ctx_done := True\<rparr>) = tab_ok c t'" for c by (simp add: tab_ok_def)
  ultimately show ?thesis using inv by (auto simp: stream_inv_def)
next
  case (turn ch t' c branch pc w c')
  then have "tab_ok c t'" using inv by (simp add: stream_inv_def)
  from turn_ok [OF this turn(4,6)] turn inv show ?thesis
    by (auto simp: stream_inv_def)
next
  case (leave ch t')
  have "tab_ok c (t'\<lparr>tab_at := Gone\<rparr>)" if "tab_ok c t'" for c
    using that by (simp add: tab_ok_def)
  with leave inv show ?thesis by (auto simp: stream_inv_def Unsubscribe_def)
qed

interpretation stream_system: invariant_system "\<lambda>s. s = stream_init" sstep stream_inv
  by unfold_locales (auto simp: stream_inv_init intro: stream_inv_step)

section \<open>The history agrees with the trace\<close>

definition seen_of :: "stream_sys \<Rightarrow> chan_ref \<Rightarrow> event list" where
  "seen_of s ch = (case st_tabs s ch of None \<Rightarrow> [] | Some t \<Rightarrow> tab_seen t)"

lemma note_turn_seen [simp]: "tab_seen (note_turn branch t) = tab_seen t"
  by (auto simp: note_turn_def split: tab_case.splits list.splits)

lemma seen_step:
  assumes "sstep s e t" and inv: "stream_inv s"
  shows "seen_of t ch @ heard_from ch (ch \<in> clients (st_hub t)) es =
     seen_of s ch @ heard_from ch (ch \<in> clients (st_hub s)) (e # es)"
  using assms(1)
proof (cases rule: sstep.cases)
  case (connect c w)
  moreover from this inv have "st_tabs s c = None" by (auto simp: stream_inv_def)
  ultimately show ?thesis by (auto simp: seen_of_def Subscribe_def new_tab_def insert_absorb)
next
  case (publish order ev heap')
  show ?thesis
  proof (cases "st_tabs s ch")
    case None
    with inv have "ch \<notin> clients (st_hub s)" by (simp add: stream_inv_def)
    with None publish show ?thesis by (simp add: seen_of_def note_publish_def)
  next
    case (Some t')
    from stream_inv_tab [OF inv this] obtain c where "st_heap s ch = Some c" .
    with Some publish show ?thesis by (simp add: seen_of_def note_publish_def note_offer_def)
  qed
next
  case (leave c t')
  then show ?thesis by (auto simp: seen_of_def Unsubscribe_def)
qed (auto simp: seen_of_def)

lemma seen_run:
  "run sstep s es t \<Longrightarrow> stream_inv s \<Longrightarrow>
     seen_of t ch = seen_of s ch @ heard_from ch (ch \<in> clients (st_hub s)) es"
proof (induction rule: run.induct)
  case (run_nil s)
  then show ?case by simp
next
  case (run_cons s e t es u)
  then show ?case using seen_step [of s e t ch es] stream_inv_step [of s e t] by simp
qed

lemma seen_heard:
  assumes "run sstep stream_init es s" and "st_tabs s ch = Some t"
  shows "tab_seen t = heard ch es"
  using seen_run [OF assms(1) stream_inv_init, of ch] assms(2)
  by (simp add: seen_of_def stream_init_def New_hub_def)

section \<open>Properties\<close>

lemma stream_inv_reachable: "run sstep stream_init es s \<Longrightarrow> stream_inv s"
  using stream_system.inv_reachable by simp

text \<open>What one turn, and then a row of turns, delivers.\<close>

lemma frame_turn:
  assumes "stream_inv s" and "st_tabs s ch = Some t" and "tab_at t = Streaming" and "tab_wait t = e # es"
  obtains s' t' where "sstep s (TabTurn ch (FrameC True)) s'" "st_tabs s' ch = Some t'"
    "tab_at t' = Streaming" "tab_wait t' = es" "tab_chunks t' = tab_chunks t @ [FrameChunk e]"
    "tab_missed t' = tab_missed t"
proof -
  from stream_inv_tab [OF assms(1,2)] obtain c where c: "st_heap s ch = Some c" "tab_ok c t" .
  then have "recv c = Some (Some (Frame e), c\<lparr>ch_buf := map Frame es\<rparr>)"
    using assms(4) by (simp add: recv_def tab_ok_def)
  then have sel: "HandleEvents_select (tab_ctx_done t) c (tab_w t) (FrameC True) =
      Some (Streaming, Write (Frame e) (tab_w t), c\<lparr>ch_buf := map Frame es\<rparr>)"
    by (simp add: HandleEvents_select_def)
  show ?thesis
    by (rule that [OF sstep.turn [OF assms(2,3) c(1) sel],
          of "(note_turn (FrameC True) t)\<lparr>tab_at := Streaming, tab_w := Write (Frame e) (tab_w t)\<rparr>"])
      (simp_all add: note_turn_def assms(4,3))
qed

lemma empty_buffer:
  "stream_inv s \<Longrightarrow> st_tabs s ch = Some t \<Longrightarrow> tab_at t = Streaming \<Longrightarrow>
     \<exists>s' t'. run sstep s (replicate (length (tab_wait t)) (TabTurn ch (FrameC True))) s' \<and>
       st_tabs s' ch = Some t' \<and> tab_at t' = Streaming \<and> tab_wait t' = [] \<and>
       tab_missed t' = tab_missed t \<and>
       chunk_events (tab_chunks t') = chunk_events (tab_chunks t) @ tab_wait t"
proof (induction "tab_wait t" arbitrary: s t)
  case Nil
  then show ?case by (intro exI [of _ s] exI [of _ t]) simp
next
  case (Cons e es)
  from frame_turn [OF Cons.prems, of e es] Cons.hyps(2) obtain s1 t1 where
    step: "sstep s (TabTurn ch (FrameC True)) s1" and t1: "st_tabs s1 ch = Some t1" "tab_at t1 = Streaming"
    "tab_wait t1 = es" "tab_chunks t1 = tab_chunks t @ [FrameChunk e]" "tab_missed t1 = tab_missed t"
    by metis
  from Cons.hyps(1) [OF t1(3) [symmetric] stream_inv_step [OF step Cons.prems(1)] t1(1,2)]
  obtain s' t' where "run sstep s1 (replicate (length es) (TabTurn ch (FrameC True))) s'"
    "st_tabs s' ch = Some t'" "tab_at t' = Streaming" "tab_wait t' = []" "tab_missed t' = tab_missed t1"
    "chunk_events (tab_chunks t') = chunk_events (tab_chunks t1) @ es"
    unfolding t1(3) by blast
  with step t1 show ?case
    unfolding Cons.hyps(2) [symmetric]
    by (intro exI [of _ s'] exI [of _ t']) (auto intro: run_cons)
qed

lemma heard_frames:
  "heard_from ch on (es @ replicate n (TabTurn ch' b)) = heard_from ch on es"
proof (induction ch on es rule: heard_from.induct)
  case (1 ch on)
  then show ?case by (induction n) simp_all
qed simp_all

text \<open>A tab that opens, one event, and the turn that sends it: used by the witnesses.\<close>

definition demo_event :: event where
  "demo_event = \<lparr>Name = ''check'', Data = ''up''\<rparr>"

lemma demo_sendable: "sendable demo_event"
  by (simp add: sendable_def demo_event_def)

lemma one_tab:
  "\<exists>s0 s t. sstep stream_init (Connect 0) s0 \<and> sstep s0 (PublishEv [0] ev) s \<and> st_tabs s 0 = Some t \<and>
     tab_at t = Streaming \<and> tab_wait t = [ev] \<and> tab_missed t = 0"
proof -
  let ?w = "snd (HandleEvents_open False True new_response)"
  let ?s = "stream_init\<lparr>st_heap := [0 \<mapsto> make_chan 32], st_hub := \<lparr>clients = {0}\<rparr>, st_tabs := [0 \<mapsto> new_tab ?w]\<rparr>"
  have "HandleEvents_open False True new_response = (True, ?w)" by (simp add: HandleEvents_open_def)
  from sstep.connect [OF _ this, of stream_init 0] have 1: "sstep stream_init (Connect 0) ?s"
    by (simp add: stream_init_def New_hub_def Subscribe_def)
  have "enumerates [0] (st_hub ?s)" "closed_clients (st_hub ?s) (st_heap ?s) = {}"
    by (auto simp: enumerates_def closed_clients_def)
  from sstep.publish [OF this(1) Publish_open [OF this]]
  have 2: "sstep ?s (PublishEv [0] ev) (?s\<lparr>st_heap := offer_all (Frame ev) {0} (st_heap ?s),
      st_tabs := note_publish ev ?s\<rparr>)" by simp
  have "note_publish ev ?s 0 = Some ((new_tab ?w)\<lparr>tab_seen := [ev], tab_wait := [ev]\<rparr>)"
    by (simp add: note_publish_def note_offer_def new_tab_def)
  with 1 2 show ?thesis
    by (intro exI [of _ ?s] exI [of _ "?s\<lparr>st_heap := offer_all (Frame ev) {0} (st_heap ?s), st_tabs := note_publish ev ?s\<rparr>"]
        exI [of _ "(new_tab ?w)\<lparr>tab_seen := [ev], tab_wait := [ev]\<rparr>"])
      (simp add: new_tab_def)
qed

lemma demo_waiting:
  "\<exists>s t. run sstep stream_init [Connect 0, PublishEv [0] demo_event] s \<and> st_tabs s 0 = Some t \<and>
     tab_at t = Streaming \<and> tab_wait t = [demo_event] \<and> tab_missed t = 0"
  using one_tab [of demo_event] by (auto simp: run_Cons_iff)

lemma demo_read:
  "\<exists>s t. run sstep stream_init [Connect 0, PublishEv [0] demo_event, TabTurn 0 (FrameC True)] s \<and>
     st_tabs s 0 = Some t \<and> tab_at t = Streaming \<and> tab_wait t = [] \<and> tab_missed t = 0"
proof -
  from demo_waiting obtain s t where s: "run sstep stream_init [Connect 0, PublishEv [0] demo_event] s"
    "st_tabs s 0 = Some t" "tab_at t = Streaming" "tab_wait t = [demo_event]" "tab_missed t = 0" by blast
  from s(1) have "stream_inv s" using stream_inv_reachable by blast
  from frame_turn [OF this s(2-4)] obtain s' t' where "sstep s (TabTurn 0 (FrameC True)) s'"
    "st_tabs s' 0 = Some t'" "tab_at t' = Streaming" "tab_wait t' = []" "tab_missed t' = tab_missed t"
    by metis
  with s(5) run_snoc [OF s(1)] show ?thesis by (intro exI [of _ s'] exI [of _ t']) simp
qed



text \<open>
  C17. A publish is never held up by a tab. In every state the system can reach,
  and for every event, \<open>Publish\<close> returns without a panic for every order in which
  the clients can be iterated, and there is such an order.
\<close>

theorem publish_always_returns:
  assumes "run sstep stream_init es s"
  shows "(\<exists>order. enumerates order (st_hub s)) \<and>
     (\<forall>order. enumerates order (st_hub s) \<longrightarrow> (\<exists>s'. sstep s (PublishEv order ev) s'))"
proof -
  have inv: "stream_inv s" using assms by (rule stream_inv_reachable)
  have "clients (st_hub s) \<subseteq> dom (st_tabs s)" "finite (dom (st_tabs s))"
    using inv by (auto simp: stream_inv_def)
  then have "finite (clients (st_hub s))" by (rule finite_subset)
  then have "\<exists>order. enumerates order (st_hub s)"
    using finite_distinct_list [of "clients (st_hub s)"] by (auto simp: enumerates_def)
  moreover have "\<exists>s'. sstep s (PublishEv order ev) s'" if "enumerates order (st_hub s)" for order
    using Publish_open [OF that stream_inv_open [OF inv]] that by (auto simp: sstep_publish_iff)
  ultimately show ?thesis by blast
qed

theorem publish_always_returns_witness:
  "\<exists>s order s'. run sstep stream_init [Connect 0, PublishEv [0] demo_event] s \<and>
     sstep s (PublishEv order demo_event) s'"
proof -
  from demo_waiting obtain s where s: "run sstep stream_init [Connect 0, PublishEv [0] demo_event] s" by blast
  from publish_always_returns [OF s, of demo_event] s show ?thesis by blast
qed

text \<open>
  C18. A closed tab is forgotten. Once the handler of a tab has returned, its
  channel is not in the hub and no later publish can touch it; a handler that has
  not returned is subscribed. So the hub holds exactly the open tabs, however they
  were closed: by the client, by a failed ping or by a failed frame.
\<close>

theorem hub_holds_open_tabs:
  assumes "run sstep stream_init es s" and "st_tabs s ch = Some t"
  shows "(ch \<in> clients (st_hub s) \<longleftrightarrow> tab_at t \<noteq> Gone) \<and>
     (tab_at t = Gone \<longrightarrow> sstep s (PublishEv order ev) s' \<longrightarrow>
        st_heap s' ch = st_heap s ch \<and> st_tabs s' ch = Some t)"
proof -
  have inv: "stream_inv s" using assms(1) by (rule stream_inv_reachable)
  then have mem: "ch \<in> clients (st_hub s) \<longleftrightarrow> tab_at t \<noteq> Gone"
    using assms(2) by (auto simp: stream_inv_def)
  from stream_inv_tab [OF inv assms(2)] obtain c where "st_heap s ch = Some c" .
  with mem assms(2) Publish_open [OF _ stream_inv_open [OF inv]] show ?thesis
    by (auto simp: sstep_publish_iff note_publish_def offer_all_apply)
qed

theorem hub_holds_open_tabs_witness:
  "\<exists>s. run sstep stream_init [Connect 0, PublishEv [0] demo_event] s \<and> 0 \<in> clients (st_hub s)"
proof -
  from demo_waiting obtain s t where s: "run sstep stream_init [Connect 0, PublishEv [0] demo_event] s"
    "st_tabs s 0 = Some t" "tab_at t = Streaming" by blast
  from hub_holds_open_tabs [OF s(1,2)] s show ?thesis by auto
qed

text \<open>
  A streaming tab catches up. From any reachable state, a handler at its
  \<open>select\<close> whose writes succeed empties its buffer in as many turns as frames wait,
  and its browser has then read every event that was not dropped for it.
\<close>

theorem streaming_tab_catches_up:
  assumes "run sstep stream_init es s" and "st_tabs s ch = Some t" and "tab_at t = Streaming"
    and "\<forall>e \<in> set (heard ch es). sendable e"
  shows "\<exists>s' t' (ks :: event list). run sstep s (replicate (length (tab_wait t)) (TabTurn ch (FrameC True))) s' \<and>
     st_tabs s' ch = Some t' \<and> tab_at t' = Streaming \<and> tab_wait t' = [] \<and>
     read_stream (rw_body (tab_w t')) = map (\<lambda>e. (Name e, Data e)) ks \<and>
     length ks + tab_missed t = length (heard ch es)"
proof -
  have inv: "stream_inv s" using assms(1) by (rule stream_inv_reachable)
  from empty_buffer [OF inv assms(2,3)] obtain s' t' where
    d: "run sstep s (replicate (length (tab_wait t)) (TabTurn ch (FrameC True))) s'"
    "st_tabs s' ch = Some t'" "tab_at t' = Streaming" "tab_wait t' = []" "tab_missed t' = tab_missed t"
    by blast
  let ?ks = "chunk_events (tab_chunks t')"
  from run_append [OF assms(1) d(1)]
  have r: "run sstep stream_init (es @ replicate (length (tab_wait t)) (TabTurn ch (FrameC True))) s'" .
  then have "stream_inv s'" by (rule stream_inv_reachable)
  from stream_inv_tab [OF this d(2)] obtain c where ok: "tab_ok c t'" .
  have seen: "tab_seen t' = heard ch es" using seen_heard [OF r d(2)] by (simp only: heard_frames)
  have "subseq ?ks (heard ch es)" "length ?ks + tab_missed t = length (heard ch es)"
    using ok d(3-5) seen by (auto simp: tab_ok_def)
  then have "\<forall>e \<in> set ?ks. sendable e" using assms(4) by (auto dest: list_emb_set)
  then have "read_stream (rw_body (tab_w t')) = map (\<lambda>e. (Name e, Data e)) ?ks"
    using ok frame_stream_reads by (simp add: tab_ok_def)
  with d(1-4) \<open>length ?ks + tab_missed t = length (heard ch es)\<close> show ?thesis
    by (intro exI [of _ s'] exI [of _ t'] exI [of _ ?ks] conjI)
qed

theorem streaming_tab_catches_up_witness:
  "\<exists>s s' t' (ks :: event list). run sstep s [TabTurn 0 (FrameC True)] s' \<and> st_tabs s' 0 = Some t' \<and>
     read_stream (rw_body (tab_w t')) = map (\<lambda>e. (Name e, Data e)) ks \<and> length ks = 1"
proof -
  from demo_waiting obtain s t where s: "run sstep stream_init [Connect 0, PublishEv [0] demo_event] s"
    "st_tabs s 0 = Some t" "tab_at t = Streaming" "tab_wait t = [demo_event]" "tab_missed t = 0" by blast
  from streaming_tab_catches_up [OF s(1-3)] demo_sendable s(4,5) show ?thesis by (auto simp: numeral_eq_Suc)
qed

end
