(* ===== verification/Sse_Timing.thy ===== *)
theory Sse_Timing
  imports Sse_Stream
begin

text \<open>
  The loop of \<open>HandleEvents\<close> with its heartbeat: one open tab, its channel, the ticker of
  20 seconds and the clock. Computation and writes take no time, so time passes only
  while no case of the \<open>select\<close> is ready, and the run-time fires the ticker on time.
  What the tab is sent is the subject of \<open>Sse_Stream\<close>; here it is when it leaves.
\<close>

section \<open>The loop and the clock\<close>

definition heartbeat_period :: duration where
  "heartbeat_period = 20 * Second"

lemma sint_heartbeat: "sint heartbeat_period = 20000000000"
  by (simp add: heartbeat_period_def Second_def)

record beat =
  bt_at :: tab_pc
  bt_w :: response
  bt_chan :: "string chan"
  bt_ctx_done :: bool
  bt_ticker :: ticker
  bt_clock :: time

text \<open>From the subscription on.\<close>

definition beat_start :: "response \<Rightarrow> time \<Rightarrow> go_panic + beat" where
  "beat_start w now =
     (case NewTicker heartbeat_period now of
        Inl p \<Rightarrow> Inl p
      | Inr k \<Rightarrow> Inr \<lparr>bt_at = Streaming, bt_w = w, bt_chan = make_chan 32, bt_ctx_done = False,
                     bt_ticker = k, bt_clock = now\<rparr>)"

definition case_ready :: "beat \<Rightarrow> bool" where
  "case_ready s \<longleftrightarrow> bt_ctx_done s \<or> tk_pending (bt_ticker s) \<or> ch_buf (bt_chan s) \<noteq> []"

text \<open>What a turn does to the ticker: a receive takes the tick, a return stops it.\<close>

definition beat_ticker :: "tab_case \<Rightarrow> tab_pc \<Rightarrow> ticker \<Rightarrow> ticker" where
  "beat_ticker branch pc k =
     (let k' = (case branch of HeartbeatC _ \<Rightarrow> ticker_take k | _ \<Rightarrow> k)
      in if pc = Streaming then k' else ticker_stop k')"

datatype beat_event =
    Delivered string   \<comment> \<open>a publish reaches the channel\<close>
  | CtxEnded
  | BeatFires
  | BeatTurn tab_case
  | Idle nat

inductive beat_step :: "beat \<Rightarrow> beat_event \<Rightarrow> beat \<Rightarrow> bool" where
  delivered: "bt_at s \<noteq> Gone \<Longrightarrow>
     beat_step s (Delivered frame) (s\<lparr>bt_chan := send_or_drop frame (bt_chan s)\<rparr>)"
| ctx_ended: "beat_step s CtxEnded (s\<lparr>bt_ctx_done := True\<rparr>)"
| beat_fires: "ticker_due (bt_ticker s) (bt_clock s) \<Longrightarrow>
     beat_step s BeatFires (s\<lparr>bt_ticker := ticker_fire (bt_ticker s) (bt_clock s)\<rparr>)"
| beat_turn: "bt_at s = Streaming \<Longrightarrow>
     (\<forall>ok. branch = HeartbeatC ok \<longrightarrow> tk_pending (bt_ticker s)) \<Longrightarrow>
     HandleEvents_select (bt_ctx_done s) (bt_chan s) (bt_w s) branch = Some (pc, w, c) \<Longrightarrow>
     beat_step s (BeatTurn branch)
       (s\<lparr>bt_at := pc, bt_w := w, bt_chan := c, bt_ticker := beat_ticker branch pc (bt_ticker s)\<rparr>)"
| idle: "bt_at s = Streaming \<Longrightarrow> \<not> case_ready s \<Longrightarrow> bt_clock s + d \<le> tk_next (bt_ticker s) \<Longrightarrow>
     beat_step s (Idle d) (s\<lparr>bt_clock := bt_clock s + d\<rparr>)"

inductive_simps beat_iffs: "beat_step s (BeatTurn branch) t" "beat_step s BeatFires t" "beat_step s (Idle d) t"
  "beat_step s (Delivered frame) t" "beat_step s CtxEnded t"

definition beat_inv :: "beat \<Rightarrow> bool" where
  "beat_inv s \<longleftrightarrow> \<not> ch_closed (bt_chan s) \<and> ch_cap (bt_chan s) = 32 \<and> chan_ok (bt_chan s) \<and>
     tk_period (bt_ticker s) = nat (sint heartbeat_period) \<and>
     (bt_at s = Streaming \<longrightarrow> \<not> tk_stopped (bt_ticker s) \<and> bt_clock s \<le> tk_next (bt_ticker s) \<and>
        tk_next (bt_ticker s) \<le> bt_clock s + nat (sint heartbeat_period))"

lemma period_pos: "0 < nat (sint heartbeat_period)"
  by (simp add: sint_heartbeat)

lemma beat_start_inv: "beat_start w now = Inr s \<Longrightarrow> beat_inv s \<and> bt_at s = Streaming"
  by (auto simp: beat_start_def NewTicker_def beat_inv_def split: if_splits)

lemma select_chan:
  assumes "HandleEvents_select ctx c w branch = Some (pc, w', c')" and "\<not> ch_closed c"
  shows "ch_cap c' = ch_cap c \<and> \<not> ch_closed c' \<and> length (ch_buf c') \<le> length (ch_buf c) \<and>
     (pc = Streaming \<longrightarrow> (case branch of CtxDone \<Rightarrow> False
        | HeartbeatC ok \<Rightarrow> ok \<and> c' = c | FrameC ok \<Rightarrow> ok \<and> length (ch_buf c) = Suc (length (ch_buf c'))))"
proof (cases branch)
  case (FrameC ok)
  with assms show ?thesis
    by (cases "ch_buf c") (auto simp: HandleEvents_select_def recv_def split: if_splits)
qed (use assms in \<open>auto simp: HandleEvents_select_def split: if_splits\<close>)

lemma beat_inv_step:
  assumes "beat_step s e t" and inv: "beat_inv s"
  shows "beat_inv t"
  using assms(1)
proof (cases rule: beat_step.cases)
  case (delivered frame)
  with inv show ?thesis by (auto simp: beat_inv_def send_or_drop_def try_send_def chan_ok_def)
next
  case ctx_ended
  with inv show ?thesis by (simp add: beat_inv_def)
next
  case beat_fires
  with inv ticker_fire_next [of "bt_ticker s" "bt_clock s"] period_pos show ?thesis
    by (auto simp: beat_inv_def ticker_due_def)
next
  case (beat_turn branch pc w c)
  with inv select_chan [OF beat_turn(5)] show ?thesis
    by (auto simp: beat_inv_def beat_ticker_def Let_def chan_ok_def split: tab_case.splits)
next
  case (idle d)
  with inv show ?thesis by (simp add: beat_inv_def)
qed

interpretation beats: invariant_system "\<lambda>s. beat_start w now = Inr s" beat_step beat_inv for w now
  by unfold_locales (auto intro: beat_inv_step dest: beat_start_inv)

section \<open>A dead connection\<close>

text \<open>Nothing was written to the tab.\<close>

fun wrote :: "beat_event \<Rightarrow> bool" where
  "wrote (BeatTurn (HeartbeatC ok)) = ok"
| "wrote (BeatTurn (FrameC ok)) = ok"
| "wrote e = False"

text \<open>The next heartbeat of a moment bounds the time for which the handler can go on.\<close>

definition dead_since :: "time \<Rightarrow> beat \<Rightarrow> bool" where
  "dead_since limit s \<longleftrightarrow> bt_at s = Streaming \<longrightarrow>
     bt_clock s \<le> limit \<and> (\<not> tk_pending (bt_ticker s) \<longrightarrow> tk_next (bt_ticker s) = limit)"

lemma dead_step:
  assumes "beat_step s e t" and "\<not> wrote e" and "beat_inv s" and "dead_since limit s"
  shows "dead_since limit t"
  using assms(1)
proof (cases rule: beat_step.cases)
  case (beat_turn branch pc w c)
  with assms(2) select_chan [OF beat_turn(5)] assms(3) show ?thesis
    by (cases branch) (auto simp: dead_since_def beat_inv_def)
qed (use assms in \<open>auto simp: dead_since_def case_ready_def\<close>)

lemma dead_run:
  assumes "run beat_step s es t" and "beat_inv s" and "dead_since limit s" and "\<forall>e \<in> set es. \<not> wrote e"
  shows "dead_since limit t"
proof -
  have "beat_inv t \<and> dead_since limit t"
    by (rule run_preserves_all [OF assms(1), where P = "\<lambda>s. beat_inv s \<and> dead_since limit s"])
      (use assms in \<open>auto intro: beat_inv_step dead_step\<close>)
  then show ?thesis by simp
qed

text \<open>A handler that streams always can go on, and a failing write or the context ends it.\<close>

lemma dead_tab_can_leave:
  assumes inv: "beat_inv s" and at: "bt_at s = Streaming" and dead: "dead_since limit s"
  shows "\<exists>fs t. run beat_step s fs t \<and> bt_at t = Leaving \<and> (\<forall>e \<in> set fs. \<not> wrote e) \<and> bt_clock t \<le> limit"
proof -
  have le: "bt_clock s \<le> limit" using dead at by (simp add: dead_since_def)
  have ping: "\<exists>t. beat_step s (BeatTurn (HeartbeatC False)) t \<and> bt_at t = Leaving \<and> bt_clock t = bt_clock s"
    if "bt_at s = Streaming" "tk_pending (bt_ticker s)" for s
    using that by (simp add: beat_iffs HandleEvents_select_def)
  consider "tk_pending (bt_ticker s)" | "bt_ctx_done s" | x xs where "ch_buf (bt_chan s) = x # xs"
    | (quiet) "\<not> case_ready s" by (cases "ch_buf (bt_chan s)") (auto simp: case_ready_def)
  then show ?thesis
  proof cases
    case 1
    from ping [OF at 1] obtain t where t: "beat_step s (BeatTurn (HeartbeatC False)) t" "bt_at t = Leaving"
      "bt_clock t = bt_clock s" by blast
    then show ?thesis by (intro exI [of _ "[BeatTurn (HeartbeatC False)]"] exI [of _ t]) (simp add: run_single le)
  next
    case 2
    let ?t = "s\<lparr>bt_at := Leaving, bt_ticker := beat_ticker CtxDone Leaving (bt_ticker s)\<rparr>"
    have "beat_step s (BeatTurn CtxDone) ?t" using at 2 by (simp add: beat_iffs HandleEvents_select_def)
    then show ?thesis by (intro exI [of _ "[BeatTurn CtxDone]"] exI [of _ ?t]) (simp add: run_single le)
  next
    case (3 x xs)
    let ?t = "s\<lparr>bt_at := Leaving, bt_chan := bt_chan s\<lparr>ch_buf := xs\<rparr>,
       bt_ticker := beat_ticker (FrameC False) Leaving (bt_ticker s)\<rparr>"
    have "beat_step s (BeatTurn (FrameC False)) ?t" using at 3 by (simp add: beat_iffs HandleEvents_select_def recv_def)
    then show ?thesis by (intro exI [of _ "[BeatTurn (FrameC False)]"] exI [of _ ?t]) (simp add: run_single le)
  next
    case quiet
    let ?next = "tk_next (bt_ticker s)"
    let ?u = "s\<lparr>bt_clock := ?next\<rparr>"
    let ?v = "?u\<lparr>bt_ticker := ticker_fire (bt_ticker s) ?next\<rparr>"
    have nxt: "bt_clock s \<le> ?next" "\<not> tk_stopped (bt_ticker s)" "?next = limit"
      using inv at dead quiet by (simp_all add: beat_inv_def dead_since_def case_ready_def)
    have "beat_step s (Idle (?next - bt_clock s)) ?u" using at quiet nxt(1) by (simp add: beat_iffs)
    moreover have "beat_step ?u BeatFires ?v" using nxt(2) by (simp add: beat_iffs ticker_due_def)
    moreover obtain t where "beat_step ?v (BeatTurn (HeartbeatC False)) t" "bt_at t = Leaving" "bt_clock t = bt_clock ?v"
      using ping [of ?v] at by auto
    ultimately show ?thesis using nxt(3)
      by (intro exI [of _ "[Idle (?next - bt_clock s), BeatFires, BeatTurn (HeartbeatC False)]"] exI [of _ t])
        (auto simp: run_Cons_iff)
  qed
qed

text \<open>
  C19. A dead connection surfaces at most one heartbeat later. Take a tab that streams
  at some moment and whose writes fail from then on, whatever is published and whatever
  case its \<open>select\<close> picks: as long as its handler still streams no more than 20
  seconds have passed, and it can return within them. So a closed tab holds its place in
  the hub for one heartbeat at most.
\<close>

theorem dead_connection_surfaces:
  assumes "beat_start w now = Inr s0" and "run beat_step s0 es s" and "bt_at s = Streaming"
    and "run beat_step s fs t" and "\<forall>e \<in> set fs. \<not> wrote e" and "bt_at t = Streaming"
  shows "bt_clock t \<le> bt_clock s + 20000000000 \<and>
     (\<exists>gs u. run beat_step t gs u \<and> bt_at u = Leaving \<and> (\<forall>e \<in> set gs. \<not> wrote e) \<and>
        bt_clock u \<le> bt_clock s + 20000000000)"
proof -
  have p: "nat (sint heartbeat_period) = 20000000000" by (simp only: sint_heartbeat)
  have inv: "beat_inv s" by (rule beats.inv_reachable [OF assms(1,2)])
  define limit where "limit = (if tk_pending (bt_ticker s) then bt_clock s else tk_next (bt_ticker s))"
  have limit: "limit \<le> bt_clock s + 20000000000" and d: "dead_since limit s"
    using inv assms(3) by (auto simp: limit_def beat_inv_def dead_since_def p)
  have inv_t: "beat_inv t" by (rule beats.inv_run [OF assms(4) inv])
  have dead_t: "dead_since limit t" by (rule dead_run [OF assms(4) inv d assms(5)])
  with assms(6) limit have "bt_clock t \<le> bt_clock s + 20000000000" by (simp add: dead_since_def)
  moreover obtain gs u where "run beat_step t gs u" "bt_at u = Leaving" "\<forall>e \<in> set gs. \<not> wrote e" "bt_clock u \<le> limit"
    using dead_tab_can_leave [OF inv_t assms(6) dead_t] by blast
  ultimately show ?thesis using limit by (intro conjI exI [of _ gs] exI [of _ u]) simp_all
qed

section \<open>The end of the context\<close>

text \<open>How many turns the handler can still take before it has to look at its context.\<close>

definition turns_left :: "beat \<Rightarrow> nat" where
  "turns_left s = length (ch_buf (bt_chan s)) + (if tk_pending (bt_ticker s) then 1 else 0) +
     (if tk_next (bt_ticker s) \<le> bt_clock s then 1 else 0)"

fun is_turn :: "beat_event \<Rightarrow> bool" where
  "is_turn (BeatTurn b) = True"
| "is_turn e = False"

fun is_delivery :: "beat_event \<Rightarrow> bool" where
  "is_delivery (Delivered f) = True"
| "is_delivery e = False"

lemma turns_left_step:
  assumes "beat_step s e t" and inv: "beat_inv s" and "bt_ctx_done s" and "bt_at t = Streaming"
  shows "bt_clock t = bt_clock s \<and> bt_ctx_done t \<and> bt_at s = Streaming \<and>
     (if is_turn e then 1 else 0) + turns_left t \<le> turns_left s + (if is_delivery e then 1 else 0)"
  using assms(1)
proof (cases rule: beat_step.cases)
  case (delivered frame)
  with assms show ?thesis by (auto simp: turns_left_def send_or_drop_def try_send_def)
next
  case beat_fires
  with inv assms(4) ticker_fire_next(2) [of "bt_ticker s" "bt_clock s"] period_pos assms(3) show ?thesis
    by (auto simp: turns_left_def beat_inv_def ticker_due_def)
next
  case (beat_turn branch pc w c)
  with assms(3,4) select_chan [OF beat_turn(5)] inv show ?thesis
    by (cases branch) (auto simp: turns_left_def beat_inv_def beat_ticker_def Let_def)
qed (use assms in \<open>auto simp: turns_left_def case_ready_def\<close>)

lemma turns_left_run:
  "run beat_step s es t \<Longrightarrow> beat_inv s \<Longrightarrow> bt_ctx_done s \<Longrightarrow> bt_at t = Streaming \<Longrightarrow>
     bt_clock t = bt_clock s \<and> bt_ctx_done t \<and> bt_at s = Streaming \<and>
     count_of is_turn es + turns_left t \<le> turns_left s + count_of is_delivery es"
proof (induction rule: run.induct)
  case (run_nil s)
  then show ?case by simp
next
  case (run_cons s e t es u)
  have "bt_ctx_done t" using run_cons.hyps(1) run_cons.prems(2) by (cases rule: beat_step.cases) auto
  from run_cons.IH [OF beat_inv_step [OF run_cons.hyps(1) run_cons.prems(1)] this run_cons.prems(3)]
    turns_left_step [OF run_cons.hyps(1) run_cons.prems(1,2)]
  show ?case by auto
qed


section \<open>A tab that falls silent\<close>

lemma demo_beat: "\<exists>s. beat_start new_response 0 = Inr s \<and> bt_at s = Streaming \<and> bt_clock s = 0 \<and>
    \<not> case_ready s \<and> tk_next (bt_ticker s) = 20000000000 \<and> \<not> tk_stopped (bt_ticker s)"
proof -
  have p: "nat (sint heartbeat_period) = 20000000000" by (simp only: sint_heartbeat)
  show ?thesis
    by (simp add: beat_start_def NewTicker_def sint_heartbeat case_ready_def p)
qed

theorem dead_connection_surfaces_witness:
  "\<exists>s0 t gs u. beat_start new_response 0 = Inr s0 \<and> run beat_step s0 [Idle 20000000000, BeatFires] t \<and>
     bt_at t = Streaming \<and> bt_clock t = 20000000000 \<and> run beat_step t gs u \<and> bt_at u = Leaving \<and> bt_clock u \<le> 20000000000"
proof -
  obtain s where s: "beat_start new_response 0 = Inr s" "bt_at s = Streaming" "bt_clock s = 0" "\<not> case_ready s"
    "tk_next (bt_ticker s) = 20000000000" "\<not> tk_stopped (bt_ticker s)" using demo_beat by blast
  let ?u = "s\<lparr>bt_clock := 20000000000\<rparr>"
  let ?t = "?u\<lparr>bt_ticker := ticker_fire (bt_ticker s) 20000000000\<rparr>"
  have "beat_step s (Idle 20000000000) ?u" "beat_step ?u BeatFires ?t"
    using s by (simp_all add: beat_iffs ticker_due_def)
  then have r: "run beat_step s [Idle 20000000000, BeatFires] ?t" by (auto simp: run_Cons_iff)
  from dead_connection_surfaces [OF s(1) run_nil s(2) r] s(2,3) obtain gs u where
    "run beat_step ?t gs u" "bt_at u = Leaving" "bt_clock u \<le> 20000000000" by auto
  with s r show ?thesis by (intro exI [of _ s] exI [of _ ?t] exI [of _ gs] exI [of _ u]) simp
qed


end
