(* ===== verification/Go_Url.thy ===== *)
theory Go_Url
  imports Go_Strings
begin

text \<open>
  The part of \<open>net/url\<close> that decides which target URLs the program accepts and
  which host it limits: \<open>Parse\<close>, \<open>ParseRequestURI\<close>, \<open>Hostname\<close> and what they call,
  as in the release \<open>go.mod\<close> names (Go 1.25.0). Of a parsed URL \<open>Scheme\<close>,
  \<open>Host\<close> and \<open>Path\<close> are kept; user and fragment matter through their errors.
\<close>

section \<open>Characters and cuts\<close>

definition byte :: "char \<Rightarrow> nat" where
  "byte c = of_char c"

definition is_upper :: "char \<Rightarrow> bool" where
  "is_upper c \<longleftrightarrow> 65 \<le> byte c \<and> byte c \<le> 90"

definition is_alpha :: "char \<Rightarrow> bool" where
  "is_alpha c \<longleftrightarrow> is_upper c \<or> (97 \<le> byte c \<and> byte c \<le> 122)"

definition is_dec :: "char \<Rightarrow> bool" where
  "is_dec c \<longleftrightarrow> 48 \<le> byte c \<and> byte c \<le> 57"

definition is_hex :: "char \<Rightarrow> bool" where
  "is_hex c \<longleftrightarrow> is_dec c \<or> (97 \<le> byte c \<and> byte c \<le> 102) \<or> (65 \<le> byte c \<and> byte c \<le> 70)"

definition unhex :: "char \<Rightarrow> nat" where
  "unhex c = (if is_dec c then byte c - 48 else if 97 \<le> byte c then byte c - 97 + 10 else byte c - 65 + 10)"

definition to_lower :: "string \<Rightarrow> string" where
  "to_lower = map (\<lambda>c. if is_upper c then char_of (byte c + 32) else c)"

text \<open>\<open>strings.Cut\<close> at the first separator, and the cut at the last one.\<close>

definition cut_at :: "char \<Rightarrow> string \<Rightarrow> string \<times> string" where
  "cut_at c s = (takeWhile (\<lambda>x. x \<noteq> c) s, drop 1 (dropWhile (\<lambda>x. x \<noteq> c) s))"

fun cut_last :: "char \<Rightarrow> string \<Rightarrow> (string \<times> string) option" where
  "cut_last c [] = None"
| "cut_last c (x # s) =
     (case cut_last c s of
        Some (a, b) \<Rightarrow> Some (x # a, b)
      | None \<Rightarrow> (if x = c then Some ([], s) else None))"

fun find_zone :: "string \<Rightarrow> (string \<times> string) option" where
  "find_zone [] = None"
| "find_zone (x # s) =
     (if prefix ''%25'' (x # s) then Some ([], x # s)
      else map_option (\<lambda>(a, b). (x # a, b)) (find_zone s))"

section \<open>Escapes\<close>

datatype escape_mode = EncodeHost | EncodeZone | EncodeOther

datatype url_err =
    InvalidControl | EmptyUrl | MissingScheme | InvalidUri | ColonInSegment
  | MissingBracket | InvalidPort string | InvalidUserinfo | EscapeError string | InvalidHostError char

text \<open>\<open>shouldEscape(c, mode)\<close> for the two host modes.\<close>

definition host_char :: "char \<Rightarrow> bool" where
  "host_char c \<longleftrightarrow> is_alpha c \<or> is_dec c \<or> c \<in> set ''!$&()*+,;=:[]<>-_.~'' \<or> c = CHR 0x27 \<or> c = CHR 0x22"

definition bad_escape :: "escape_mode \<Rightarrow> char \<Rightarrow> char \<Rightarrow> bool" where
  "bad_escape mode a b =
     (case mode of
        EncodeOther \<Rightarrow> False
      | EncodeHost \<Rightarrow> unhex a < 8 \<and> [a, b] \<noteq> ''25''
      | EncodeZone \<Rightarrow> (let v = char_of (unhex a * 16 + unhex b) in
          [a, b] \<noteq> ''25'' \<and> v \<noteq> CHR '' '' \<and> \<not> host_char v))"

fun unescape :: "escape_mode \<Rightarrow> string \<Rightarrow> url_err + string" where
  "unescape mode [] = Inr []"
| "unescape mode (c # s) =
     (if c = CHR ''%'' then
        (case s of
           a # b # s' \<Rightarrow>
             (if \<not> is_hex a \<or> \<not> is_hex b then Inl (EscapeError [c, a, b])
              else if bad_escape mode a b then Inl (EscapeError [c, a, b])
              else (case unescape mode s' of
                      Inl e \<Rightarrow> Inl e
                    | Inr t \<Rightarrow> Inr (char_of (unhex a * 16 + unhex b) # t)))
         | _ \<Rightarrow> Inl (EscapeError (c # s)))
      else if mode \<noteq> EncodeOther \<and> byte c < 128 \<and> \<not> host_char c then Inl (InvalidHostError c)
      else (case unescape mode s of Inl e \<Rightarrow> Inl e | Inr t \<Rightarrow> Inr (c # t)))"

section \<open>Parsing\<close>

record url =
  Scheme :: string
  Host :: string
  Path :: string

fun scheme_from :: "bool \<Rightarrow> string \<Rightarrow> string \<Rightarrow> string \<Rightarrow> url_err + (string \<times> string)" where
  "scheme_from first acc raw [] = Inr ([], raw)"
| "scheme_from first acc raw (c # s) =
     (if is_alpha c then scheme_from False (acc @ [c]) raw s
      else if is_dec c \<or> c \<in> set ''+-.'' then
        (if first then Inr ([], raw) else scheme_from False (acc @ [c]) raw s)
      else if c = CHR '':'' then (if first then Inl MissingScheme else Inr (acc, s))
      else Inr ([], raw))"

definition getScheme :: "string \<Rightarrow> url_err + (string \<times> string)" where
  "getScheme raw = scheme_from True [] raw raw"

definition validOptionalPort :: "string \<Rightarrow> bool" where
  "validOptionalPort p \<longleftrightarrow> p = [] \<or> (hd p = CHR '':'' \<and> list_all is_dec (tl p))"

definition parseHost :: "string \<Rightarrow> url_err + string" where
  "parseHost host =
     (if prefix ''['' host then
        (case cut_last (CHR '']'') host of
           None \<Rightarrow> Inl MissingBracket
         | Some (a, port) \<Rightarrow>
             if \<not> validOptionalPort port then Inl (InvalidPort port)
             else (case find_zone a of
                 None \<Rightarrow> unescape EncodeHost host
               | Some (h1, h2) \<Rightarrow>
                   (case unescape EncodeHost h1 of Inl e \<Rightarrow> Inl e | Inr u1 \<Rightarrow>
                    (case unescape EncodeZone h2 of Inl e \<Rightarrow> Inl e | Inr u2 \<Rightarrow>
                     (case unescape EncodeHost (CHR '']'' # port) of Inl e \<Rightarrow> Inl e | Inr u3 \<Rightarrow>
                      Inr (u1 @ u2 @ u3))))))
      else (case cut_last (CHR '':'') host of
              Some (_, port) \<Rightarrow>
                (if \<not> validOptionalPort (CHR '':'' # port) then Inl (InvalidPort (CHR '':'' # port))
                 else unescape EncodeHost host)
            | None \<Rightarrow> unescape EncodeHost host))"

definition validUserinfo :: "string \<Rightarrow> bool" where
  "validUserinfo s \<longleftrightarrow>
     list_all (\<lambda>c. is_alpha c \<or> is_dec c \<or> c \<in> set ''-._:~!$&()*+,;=%@'' \<or> c = CHR 0x27) s"

definition parseAuthority :: "string \<Rightarrow> url_err + string" where
  "parseAuthority authority =
     (case cut_last (CHR ''@'') authority of
        None \<Rightarrow> parseHost authority
      | Some (userinfo, h) \<Rightarrow>
          (case parseHost h of
             Inl e \<Rightarrow> Inl e
           | Inr host \<Rightarrow>
               if \<not> validUserinfo userinfo then Inl InvalidUserinfo
               else (case cut_at (CHR '':'') userinfo of (name, password) \<Rightarrow>
                 (case unescape EncodeOther name of Inl e \<Rightarrow> Inl e | Inr _ \<Rightarrow>
                  (case unescape EncodeOther password of Inl e \<Rightarrow> Inl e | Inr _ \<Rightarrow> Inr host)))))"

definition is_control :: "char \<Rightarrow> bool" where
  "is_control c \<longleftrightarrow> byte c < 32 \<or> byte c = 127"

text \<open>The path with its host, once scheme and query are off.\<close>

definition set_path :: "string \<Rightarrow> string \<Rightarrow> string \<Rightarrow> url_err + url" where
  "set_path scheme host path =
     (case unescape EncodeOther path of Inl e \<Rightarrow> Inl e | Inr p \<Rightarrow> Inr \<lparr>Scheme = scheme, Host = host, Path = p\<rparr>)"

definition parse_rest :: "bool \<Rightarrow> string \<Rightarrow> string \<Rightarrow> url_err + url" where
  "parse_rest via_request scheme rest =
     (if (scheme \<noteq> [] \<or> (\<not> via_request \<and> \<not> prefix ''///'' rest)) \<and> prefix ''//'' rest then
        (case cut_at (CHR ''/'') (drop 2 rest) of (authority, _) \<Rightarrow>
          (case parseAuthority authority of
             Inl e \<Rightarrow> Inl e
           | Inr host \<Rightarrow> set_path scheme host (drop (length authority) (drop 2 rest))))
      else set_path scheme [] rest)"

definition parse_url :: "bool \<Rightarrow> string \<Rightarrow> url_err + url" where
  "parse_url via_request raw =
     (if list_ex is_control raw then Inl InvalidControl
      else if raw = [] \<and> via_request then Inl EmptyUrl
      else if raw = ''*'' then Inr \<lparr>Scheme = [], Host = [], Path = ''*''\<rparr>
      else (case getScheme raw of
          Inl e \<Rightarrow> Inl e
        | Inr (s, after) \<Rightarrow>
            (let scheme = to_lower s; rest = fst (cut_at (CHR ''?'') after) in
             if \<not> prefix ''/'' rest then
               (if scheme \<noteq> [] then Inr \<lparr>Scheme = scheme, Host = [], Path = []\<rparr>
                else if via_request then Inl InvalidUri
                else if CHR '':'' \<in> set (fst (cut_at (CHR ''/'') rest)) then Inl ColonInSegment
                else parse_rest via_request scheme rest)
             else parse_rest via_request scheme rest)))"

text \<open>An error of \<open>Parse\<close> names the text it was parsing: without the fragment, or all of it.\<close>

definition url_Parse :: "string \<Rightarrow> (string \<times> url_err) + url" where
  "url_Parse raw =
     (case cut_at (CHR ''#'') raw of (u, frag) \<Rightarrow>
        (case parse_url False u of
           Inl e \<Rightarrow> Inl (u, e)
         | Inr v \<Rightarrow> (case unescape EncodeOther frag of Inl e \<Rightarrow> Inl (raw, e) | Inr _ \<Rightarrow> Inr v)))"

definition ParseRequestURI :: "string \<Rightarrow> url_err + url" where
  "ParseRequestURI raw = parse_url True raw"

definition strip_brackets :: "string \<Rightarrow> string" where
  "strip_brackets h = (if prefix ''['' h \<and> suffix '']'' h then butlast (tl h) else h)"

definition Hostname :: "url \<Rightarrow> string" where
  "Hostname u =
     (case cut_last (CHR '':'') (Host u) of
        Some (h, port) \<Rightarrow> strip_brackets (if list_all is_dec port then h else Host u)
      | None \<Rightarrow> strip_brackets (Host u))"

section \<open>Facts the components use\<close>

text \<open>
  With a scheme, and without a fragment, the two entry points agree: the request
  form differs only where the scheme is missing.
\<close>

lemma parse_rest_result: "parse_rest b scheme rest = Inr u \<Longrightarrow> Scheme u = scheme"
  by (auto simp: parse_rest_def set_path_def split: sum.splits prod.splits if_splits)

lemma parse_rest_scheme: "scheme \<noteq> [] \<Longrightarrow> parse_rest b scheme rest = parse_rest False scheme rest"
  by (simp add: parse_rest_def)

lemma parse_url_scheme:
  assumes "parse_url True raw = Inr u" and "Scheme u \<noteq> []"
  shows "parse_url False raw = Inr u"
proof -
  have rest: "parse_rest True scheme rest = Inr u \<Longrightarrow> parse_rest False scheme rest = Inr u" for scheme rest
    using parse_rest_result [of True scheme rest u] parse_rest_scheme [of scheme True rest] assms(2) by auto
  show ?thesis
    using assms unfolding parse_url_def Let_def by (auto split: sum.splits prod.splits if_splits intro: rest)
qed

lemma cut_at_none: "c \<notin> set s \<Longrightarrow> cut_at c s = (s, [])"
  unfolding cut_at_def by (induction s) auto

lemma cut_at_append: "c \<notin> set a \<Longrightarrow> cut_at c (a @ c # b) = (a, b)"
  unfolding cut_at_def by (induction a) auto

lemma url_Parse_request:
  assumes "ParseRequestURI raw = Inr u" and "Scheme u \<noteq> []" and "CHR ''#'' \<notin> set raw"
  shows "url_Parse raw = Inr u"
  using parse_url_scheme [of raw u] assms
  by (simp add: url_Parse_def ParseRequestURI_def cut_at_none)

text \<open>The URL of a name, as an operator types it.\<close>

definition name_char :: "char \<Rightarrow> bool" where
  "name_char c \<longleftrightarrow> is_alpha c \<or> is_dec c \<or> c \<in> set ''-.''"

lemma name_char_not: "name_char c \<Longrightarrow> c \<notin> set ''%:/?#@[]'' \<and> host_char c \<and> \<not> is_control c"
  by (auto simp: name_char_def host_char_def is_control_def is_alpha_def is_upper_def is_dec_def byte_def)

lemma unescape_name: "list_all name_char h \<Longrightarrow> unescape EncodeHost h = Inr h"
  by (induction h) (auto dest: name_char_not)

lemma cut_last_none: "c \<notin> set s \<Longrightarrow> cut_last c s = None"
  by (induction s) auto

lemma no_zone: "CHR ''%'' \<notin> set s \<Longrightarrow> find_zone s = None"
  by (induction s) auto

lemma parseHost_name:
  assumes "list_all name_char h"
  shows "parseHost h = Inr h"
proof -
  have "\<not> prefix ''['' h" "CHR '':'' \<notin> set h"
    using assms name_char_not by (fastforce simp: list_all_iff prefix_def)+
  then show ?thesis using assms by (simp add: parseHost_def cut_last_none unescape_name)
qed

end
