(* ===== verification/Monitor_Check.thy ===== *)
theory Monitor_Check
  imports Bucket Go_Url
begin

text \<open>
  The values of \<open>internal/monitor/monitor.go\<close> and one check: \<open>Target\<close>, \<open>Result\<close>,
  \<open>Stats\<close>, the errors with their texts, \<open>Failed\<close>, \<open>domainOf\<close> and \<open>checkOne\<close>. What
  happens outside the process during a check (how long the limiter made it wait,
  what the server answered) is an argument.
\<close>

section \<open>Values\<close>

record target =
  ID :: string
  URL :: string

record stats =
  TargetID :: string
  TotalChecks :: int
  Failures :: int
  P50LatencyMS :: int
  P99LatencyMS :: int

datatype domain_err = UrlParse "string \<times> url_err" | NoHost string

datatype mon_err =
    CtxE ctx_err
  | ParseTargetURL domain_err
  | RateLimitWait wait_err
  | BuildRequest "string \<times> url_err"
  | RequestFailed string

record result =
  Target :: target
  StatusCode :: int
  Duration :: duration
  Err :: "mon_err option"
  CheckedAt :: time

definition Failed :: "result \<Rightarrow> bool" where
  "Failed r \<longleftrightarrow> Err r \<noteq> None \<or> StatusCode r < 200 \<or> 400 \<le> StatusCode r"

text \<open>The zero value, which \<open>make([]Result, n)\<close> fills the slice with.\<close>

definition zero_result :: result where
  "zero_result = \<lparr>Target = \<lparr>ID = [], URL = []\<rparr>, StatusCode = 0, Duration = 0, Err = None, CheckedAt = 0\<rparr>"

section \<open>The texts of the errors\<close>

text \<open>\<open>quote\<close> is the \<open>%q\<close> of \<open>fmt\<close> (\<open>strconv.Quote\<close>), which needs tables of printable runes.\<close>

fun ctx_text :: "ctx_err \<Rightarrow> string" where
  "ctx_text Canceled = ''context canceled''"
| "ctx_text DeadlineExceeded = ''context deadline exceeded''"

fun wait_text :: "wait_err \<Rightarrow> string" where
  "wait_text (CtxErr e) = ctx_text e"
| "wait_text ErrClosed = ''ratelimit: bucket closed''"

fun url_err_text :: "(string \<Rightarrow> string) \<Rightarrow> url_err \<Rightarrow> string" where
  "url_err_text quote InvalidControl = ''net/url: invalid control character in URL''"
| "url_err_text quote EmptyUrl = ''empty url''"
| "url_err_text quote MissingScheme = ''missing protocol scheme''"
| "url_err_text quote InvalidUri = ''invalid URI for request''"
| "url_err_text quote ColonInSegment = ''first path segment in URL cannot contain colon''"
| "url_err_text quote MissingBracket = ''missing '' @ [CHR 0x27] @ '']'' @ [CHR 0x27] @ '' in host''"
| "url_err_text quote (InvalidPort p) = ''invalid port '' @ quote p @ '' after host''"
| "url_err_text quote InvalidUserinfo = ''net/url: invalid userinfo''"
| "url_err_text quote (EscapeError s) = ''invalid URL escape '' @ quote s"
| "url_err_text quote (InvalidHostError c) = ''invalid character '' @ quote [c] @ '' in host name''"

fun parse_err_text :: "(string \<Rightarrow> string) \<Rightarrow> string \<times> url_err \<Rightarrow> string" where
  "parse_err_text quote (raw, e) = ''parse '' @ quote raw @ '': '' @ url_err_text quote e"

fun domain_err_text :: "(string \<Rightarrow> string) \<Rightarrow> domain_err \<Rightarrow> string" where
  "domain_err_text quote (UrlParse e) = parse_err_text quote e"
| "domain_err_text quote (NoHost raw) = ''no host in url '' @ quote raw"

fun Error_text :: "(string \<Rightarrow> string) \<Rightarrow> mon_err \<Rightarrow> string" where
  "Error_text quote (CtxE e) = ctx_text e"
| "Error_text quote (ParseTargetURL e) = ''monitor: parse target url: '' @ domain_err_text quote e"
| "Error_text quote (RateLimitWait e) = ''monitor: rate limit wait: '' @ wait_text e"
| "Error_text quote (BuildRequest e) = ''monitor: build request: '' @ parse_err_text quote e"
| "Error_text quote (RequestFailed t) = ''monitor: request failed: '' @ t"

lemma Error_text_nonempty [simp]: "Error_text quote e \<noteq> []"
proof (cases e)
  case (CtxE c)
  then show ?thesis by (cases c) simp_all
qed simp_all

section \<open>One check\<close>

definition domainOf :: "string \<Rightarrow> domain_err + string" where
  "domainOf rawURL =
     (case url_Parse rawURL of
        Inl e \<Rightarrow> Inl (UrlParse e)
      | Inr u \<Rightarrow> (if Hostname u = [] then Inl (NoHost rawURL) else Inr (Hostname u)))"

text \<open>\<open>http.NewRequestWithContext\<close> of a \<open>GET\<close> with a context: it fails only where \<open>url.Parse\<close> fails.\<close>

definition NewRequest :: "string \<Rightarrow> (string \<times> url_err) + unit" where
  "NewRequest rawURL = (case url_Parse rawURL of Inl e \<Rightarrow> Inl e | Inr _ \<Rightarrow> Inr ())"

datatype do_answer = DoError string | DoResponse int

text \<open>
  \<open>checkOne\<close> in its four parts, cut where the goroutine can block: before the
  limiter, after it (an error of the wait), after the request is built, and after
  \<open>client.Do\<close>. \<open>Inl\<close> is a result, \<open>Inr\<close> goes on.
\<close>

definition failed_result :: "target \<Rightarrow> duration \<Rightarrow> mon_err \<Rightarrow> time \<Rightarrow> result" where
  "failed_result t d e now = \<lparr>Target = t, StatusCode = 0, Duration = d, Err = Some e, CheckedAt = now\<rparr>"

definition checkOne_domain :: "target \<Rightarrow> time \<Rightarrow> result + string" where
  "checkOne_domain t now =
     (case domainOf (URL t) of
        Inl e \<Rightarrow> Inl (failed_result t 0 (ParseTargetURL e) now)
      | Inr domain \<Rightarrow> Inr domain)"

definition checkOne_waited :: "target \<Rightarrow> time \<Rightarrow> wait_err option \<Rightarrow> result + unit" where
  "checkOne_waited t now answer =
     (case answer of
        Some e \<Rightarrow> Inl (failed_result t 0 (RateLimitWait e) now)
      | None \<Rightarrow> Inr ())"

definition checkOne_build :: "target \<Rightarrow> time \<Rightarrow> result + unit" where
  "checkOne_build t now =
     (case NewRequest (URL t) of
        Inl e \<Rightarrow> Inl (failed_result t 0 (BuildRequest e) now)
      | Inr _ \<Rightarrow> Inr ())"

definition checkOne_done :: "target \<Rightarrow> time \<Rightarrow> duration \<Rightarrow> do_answer \<Rightarrow> result" where
  "checkOne_done t now elapsed answer =
     (case answer of
        DoError e \<Rightarrow> failed_result t elapsed (RequestFailed e) now
      | DoResponse code \<Rightarrow>
          \<lparr>Target = t, StatusCode = code, Duration = elapsed, Err = None, CheckedAt = now\<rparr>)"

text \<open>The calls a check makes to the outside, and its answers.\<close>

datatype ext_call = LimiterWait string | ClientDo string

record answers =
  an_now :: time
  an_wait :: "wait_err option"
  an_do :: do_answer
  an_elapsed :: duration

definition checkOne_request :: "target \<Rightarrow> answers \<Rightarrow> result \<times> ext_call list" where
  "checkOne_request t a =
     (case checkOne_build t (an_now a) of
        Inl r \<Rightarrow> (r, [])
      | Inr _ \<Rightarrow> (checkOne_done t (an_now a) (an_elapsed a) (an_do a), [ClientDo (URL t)]))"

definition checkOne :: "bool \<Rightarrow> target \<Rightarrow> answers \<Rightarrow> result \<times> ext_call list" where
  "checkOne has_limiter t a =
     (case checkOne_domain t (an_now a) of
        Inl r \<Rightarrow> (r, [])
      | Inr domain \<Rightarrow>
          (if has_limiter then
             (case checkOne_waited t (an_now a) (an_wait a) of
                Inl r \<Rightarrow> (r, [LimiterWait domain])
              | Inr _ \<Rightarrow> (case checkOne_request t a of (r, calls) \<Rightarrow> (r, LimiterWait domain # calls)))
           else checkOne_request t a))"

lemmas check_parts = checkOne_domain_def checkOne_waited_def checkOne_build_def checkOne_done_def failed_result_def

section \<open>Facts\<close>

lemma failed_result_simps [simp]:
  "Target (failed_result t d e now) = t" "StatusCode (failed_result t d e now) = 0"
  "Duration (failed_result t d e now) = d" "Err (failed_result t d e now) = Some e"
  "CheckedAt (failed_result t d e now) = now" "Failed (failed_result t d e now)"
  by (simp_all add: failed_result_def Failed_def)

lemma failed_result_inject [simp]:
  "failed_result t d e now = failed_result t' d' e' now' \<longleftrightarrow> t = t' \<and> d = d' \<and> e = e' \<and> now = now'"
  by (auto simp: failed_result_def)

lemma build_after_domain: "checkOne_domain t now = Inr domain \<Longrightarrow> checkOne_build t now' = Inr ()"
  by (auto simp: checkOne_domain_def checkOne_build_def domainOf_def NewRequest_def split: sum.splits if_splits)

lemma domain_nonempty: "checkOne_domain t now = Inr domain \<Longrightarrow> domain \<noteq> []"
  by (auto simp: checkOne_domain_def domainOf_def split: sum.splits if_splits)

lemma checkOne_target: "Target (fst (checkOne has_limiter t a)) = t"
  by (auto simp: checkOne_def checkOne_request_def check_parts
      split: sum.splits option.splits do_answer.splits)

section \<open>Properties\<close>

text \<open>
  A check asks the limiter before the network. \<open>checkOne\<close> makes at most one
  call to the limiter, for the host name of the target's URL, and at most one
  request, for the URL itself; the request is made exactly when the URL has a host
  and the limiter (if there is one) let the check through, always after the wait.
\<close>

theorem checkOne_calls:
  "snd (checkOne has_limiter t a) =
     (case domainOf (URL t) of
        Inl _ \<Rightarrow> []
      | Inr domain \<Rightarrow>
          (if has_limiter then [LimiterWait domain] else []) @
          (if has_limiter \<and> an_wait a \<noteq> None then [] else [ClientDo (URL t)]))"
proof (cases "domainOf (URL t)")
  case (Inl e)
  then show ?thesis by (simp add: checkOne_def checkOne_domain_def)
next
  case (Inr domain)
  then have dom: "checkOne_domain t (an_now a) = Inr domain" by (simp add: checkOne_domain_def)
  from build_after_domain [OF this] have "checkOne_build t (an_now a) = Inr ()" .
  with dom Inr show ?thesis
    by (simp add: checkOne_def checkOne_request_def checkOne_waited_def split: option.split)
qed

text \<open>
  The outcome of a check on every branch. A result keeps its target and the
  start time of the check; its error tells which stage failed: no host, the limiter,
  or the request. The branch for a request that cannot be built is never taken,
  because the URL has been parsed before. A status code is present exactly when no
  error is, and only a request has a duration.
\<close>

theorem checkOne_outcome:
  "fst (checkOne has_limiter t a) =
     (case domainOf (URL t) of
        Inl e \<Rightarrow> failed_result t 0 (ParseTargetURL e) (an_now a)
      | Inr _ \<Rightarrow>
          (case (if has_limiter then an_wait a else None) of
             Some e \<Rightarrow> failed_result t 0 (RateLimitWait e) (an_now a)
           | None \<Rightarrow> (case an_do a of
                 DoError e \<Rightarrow> failed_result t (an_elapsed a) (RequestFailed e) (an_now a)
               | DoResponse code \<Rightarrow>
                   \<lparr>Target = t, StatusCode = code, Duration = an_elapsed a, Err = None, CheckedAt = an_now a\<rparr>)))"
proof (cases "domainOf (URL t)")
  case (Inl e)
  then show ?thesis by (simp add: checkOne_def checkOne_domain_def)
next
  case (Inr domain)
  then have dom: "checkOne_domain t (an_now a) = Inr domain" by (simp add: checkOne_domain_def)
  from build_after_domain [OF this] have "checkOne_build t (an_now a) = Inr ()" .
  with dom Inr show ?thesis
    by (simp add: checkOne_def checkOne_request_def checkOne_waited_def checkOne_done_def
        split: option.split do_answer.split)
qed

text \<open>
  What counts as down. A check is a failure unless it reached the server and
  the server answered with a status of the 2xx or 3xx range: a missing host, an
  interrupted wait, a transport error and every other status are failures.
\<close>

theorem Failed_checkOne_iff:
  "\<not> Failed (fst (checkOne has_limiter t a)) \<longleftrightarrow>
     (\<exists>domain code. domainOf (URL t) = Inr domain \<and> (if has_limiter then an_wait a else None) = None \<and>
        an_do a = DoResponse code \<and> 200 \<le> code \<and> code < 400)"
  unfolding checkOne_outcome by (auto simp: Failed_def split: sum.splits option.splits do_answer.splits)

end
