(* ===== verification/Pool_System.thy ===== *)
theory Pool_System
  imports Monitor_Check Metrics Go_Runtime
begin

text \<open>
  \<open>Pool\<close> and \<open>Pool.Check\<close> of \<open>internal/monitor/monitor.go\<close>: one goroutine per target,
  the semaphore, the metrics recorder and the slice of results, as a step relation
  over the atomic actions of the goroutines. \<open>cs_calls\<close> is the log of the calls to
  the recorder.
\<close>

section \<open>The pool\<close>

record pool =
  pl_limiter :: bool     \<comment> \<open>\<open>p.limiter != nil\<close>; likewise the three below\<close>
  pl_store :: bool
  pl_publisher :: bool
  pl_metrics :: bool
  checkTimeout :: duration
  sem :: "unit chan"

definition Pool_New :: "bool \<Rightarrow> bool \<Rightarrow> i64 \<Rightarrow> duration \<Rightarrow> bool \<Rightarrow> pool" where
  "Pool_New limiter store maxWorkers timeout pub =
     \<lparr>pl_limiter = limiter, pl_store = store, pl_publisher = pub, pl_metrics = False,
      checkTimeout = timeout,
      sem = make_chan (nat (sint (if i64_lt maxWorkers 1 then 1 else maxWorkers)))\<rparr>"

definition SetMetrics :: "bool \<Rightarrow> pool \<Rightarrow> pool" where
  "SetMetrics m p = p\<lparr>pl_metrics := m\<rparr>"

lemma Pool_New_cap: "1 \<le> ch_cap (sem (Pool_New l s w t p))"
proof (cases "sint w < 1")
  case False
  then have "1 \<le> nat (sint w)" by linarith
  with False show ?thesis by (simp add: Pool_New_def)
qed (simp add: Pool_New_def)

section \<open>A goroutine of \<open>Check\<close>\<close>

datatype goroutine =
    Spawned                    \<comment> \<open>at the \<open>select\<close> on the semaphore and the context\<close>
  | Acquired                   \<comment> \<open>holds a slot\<close>
  | Started                    \<comment> \<open>\<open>CheckStarted\<close> called, about to enter \<open>checkOne\<close>\<close>
  | InLimiter time string      \<comment> \<open>blocked in \<open>limiter.Wait\<close> for this domain\<close>
  | Building time
  | InRequest time             \<comment> \<open>blocked in \<open>client.Do\<close>\<close>
  | Checked result             \<comment> \<open>\<open>checkOne\<close> has returned\<close>
  | Reported result            \<comment> \<open>\<open>CheckFinished\<close> called\<close>
  | Written result             \<comment> \<open>\<open>results[i]\<close> assigned, the slot not yet given back\<close>
  | Released result
  | Skipped                    \<comment> \<open>the context was done first; no slot was taken\<close>
  | Finished "result option"   \<comment> \<open>\<open>wg.Done\<close> called\<close>

text \<open>Goroutines only move forward through these stages, which are linearly ordered.\<close>

datatype stage = AtSelect | Holding | Checking | Waiting | Preparing | Requesting | HasResult | Counted | Stored
  | GaveBack | AllDone

fun stage_rank :: "stage \<Rightarrow> nat" where
  "stage_rank AtSelect = 0"
| "stage_rank Holding = 1"
| "stage_rank Checking = 2"
| "stage_rank Waiting = 3"
| "stage_rank Preparing = 4"
| "stage_rank Requesting = 5"
| "stage_rank HasResult = 6"
| "stage_rank Counted = 7"
| "stage_rank Stored = 8"
| "stage_rank GaveBack = 9"
| "stage_rank AllDone = 10"

lemma stage_rank_inj: "stage_rank a = stage_rank b \<Longrightarrow> a = b"
  by (cases a; cases b) simp_all

lemma stage_rank_le: "stage_rank a \<le> 10"
  by (cases a) simp_all

instantiation stage :: linorder
begin

definition less_eq_stage :: "stage \<Rightarrow> stage \<Rightarrow> bool" where
  "less_eq_stage a b \<longleftrightarrow> stage_rank a \<le> stage_rank b"

definition less_stage :: "stage \<Rightarrow> stage \<Rightarrow> bool" where
  "less_stage a b \<longleftrightarrow> stage_rank a < stage_rank b"

instance
  by intro_classes (auto simp: less_eq_stage_def less_stage_def dest: stage_rank_inj)

end

fun stage_of :: "goroutine \<Rightarrow> stage" where
  "stage_of Spawned = AtSelect"
| "stage_of Acquired = Holding"
| "stage_of Started = Checking"
| "stage_of (InLimiter now d) = Waiting"
| "stage_of (Building now) = Preparing"
| "stage_of (InRequest now) = Requesting"
| "stage_of (Checked r) = HasResult"
| "stage_of (Reported r) = Counted"
| "stage_of (Written r) = Stored"
| "stage_of (Released r) = GaveBack"
| "stage_of Skipped = GaveBack"
| "stage_of (Finished r) = AllDone"

definition holds_slot :: "goroutine \<Rightarrow> bool" where
  "holds_slot g \<longleftrightarrow> Holding \<le> stage_of g \<and> stage_of g \<le> Stored"

text \<open>The result a goroutine carries, and whether it has been counted.\<close>

fun result_of :: "goroutine \<Rightarrow> result option" where
  "result_of (Checked r) = Some r"
| "result_of (Reported r) = Some r"
| "result_of (Written r) = Some r"
| "result_of (Released r) = Some r"
| "result_of (Finished r) = r"
| "result_of _ = None"

definition was_started :: "goroutine \<Rightarrow> bool" where
  "was_started g \<longleftrightarrow> Checking \<le> stage_of g \<and> (GaveBack \<le> stage_of g \<longrightarrow> result_of g \<noteq> None)"

definition was_reported :: "goroutine \<Rightarrow> bool" where
  "was_reported g \<longleftrightarrow> Counted \<le> stage_of g \<and> result_of g \<noteq> None"

definition reported_failed :: "goroutine \<Rightarrow> bool" where
  "reported_failed g \<longleftrightarrow> was_reported g \<and> Failed (the (result_of g))"

lemma goroutine_views [simp]:
  "\<not> holds_slot Spawned" "holds_slot Acquired" "holds_slot Started" "holds_slot (InLimiter now d)"
  "holds_slot (Building now)" "holds_slot (InRequest now)" "holds_slot (Checked r)" "holds_slot (Reported r)"
  "holds_slot (Written r)" "\<not> holds_slot (Released r)" "\<not> holds_slot Skipped" "\<not> holds_slot (Finished ro)"
  "\<not> was_started Spawned" "\<not> was_started Acquired" "was_started Started" "was_started (InLimiter now d)"
  "was_started (Building now)" "was_started (InRequest now)" "was_started (Checked r)" "was_started (Reported r)"
  "was_started (Written r)" "was_started (Released r)" "\<not> was_started Skipped"
  "was_started (Finished ro) \<longleftrightarrow> ro \<noteq> None"
  "\<not> was_reported Spawned" "\<not> was_reported Acquired" "\<not> was_reported Started" "\<not> was_reported (InLimiter now d)"
  "\<not> was_reported (Building now)" "\<not> was_reported (InRequest now)" "\<not> was_reported (Checked r)" "was_reported (Reported r)"
  "was_reported (Written r)" "was_reported (Released r)" "\<not> was_reported Skipped"
  "was_reported (Finished ro) \<longleftrightarrow> ro \<noteq> None"
  by (simp_all add: holds_slot_def was_started_def was_reported_def less_eq_stage_def)

section \<open>The step relation\<close>

record check_sys =
  cs_pool :: pool
  cs_targets :: "target list"
  cs_ctx :: "ctx_err option"
  cs_pc :: "goroutine list"
  cs_results :: "result list"
  cs_calls :: "metric_call list"

definition Check_init :: "pool \<Rightarrow> target list \<Rightarrow> check_sys \<Rightarrow> bool" where
  "Check_init p targets s \<longleftrightarrow>
     cs_pool s = p \<and> cs_targets s = targets \<and> cs_pc s = replicate (length targets) Spawned \<and>
     cs_results s = replicate (length targets) zero_result \<and> cs_calls s = []"

abbreviation "pc_at s i \<equiv> cs_pc s ! i"

definition set_pc :: "nat \<Rightarrow> goroutine \<Rightarrow> check_sys \<Rightarrow> check_sys" where
  "set_pc i g s = s\<lparr>cs_pc := (cs_pc s)[i := g]\<rparr>"

definition call_metrics :: "metric_call \<Rightarrow> check_sys \<Rightarrow> check_sys" where
  "call_metrics c s = (if pl_metrics (cs_pool s) then s\<lparr>cs_calls := cs_calls s @ [c]\<rparr> else s)"

definition set_sem :: "unit chan \<Rightarrow> check_sys \<Rightarrow> check_sys" where
  "set_sem c s = s\<lparr>cs_pool := (cs_pool s)\<lparr>sem := c\<rparr>\<rparr>"

definition write_result :: "nat \<Rightarrow> result \<Rightarrow> check_sys \<Rightarrow> check_sys" where
  "write_result i r s = s\<lparr>cs_results := (cs_results s)[i := r]\<rparr>"

text \<open>Where a goroutine stands after the part of \<open>checkOne\<close> before the limiter, and so on.\<close>

definition after_domain :: "bool \<Rightarrow> target \<Rightarrow> time \<Rightarrow> goroutine" where
  "after_domain has_limiter t now =
     (case checkOne_domain t now of
        Inl r \<Rightarrow> Checked r
      | Inr domain \<Rightarrow> (if has_limiter then InLimiter now domain else Building now))"

definition after_wait :: "target \<Rightarrow> time \<Rightarrow> wait_err option \<Rightarrow> goroutine" where
  "after_wait t now answer = (case checkOne_waited t now answer of Inl r \<Rightarrow> Checked r | Inr _ \<Rightarrow> Building now)"

definition after_build :: "target \<Rightarrow> time \<Rightarrow> goroutine" where
  "after_build t now = (case checkOne_build t now of Inl r \<Rightarrow> Checked r | Inr _ \<Rightarrow> InRequest now)"

datatype pevent =
    Acquire nat | SkipCheck nat time | StartCheck nat | Domain nat time
  | LimiterReturns nat "wait_err option" | BuildReq nat | RequestReturns nat duration do_answer
  | FinishCheck nat | WriteResult nat | Release nat | WgDone nat | CtxEnds_check ctx_err

inductive pstep :: "check_sys \<Rightarrow> pevent \<Rightarrow> check_sys \<Rightarrow> bool" where
  acquire: "i < length (cs_pc s) \<Longrightarrow> pc_at s i = Spawned \<Longrightarrow>
     length (ch_buf (sem (cs_pool s))) < ch_cap (sem (cs_pool s)) \<Longrightarrow>
     try_send () (sem (cs_pool s)) = Inr c \<Longrightarrow>
     pstep s (Acquire i) (set_pc i Acquired (set_sem c s))"
| skip_check: "i < length (cs_pc s) \<Longrightarrow> pc_at s i = Spawned \<Longrightarrow> cs_ctx s = Some e \<Longrightarrow>
     pstep s (SkipCheck i now)
       (set_pc i Skipped (write_result i (failed_result (cs_targets s ! i) 0 (CtxE e) now) s))"
| start: "i < length (cs_pc s) \<Longrightarrow> pc_at s i = Acquired \<Longrightarrow>
     pstep s (StartCheck i) (set_pc i Started (call_metrics CallStarted s))"
| domain: "i < length (cs_pc s) \<Longrightarrow> pc_at s i = Started \<Longrightarrow>
     pstep s (Domain i now) (set_pc i (after_domain (pl_limiter (cs_pool s)) (cs_targets s ! i) now) s)"
| limiter_returns: "i < length (cs_pc s) \<Longrightarrow> pc_at s i = InLimiter now d \<Longrightarrow>
     pstep s (LimiterReturns i answer) (set_pc i (after_wait (cs_targets s ! i) now answer) s)"
| build: "i < length (cs_pc s) \<Longrightarrow> pc_at s i = Building now \<Longrightarrow>
     pstep s (BuildReq i) (set_pc i (after_build (cs_targets s ! i) now) s)"
| request_returns: "i < length (cs_pc s) \<Longrightarrow> pc_at s i = InRequest now \<Longrightarrow>
     pstep s (RequestReturns i elapsed answer)
       (set_pc i (Checked (checkOne_done (cs_targets s ! i) now elapsed answer)) s)"
| finish: "i < length (cs_pc s) \<Longrightarrow> pc_at s i = Checked r \<Longrightarrow>
     pstep s (FinishCheck i) (set_pc i (Reported r) (call_metrics (CallFinished (Failed r)) s))"
| store_result: "i < length (cs_pc s) \<Longrightarrow> pc_at s i = Reported r \<Longrightarrow>
     pstep s (WriteResult i) (set_pc i (Written r) (write_result i r s))"
| release: "i < length (cs_pc s) \<Longrightarrow> pc_at s i = Written r \<Longrightarrow>
     recv (sem (cs_pool s)) = Some (Some (), c) \<Longrightarrow>
     pstep s (Release i) (set_pc i (Released r) (set_sem c s))"
| wg_done_ran: "i < length (cs_pc s) \<Longrightarrow> pc_at s i = Released r \<Longrightarrow>
     pstep s (WgDone i) (set_pc i (Finished (Some r)) s)"
| wg_done_skipped: "i < length (cs_pc s) \<Longrightarrow> pc_at s i = Skipped \<Longrightarrow>
     pstep s (WgDone i) (set_pc i (Finished None) s)"
| ctx_ends: "cs_ctx s = None \<Longrightarrow> pstep s (CtxEnds_check e) (s\<lparr>cs_ctx := Some e\<rparr>)"

inductive_simps pstep_acquire_iff: "pstep s (Acquire i) t"
inductive_simps pstep_skip_iff: "pstep s (SkipCheck i now) t"

lemmas pstep_ops [step_defs] = set_pc_def call_metrics_def set_sem_def write_result_def
lemmas pstep_afters = after_domain_def after_wait_def after_build_def

text \<open>\<open>wg.Wait\<close> returns when every goroutine has called \<open>Done\<close>.\<close>

definition Check_done :: "check_sys \<Rightarrow> bool" where
  "Check_done s \<longleftrightarrow> (\<forall>g \<in> set (cs_pc s). \<exists>r. g = Finished r)"

end
