(* ===== verification/Pool_Invariant.thy ===== *)
theory Pool_Invariant
  imports Pool_System
begin

text \<open>
  The invariant of \<open>Pool.Check\<close>: the semaphore holds one token per goroutine that
  has a slot, the log of the metrics agrees with the stages, every goroutine writes
  its own entry of the results and nothing else, and what it writes is what
  \<open>checkOne\<close> returns.
\<close>

section \<open>The invariant\<close>

fun gor_ok :: "bool \<Rightarrow> ctx_err option \<Rightarrow> target \<Rightarrow> goroutine \<Rightarrow> result \<Rightarrow> bool" where
  "gor_ok L ctx t Spawned r \<longleftrightarrow> r = zero_result"
| "gor_ok L ctx t Acquired r \<longleftrightarrow> r = zero_result"
| "gor_ok L ctx t Started r \<longleftrightarrow> r = zero_result"
| "gor_ok L ctx t (InLimiter now d) r \<longleftrightarrow> L \<and> checkOne_domain t now = Inr d \<and> r = zero_result"
| "gor_ok L ctx t (Building now) r \<longleftrightarrow> (\<exists>d. checkOne_domain t now = Inr d) \<and> r = zero_result"
| "gor_ok L ctx t (InRequest now) r \<longleftrightarrow> (\<exists>d. checkOne_domain t now = Inr d) \<and> r = zero_result"
| "gor_ok L ctx t (Checked x) r \<longleftrightarrow> (\<exists>a. x = fst (checkOne L t a)) \<and> r = zero_result"
| "gor_ok L ctx t (Reported x) r \<longleftrightarrow> (\<exists>a. x = fst (checkOne L t a)) \<and> r = zero_result"
| "gor_ok L ctx t (Written x) r \<longleftrightarrow> (\<exists>a. x = fst (checkOne L t a)) \<and> r = x"
| "gor_ok L ctx t (Released x) r \<longleftrightarrow> (\<exists>a. x = fst (checkOne L t a)) \<and> r = x"
| "gor_ok L ctx t Skipped r \<longleftrightarrow> (\<exists>e now. ctx = Some e \<and> r = failed_result t 0 (CtxE e) now)"
| "gor_ok L ctx t (Finished (Some x)) r \<longleftrightarrow> (\<exists>a. x = fst (checkOne L t a)) \<and> r = x"
| "gor_ok L ctx t (Finished None) r \<longleftrightarrow> (\<exists>e now. ctx = Some e \<and> r = failed_result t 0 (CtxE e) now)"

definition calls_ok :: "metric_call list \<Rightarrow> goroutine list \<Rightarrow> bool" where
  "calls_ok calls gs \<longleftrightarrow> n_started calls = count_of was_started gs \<and>
     n_finished calls = count_of was_reported gs \<and> n_failed calls = count_of reported_failed gs"

definition pool_idle :: "pool \<Rightarrow> bool" where
  "pool_idle p \<longleftrightarrow> 1 \<le> ch_cap (sem p) \<and> ch_buf (sem p) = [] \<and> \<not> ch_closed (sem p)"

lemma Pool_New_idle: "pool_idle (Pool_New l s w t pub)"
  using Pool_New_cap [of l s w t pub] by (simp add: pool_idle_def Pool_New_def)

lemma SetMetrics_idle [simp]: "pool_idle (SetMetrics m p) \<longleftrightarrow> pool_idle p"
  by (simp add: pool_idle_def SetMetrics_def)

definition sem_ok :: "pool \<Rightarrow> check_sys \<Rightarrow> bool" where
  "sem_ok p s \<longleftrightarrow> (let c = sem (cs_pool s) in cs_pool s = p\<lparr>sem := c\<rparr> \<and>
     ch_cap c = ch_cap (sem p) \<and> \<not> ch_closed c \<and>
     length (ch_buf c) = count_of holds_slot (cs_pc s) \<and> length (ch_buf c) \<le> ch_cap c)"

definition check_inv :: "pool \<Rightarrow> target list \<Rightarrow> check_sys \<Rightarrow> bool" where
  "check_inv p ts s \<longleftrightarrow>
     cs_targets s = ts \<and> length (cs_pc s) = length ts \<and> length (cs_results s) = length ts \<and>
     sem_ok p s \<and>
     (\<forall>i < length ts. gor_ok (pl_limiter p) (cs_ctx s) (ts ! i) (pc_at s i) (cs_results s ! i)) \<and>
     (if pl_metrics p then calls_ok (cs_calls s) (cs_pc s) else cs_calls s = [])"

lemma check_inv_init: "Check_init p ts s \<Longrightarrow> pool_idle p \<Longrightarrow> check_inv p ts s"
  by (auto simp: Check_init_def check_inv_def pool_idle_def calls_ok_def reported_failed_def sem_ok_def)

section \<open>One goroutine moves\<close>

abbreviation bit :: "bool \<Rightarrow> nat" where "bit b \<equiv> if b then 1 else 0"

lemma check_inv_move:
  assumes inv: "check_inv p ts s" and i: "i < length (cs_pc s)"
    and pool: "cs_pool t = (cs_pool s)\<lparr>sem := c\<rparr>"
    and pc: "cs_pc t = (cs_pc s)[i := g]" and res': "(cs_results s)[i := r] = cs_results t"
    and frame: "cs_targets t = cs_targets s" "cs_ctx t = cs_ctx s"
    and ok: "gor_ok (pl_limiter p) (cs_ctx s) (ts ! i) g r"
    and cap: "ch_cap c = ch_cap (sem p)" "\<not> ch_closed c" "length (ch_buf c) \<le> ch_cap c"
    and tokens: "length (ch_buf c) + bit (holds_slot (pc_at s i)) = length (ch_buf (sem (cs_pool s))) + bit (holds_slot g)"
    and calls: "if pl_metrics p then
        n_started (cs_calls t) + bit (was_started (pc_at s i)) = n_started (cs_calls s) + bit (was_started g) \<and>
        n_finished (cs_calls t) + bit (was_reported (pc_at s i)) = n_finished (cs_calls s) + bit (was_reported g) \<and>
        n_failed (cs_calls t) + bit (reported_failed (pc_at s i)) = n_failed (cs_calls s) + bit (reported_failed g)
      else cs_calls t = cs_calls s"
  shows "check_inv p ts t"
proof -
  note count = count_of_update [OF i] and res = res' [symmetric]
  from inv have c0: "cs_pool s = p\<lparr>sem := sem (cs_pool s)\<rparr>"
      "length (ch_buf (sem (cs_pool s))) = count_of holds_slot (cs_pc s)"
    by (auto simp: check_inv_def sem_ok_def Let_def)
  have "length (ch_buf c) = count_of holds_slot (cs_pc t)"
    using tokens c0(2) count [of holds_slot g] by (simp add: pc)
  moreover have "cs_pool t = p\<lparr>sem := c\<rparr>" using pool c0(1) by (metis pool.surjective pool.update_convs(6))
  ultimately have "sem_ok p t" using cap by (simp add: sem_ok_def)
  moreover have "if pl_metrics p then calls_ok (cs_calls t) (cs_pc t) else cs_calls t = []"
  proof (cases "pl_metrics p")
    case True
    with inv have old: "n_started (cs_calls s) = count_of was_started (cs_pc s)"
      "n_finished (cs_calls s) = count_of was_reported (cs_pc s)"
      "n_failed (cs_calls s) = count_of reported_failed (cs_pc s)"
      by (simp_all add: check_inv_def calls_ok_def)
    from True calls have new:
      "n_started (cs_calls t) + bit (was_started (pc_at s i)) = n_started (cs_calls s) + bit (was_started g)"
      "n_finished (cs_calls t) + bit (was_reported (pc_at s i)) = n_finished (cs_calls s) + bit (was_reported g)"
      "n_failed (cs_calls t) + bit (reported_failed (pc_at s i)) = n_failed (cs_calls s) + bit (reported_failed g)"
      by simp_all
    have "n_started (cs_calls t) = count_of was_started (cs_pc t)"
      using new(1) old(1) count [of was_started g] by (simp add: pc)
    moreover have "n_finished (cs_calls t) = count_of was_reported (cs_pc t)"
      using new(2) old(2) count [of was_reported g] by (simp add: pc)
    moreover have "n_failed (cs_calls t) = count_of reported_failed (cs_pc t)"
      using new(3) old(3) count [of reported_failed g] by (simp add: pc)
    ultimately show ?thesis using True by (simp add: calls_ok_def)
  next
    case False
    with calls inv show ?thesis by (simp add: check_inv_def)
  qed
  moreover have "gor_ok (pl_limiter p) (cs_ctx t) (ts ! j) (pc_at t j) (cs_results t ! j)" if "j < length ts" for j
    using that inv i ok frame by (cases "j = i") (simp_all add: check_inv_def pc res)
  ultimately show ?thesis using inv frame pc res by (simp add: check_inv_def)
qed

text \<open>The same for a step that touches neither the semaphore, the results nor the metrics.\<close>

lemma check_inv_set_pc:
  assumes inv: "check_inv p ts s" and i: "i < length (cs_pc s)"
    and ok: "gor_ok (pl_limiter p) (cs_ctx s) (ts ! i) g (cs_results s ! i)"
    and same: "holds_slot g = holds_slot (pc_at s i)" "was_started g = was_started (pc_at s i)"
      "was_reported g = was_reported (pc_at s i)" "reported_failed g = reported_failed (pc_at s i)"
  shows "check_inv p ts (set_pc i g s)"
proof -
  have c: "ch_cap (sem (cs_pool s)) = ch_cap (sem p)" "\<not> ch_closed (sem (cs_pool s))"
    "length (ch_buf (sem (cs_pool s))) \<le> ch_cap (sem (cs_pool s))"
    using inv by (simp_all add: check_inv_def sem_ok_def Let_def)
  have "i < length (cs_results s)" using inv i by (simp add: check_inv_def)
  then show ?thesis
    using c same ok by (intro check_inv_move [OF inv i, where c = "sem (cs_pool s)" and g = g and r = "cs_results s ! i"]) (simp_all add: set_pc_def)
qed

section \<open>What the parts of \<open>checkOne\<close> leave\<close>

lemma after_domain_ok:
  "gor_ok L ctx t (after_domain L t now) zero_result"
proof (cases "checkOne_domain t now")
  case (Inl r)
  then have "r = fst (checkOne L t \<lparr>an_now = now, an_wait = None, an_do = DoResponse 0, an_elapsed = 0\<rparr>)"
    by (simp add: checkOne_def)
  with Inl show ?thesis unfolding after_domain_def by (simp) blast
qed (simp add: after_domain_def)

lemma after_wait_ok:
  assumes "gor_ok L ctx t (InLimiter now d) r"
  shows "gor_ok L ctx t (after_wait t now answer) r"
proof (cases "checkOne_waited t now answer")
  case (Inl x)
  then have "x = fst (checkOne L t \<lparr>an_now = now, an_wait = answer, an_do = DoResponse 0, an_elapsed = 0\<rparr>)"
    using assms by (simp add: checkOne_def)
  with Inl assms show ?thesis unfolding after_wait_def by simp blast
next
  case (Inr x)
  with assms show ?thesis by (auto simp: after_wait_def)
qed

lemma after_build_eq:
  assumes "gor_ok L ctx t (Building now) r"
  shows "after_build t now = InRequest now"
proof -
  from assms obtain d where "checkOne_domain t now = Inr d" by auto
  from build_after_domain [OF this, of now] show ?thesis by (simp add: after_build_def)
qed

lemma after_request_ok:
  assumes "gor_ok L ctx t (InRequest now) r"
  shows "gor_ok L ctx t (Checked (checkOne_done t now elapsed answer)) r"
proof -
  from assms obtain d where d: "checkOne_domain t now = Inr d" by auto
  let ?a = "\<lparr>an_now = now, an_wait = None, an_do = answer, an_elapsed = elapsed\<rparr>"
  have "checkOne_done t now elapsed answer = fst (checkOne L t ?a)"
    using d build_after_domain [OF d, of now] by (simp add: checkOne_def checkOne_request_def checkOne_waited_def)
  then have "\<exists>a. checkOne_done t now elapsed answer = fst (checkOne L t a)" by (rule exI)
  with assms show ?thesis by simp
qed

lemma after_views:
  "holds_slot (after_domain L t now)" "was_started (after_domain L t now)"
  "\<not> was_reported (after_domain L t now)" "\<not> reported_failed (after_domain L t now)"
  "holds_slot (after_wait t now a)" "was_started (after_wait t now a)"
  "\<not> was_reported (after_wait t now a)" "\<not> reported_failed (after_wait t now a)"
  by (auto simp: pstep_afters reported_failed_def split: sum.splits)

section \<open>Every step keeps the invariant\<close>

lemma check_inv_sem:
  assumes "check_inv p ts s"
  shows "cs_pool s = p\<lparr>sem := sem (cs_pool s)\<rparr>" "ch_cap (sem (cs_pool s)) = ch_cap (sem p)"
    "\<not> ch_closed (sem (cs_pool s))" "length (ch_buf (sem (cs_pool s))) = count_of holds_slot (cs_pc s)"
    "length (ch_buf (sem (cs_pool s))) \<le> ch_cap (sem (cs_pool s))"
  using assms unfolding check_inv_def sem_ok_def Let_def by blast+

lemma check_inv_flags:
  "check_inv p ts s \<Longrightarrow> pl_limiter (cs_pool s) = pl_limiter p \<and> pl_metrics (cs_pool s) = pl_metrics p"
  by (drule check_inv_sem(1), metis pool.select_convs(1,4) pool.surjective pool.update_convs(6))

lemma check_inv_gor:
  assumes "check_inv p ts s" and "i < length (cs_pc s)"
  shows "gor_ok (pl_limiter p) (cs_ctx s) (ts ! i) (pc_at s i) (cs_results s ! i)" "i < length (cs_results s)"
    "cs_targets s ! i = ts ! i"
  using assms by (simp_all add: check_inv_def)

lemma call_metrics_views:
  "cs_pool (call_metrics c s) = cs_pool s" "cs_pc (call_metrics c s) = cs_pc s"
  "cs_results (call_metrics c s) = cs_results s" "cs_targets (call_metrics c s) = cs_targets s"
  "cs_ctx (call_metrics c s) = cs_ctx s"
  "cs_calls (call_metrics c s) = (if pl_metrics (cs_pool s) then cs_calls s @ [c] else cs_calls s)"
  by (simp_all add: call_metrics_def)

lemma check_inv_step:
  assumes "pstep s e t" and inv: "check_inv p ts s"
  shows "check_inv p ts t"
  using assms(1)
proof (cases rule: pstep.cases)
  case (acquire i c)
  note g = check_inv_gor [OF inv acquire(3)]
  from acquire(5,6) check_inv_sem [OF inv] have "c = sem (cs_pool s)\<lparr>ch_buf := ch_buf (sem (cs_pool s)) @ [()]\<rparr>"
    by (simp add: try_send_def)
  with acquire g check_inv_sem [OF inv] show ?thesis
    by (intro check_inv_move [OF inv acquire(3), where c = c and g = Acquired and r = "cs_results s ! i"])
      (simp_all add: set_pc_def set_sem_def reported_failed_def list_update_same_conv)
next
  case (skip_check i e now)
  note g = check_inv_gor [OF inv skip_check(3)]
  from skip_check g check_inv_sem [OF inv] show ?thesis
    by (intro check_inv_move [OF inv skip_check(3), where c = "sem (cs_pool s)" and g = Skipped
          and r = "failed_result (cs_targets s ! i) 0 (CtxE e) now"])
      (simp_all add: set_pc_def write_result_def reported_failed_def)
next
  case (start i)
  note g = check_inv_gor [OF inv start(3)]
  from start g check_inv_sem [OF inv] check_inv_flags [OF inv] show ?thesis
    by (intro check_inv_move [OF inv start(3), where c = "sem (cs_pool s)" and g = Started and r = "cs_results s ! i"])
      (simp_all add: set_pc_def call_metrics_views reported_failed_def list_update_same_conv)
next
  case (domain i now)
  note g = check_inv_gor [OF inv domain(3)]
  from g domain have "cs_results s ! i = zero_result" by simp
  with domain g check_inv_flags [OF inv] after_domain_ok [of "pl_limiter p" "cs_ctx s" "ts ! i" now] show ?thesis
    by (simp, intro check_inv_set_pc [OF inv domain(3)]) (simp_all add: after_views reported_failed_def)
next
  case (limiter_returns i now d answer)
  note g = check_inv_gor [OF inv limiter_returns(3)]
  from g limiter_returns have "gor_ok (pl_limiter p) (cs_ctx s) (ts ! i) (InLimiter now d) (cs_results s ! i)" by simp
  from after_wait_ok [OF this, of answer] limiter_returns g show ?thesis
    by (simp, intro check_inv_set_pc [OF inv limiter_returns(3)]) (simp_all add: after_views reported_failed_def)
next
  case (build i now)
  note g = check_inv_gor [OF inv build(3)]
  from g build have b: "gor_ok (pl_limiter p) (cs_ctx s) (ts ! i) (Building now) (cs_results s ! i)" by simp
  from after_build_eq [OF b] b build g show ?thesis
    by (simp, intro check_inv_set_pc [OF inv build(3)]) (simp_all add: reported_failed_def)
next
  case (request_returns i now elapsed answer)
  note g = check_inv_gor [OF inv request_returns(3)]
  from g request_returns have "gor_ok (pl_limiter p) (cs_ctx s) (ts ! i) (InRequest now) (cs_results s ! i)" by simp
  from after_request_ok [OF this, of elapsed answer] request_returns g show ?thesis
    by (simp only:, intro check_inv_set_pc [OF inv request_returns(3)]) (simp_all add: reported_failed_def)
next
  case (finish i r)
  note g = check_inv_gor [OF inv finish(3)]
  from finish g check_inv_sem [OF inv] check_inv_flags [OF inv] show ?thesis
    by (intro check_inv_move [OF inv finish(3), where c = "sem (cs_pool s)" and g = "Reported r" and r = "cs_results s ! i"])
      (simp_all add: set_pc_def call_metrics_views reported_failed_def list_update_same_conv)
next
  case (store_result i r)
  note g = check_inv_gor [OF inv store_result(3)]
  from store_result g check_inv_sem [OF inv] show ?thesis
    by (intro check_inv_move [OF inv store_result(3), where c = "sem (cs_pool s)" and g = "Written r" and r = r])
      (simp_all add: set_pc_def write_result_def reported_failed_def)
next
  case (release i r c)
  note g = check_inv_gor [OF inv release(3)]
  from release(5) have c: "ch_buf (sem (cs_pool s)) = () # ch_buf c" "c = sem (cs_pool s)\<lparr>ch_buf := ch_buf c\<rparr>"
    by (simp_all add: recv_Some_iff)
  from c(2) have "ch_cap c = ch_cap (sem (cs_pool s))" "ch_closed c = ch_closed (sem (cs_pool s))"
    by (metis chan.select_convs(1) chan.surjective chan.update_convs(2), metis chan.select_convs(3) chan.surjective chan.update_convs(2))
  with c(1) release g check_inv_sem [OF inv] show ?thesis
    by (intro check_inv_move [OF inv release(3), where c = c and g = "Released r" and r = "cs_results s ! i"])
      (simp_all add: set_pc_def set_sem_def reported_failed_def list_update_same_conv)
next
  case (wg_done_ran i r)
  note g = check_inv_gor [OF inv wg_done_ran(3)]
  from wg_done_ran g show ?thesis
    by (simp, intro check_inv_set_pc [OF inv wg_done_ran(3)]) (simp_all add: reported_failed_def)
next
  case (wg_done_skipped i)
  note g = check_inv_gor [OF inv wg_done_skipped(3)]
  from wg_done_skipped g show ?thesis
    by (simp, intro check_inv_set_pc [OF inv wg_done_skipped(3)]) (simp_all add: reported_failed_def)
next
  case (ctx_ends e)
  have "gor_ok L (Some e) t g r" if "gor_ok L None t g r" for L t g r
    using that
  proof (cases g)
    case (Finished x)
    with that show ?thesis by (cases x) simp_all
  qed simp_all
  with ctx_ends inv show ?thesis by (simp add: check_inv_def sem_ok_def)
qed

end
