(* ===== verification/Pool_Props.thy ===== *)
theory Pool_Props
  imports Pool_Invariant
begin

text \<open>
  The properties of \<open>Pool.Check\<close>: the bound on concurrent checks, the order and the
  contents of the results, the balance of the metrics, termination, freedom from
  deadlock, and what the shared semaphore means for targets of different domains.
\<close>

section \<open>Stages and rank\<close>

definition check_rank :: "check_sys \<Rightarrow> nat" where
  "check_rank s = sum_list (map (\<lambda>g. 10 - stage_rank (stage_of g)) (cs_pc s)) + (if cs_ctx s = None then 1 else 0)"

lemma after_forward:
  "stage_rank Checking < stage_rank (stage_of (after_domain L t now))"
  "stage_rank Waiting < stage_rank (stage_of (after_wait t now a))"
  "stage_rank Preparing < stage_rank (stage_of (after_build t now))"
  by (auto simp: pstep_afters split: sum.splits)

lemma set_pc_views [simp]:
  "cs_pc (set_pc i g s) = (cs_pc s)[i := g]" "cs_ctx (set_pc i g s) = cs_ctx s"
  "cs_pc (set_sem c s) = cs_pc s" "cs_ctx (set_sem c s) = cs_ctx s"
  "cs_pc (write_result i r s) = cs_pc s" "cs_ctx (write_result i r s) = cs_ctx s"
  by (simp_all add: step_defs)

lemma pstep_forward:
  assumes "pstep s e t"
  shows "(\<exists>i g. i < length (cs_pc s) \<and> cs_pc t = (cs_pc s)[i := g] \<and> stage_of (pc_at s i) < stage_of g \<and>
       cs_ctx t = cs_ctx s) \<or>
     (cs_pc t = cs_pc s \<and> cs_ctx s = None \<and> cs_ctx t \<noteq> None)"
  using assms
proof (cases rule: pstep.cases)
  case (ctx_ends e)
  then show ?thesis by simp
qed (rule disjI1; force simp: call_metrics_views less_stage_def intro: after_forward [simplified])+

lemma check_rank_step: "pstep s e t \<Longrightarrow> check_rank t < check_rank s"
proof -
  assume step: "pstep s e t"
  from pstep_forward [OF this] consider (goroutine) i g where "i < length (cs_pc s)" "cs_pc t = (cs_pc s)[i := g]"
      "stage_of (pc_at s i) < stage_of g" "cs_ctx t = cs_ctx s"
    | (ended) "cs_pc t = cs_pc s" "cs_ctx s = None" "cs_ctx t \<noteq> None"
    by (elim disjE exE conjE)
  then show ?thesis
  proof cases
    case goroutine
    have "10 - stage_rank (stage_of g) < 10 - stage_rank (stage_of (pc_at s i))"
      using goroutine(3) stage_rank_le [of "stage_of g"] by (simp add: less_stage_def)
    from sum_list_update_less [where f = "\<lambda>g. 10 - stage_rank (stage_of g)", OF goroutine(1) this] goroutine
    show ?thesis by (simp add: check_rank_def)
  next
    case ended
    then show ?thesis by (simp add: check_rank_def)
  qed
qed

interpretation check_runs: ranked_system
  "\<lambda>s. Check_init p ts s \<and> pool_idle p" pstep "check_inv p ts" check_rank for p ts
  by unfold_locales (auto intro: check_inv_init check_inv_step check_rank_step)

lemma stages_forward:
  "run pstep s es t \<Longrightarrow> length (cs_pc t) = length (cs_pc s) \<and>
     (\<forall>i < length (cs_pc s). stage_of (pc_at s i) \<le> stage_of (pc_at t i))"
proof (induction rule: run.induct)
  case (run_nil s)
  then show ?case by simp
next
  case (run_cons s e t es u)
  then have "length (cs_pc t) = length (cs_pc s)" and
    "\<forall>i < length (cs_pc s). stage_of (pc_at s i) \<le> stage_of (pc_at t i)"
    using pstep_forward [OF run_cons(1)] by (auto simp: nth_list_update)
  with run_cons.IH show ?case by (auto intro: order.trans)
qed

section \<open>Something can always happen\<close>

text \<open>A step of some goroutine, not the end of the context.\<close>

definition can_work :: "check_sys \<Rightarrow> bool" where
  "can_work s \<longleftrightarrow> (\<exists>e t. pstep s e t \<and> cs_ctx t = cs_ctx s)"

lemma can_workI: "pstep s e t \<Longrightarrow> cs_ctx t = cs_ctx s \<Longrightarrow> can_work s"
  by (auto simp: can_work_def)

lemmas works =
  pstep.acquire [THEN can_workI] pstep.start [THEN can_workI] pstep.domain [THEN can_workI]
  pstep.limiter_returns [THEN can_workI] pstep.build [THEN can_workI] pstep.request_returns [THEN can_workI]
  pstep.finish [THEN can_workI] pstep.store_result [THEN can_workI] pstep.release [THEN can_workI]
  pstep.wg_done_ran [THEN can_workI] pstep.wg_done_skipped [THEN can_workI]

lemma goroutine_enabled:
  assumes inv: "check_inv p ts s" and i: "i < length (cs_pc s)" and g: "holds_slot (pc_at s i)"
  shows "can_work s"
proof (cases "pc_at s i")
  case (Written r)
  have "0 < count_of holds_slot (cs_pc s)" using count_of_pos [OF i] g by simp
  then obtain u us where "ch_buf (sem (cs_pool s)) = u # us"
    using check_inv_sem [OF inv] by (cases "ch_buf (sem (cs_pool s))") auto
  then have "recv (sem (cs_pool s)) = Some (Some (), sem (cs_pool s)\<lparr>ch_buf := us\<rparr>)" by (simp add: recv_def)
  with i Written show ?thesis by (intro works(9)) simp_all
next
  case Acquired
  with i show ?thesis by (rule works(2)) (simp add: call_metrics_views)
next
  case Started
  with i show ?thesis by (rule works(3)) simp
next
  case (InLimiter now d)
  with i show ?thesis by (rule works(4)) simp
next
  case (Building now)
  with i show ?thesis by (rule works(5)) simp
next
  case (InRequest now)
  with i show ?thesis by (rule works(6)) simp
next
  case (Checked r)
  with i show ?thesis by (rule works(7)) (simp add: call_metrics_views)
next
  case (Reported r)
  with i show ?thesis by (rule works(8)) simp
qed (use g in simp_all)

lemma Check_progress:
  assumes inv: "check_inv p ts s" and idle: "pool_idle p" and not_done: "\<not> Check_done s"
  shows "can_work s"
proof -
  from not_done obtain i where i: "i < length (cs_pc s)" and busy: "\<nexists>r. pc_at s i = Finished r"
    unfolding Check_done_def by (metis in_set_conv_nth)
  show ?thesis
  proof (cases "holds_slot (pc_at s i)")
    case True
    with inv i show ?thesis by (rule goroutine_enabled)
  next
    case False
    then consider (spawned) "pc_at s i = Spawned" | (released) r where "pc_at s i = Released r"
      | (skipped) "pc_at s i = Skipped"
      using busy by (cases "pc_at s i") auto
    then show ?thesis
    proof cases
      case spawned
      show ?thesis
      proof (cases "length (ch_buf (sem (cs_pool s))) < ch_cap (sem (cs_pool s))")
        case True
        then have "try_send () (sem (cs_pool s)) = Inr (sem (cs_pool s)\<lparr>ch_buf := ch_buf (sem (cs_pool s)) @ [()]\<rparr>)"
          using check_inv_sem [OF inv] by (simp add: try_send_def)
        with True i spawned show ?thesis by (intro works(1)) simp_all
      next
        case False
        with check_inv_sem [OF inv] idle have "0 < count_of holds_slot (cs_pc s)"
          by (simp add: pool_idle_def)
        then obtain j where "j < length (cs_pc s)" "holds_slot (pc_at s j)"
          by (metis count_of_zero in_set_conv_nth less_numeral_extra(3))
        with inv show ?thesis by (rule goroutine_enabled)
      qed
    next
      case released
      with i show ?thesis by (rule works(10)) simp
    next
      case skipped
      with i show ?thesis by (rule works(11)) simp
    qed
  qed
qed

lemma Check_completes:
  "check_inv p ts s \<Longrightarrow> pool_idle p \<Longrightarrow> \<exists>es t. run pstep s es t \<and> Check_done t \<and> cs_ctx t = cs_ctx s"
proof (induction "check_rank s" arbitrary: s rule: less_induct)
  case less
  show ?case
  proof (cases "Check_done s")
    case True
    then show ?thesis by (blast intro: run_nil)
  next
    case False
    from Check_progress [OF less.prems False] obtain e t where e: "pstep s e t" "cs_ctx t = cs_ctx s"
      by (auto simp: can_work_def)
    from less.hyps [OF check_rank_step [OF e(1)] check_inv_step [OF e(1) less.prems(1)] less.prems(2)]
    obtain es u where "run pstep t es u" "Check_done u" "cs_ctx u = cs_ctx t" by blast
    with e show ?thesis by (auto intro: run_cons)
  qed
qed

lemma check_reachable_inv:
  "Check_init p ts s0 \<Longrightarrow> pool_idle p \<Longrightarrow> run pstep s0 es s \<Longrightarrow> check_inv p ts s"
  using check_runs.inv_reachable by blast

text \<open>Two targets of different domains and one worker: used by the witnesses.\<close>

definition demo_pool :: pool where
  "demo_pool = SetMetrics True (Pool_New True True 1 5000000000 True)"

definition demo_targets :: "target list" where
  "demo_targets = [\<lparr>ID = ''1'', URL = ''http://a/''\<rparr>, \<lparr>ID = ''2'', URL = ''http://b/''\<rparr>]"

definition demo_start :: check_sys where
  "demo_start = \<lparr>cs_pool = demo_pool, cs_targets = demo_targets, cs_ctx = None,
     cs_pc = [Spawned, Spawned], cs_results = [zero_result, zero_result], cs_calls = []\<rparr>"

lemma demo_init: "Check_init demo_pool demo_targets demo_start"
  by (simp add: Check_init_def demo_start_def demo_targets_def numeral_eq_Suc)

lemma demo_idle: "pool_idle demo_pool"
  by (simp add: demo_pool_def Pool_New_idle)

lemma demo_pool_simps [simp]: "ch_cap (sem demo_pool) = 1" "pl_metrics demo_pool" "pl_limiter demo_pool"
  "sem demo_pool = make_chan 1"
  by (simp_all add: demo_pool_def SetMetrics_def Pool_New_def)

lemma demo_blocked:
  "\<exists>s. run pstep demo_start [Acquire 0, StartCheck 0, Domain 0 7] s \<and>
     cs_pc s = [InLimiter 7 ''a'', Spawned] \<and> cs_ctx s = None"
proof -
  let ?c = "(make_chan 1)\<lparr>ch_buf := [()]\<rparr>"
  let ?s1 = "set_pc 0 Acquired (set_sem ?c demo_start)"
  let ?s2 = "set_pc 0 Started (call_metrics CallStarted ?s1)"
  let ?s3 = "set_pc 0 (after_domain True (demo_targets ! 0) 7) ?s2"
  have "domainOf ''http://a/'' = Inr ''a''" by code_simp
  then have dom: "after_domain True (demo_targets ! 0) 7 = InLimiter 7 ''a''"
    by (simp add: after_domain_def checkOne_domain_def demo_targets_def)
  have 1: "pstep demo_start (Acquire 0) ?s1"
    by (rule pstep.acquire) (simp_all add: demo_start_def try_send_def)
  have 2: "pstep ?s1 (StartCheck 0) ?s2"
    by (rule pstep.start) (simp_all add: demo_start_def)
  have "pl_limiter (cs_pool ?s2) = True" "cs_targets ?s2 ! 0 = demo_targets ! 0"
    by (simp_all add: demo_start_def step_defs)
  then have 3: "pstep ?s2 (Domain 0 7) ?s3"
    using pstep.domain [of 0 ?s2 7] by (simp add: demo_start_def call_metrics_views)
  have "run pstep demo_start [Acquire 0, StartCheck 0, Domain 0 7] ?s3"
    using 1 2 3 by (auto simp only: run_Cons_iff run_Nil_iff)
  then show ?thesis
    by (rule exI [of _ ?s3, OF conjI]) (simp add: dom call_metrics_views, simp add: demo_start_def)
qed

lemma demo_returns: "\<exists>es s. run pstep demo_start es s \<and> Check_done s \<and> cs_ctx s = None"
  using Check_completes [OF check_inv_init [OF demo_init demo_idle] demo_idle] by (simp add: demo_start_def)

section \<open>Properties\<close>

text \<open>
  C10. Never more than \<open>maxWorkers\<close> at once. In every state of every interleaving the
  goroutines that hold a slot, among them all that wait for the limiter or for an
  answer from the network, number at most \<open>maxWorkers\<close>, or one if the pool was built
  with less.
\<close>

theorem Check_bounded_workers:
  assumes "Check_init (SetMetrics m (Pool_New l st maxWorkers timeout pub)) ts s0" and "run pstep s0 es s"
  shows "count_of (\<lambda>g. (\<exists>now d. g = InLimiter now d) \<or> (\<exists>now. g = InRequest now)) (cs_pc s)
       \<le> count_of holds_slot (cs_pc s) \<and>
     int (count_of holds_slot (cs_pc s)) \<le> max 1 (sint maxWorkers)"
proof
  let ?p = "SetMetrics m (Pool_New l st maxWorkers timeout pub)"
  show "count_of (\<lambda>g. (\<exists>now d. g = InLimiter now d) \<or> (\<exists>now. g = InRequest now)) (cs_pc s)
       \<le> count_of holds_slot (cs_pc s)"
    by (rule count_of_mono) auto
  have "check_inv ?p ts s"
    using check_reachable_inv [OF assms(1) _ assms(2)] Pool_New_idle by simp
  note sem = check_inv_sem [OF this]
  have "count_of holds_slot (cs_pc s) \<le> ch_cap (sem ?p)" using sem(2,4,5) by simp
  also have "ch_cap (sem ?p) = nat (max 1 (sint maxWorkers))"
    by (auto simp: SetMetrics_def Pool_New_def max_def)
  finally show "int (count_of holds_slot (cs_pc s)) \<le> max 1 (sint maxWorkers)" by simp
qed

theorem Check_bounded_workers_witness:
  "\<exists>s. run pstep demo_start [Acquire 0, StartCheck 0, Domain 0 7] s \<and>
     cs_pc s = [InLimiter 7 ''a'', Spawned] \<and> int (count_of holds_slot (cs_pc s)) \<le> 1"
proof -
  from demo_blocked obtain s where s: "run pstep demo_start [Acquire 0, StartCheck 0, Domain 0 7] s"
    "cs_pc s = [InLimiter 7 ''a'', Spawned]" by blast
  from Check_bounded_workers [OF demo_init [unfolded demo_pool_def] s(1)] s show ?thesis by auto
qed

lemma each_result:
  assumes "Check_init p ts s0" and "pool_idle p" and "run pstep s0 es s" and "Check_done s" and "i < length ts"
  shows "(\<exists>a. cs_results s ! i = fst (checkOne (pl_limiter p) (ts ! i) a)) \<or>
      (\<exists>e now. cs_ctx s = Some e \<and> cs_results s ! i = failed_result (ts ! i) 0 (CtxE e) now)"
proof -
  have inv: "check_inv p ts s" by (rule check_reachable_inv [OF assms(1-3)])
  have i: "i < length (cs_pc s)" using inv assms(5) by (simp add: check_inv_def)
  with assms(4) obtain r where "pc_at s i = Finished r" unfolding Check_done_def by (metis nth_mem)
  with check_inv_gor(1) [OF inv i] show ?thesis by (cases r) auto
qed

lemma Check_order:
  assumes "Check_init p ts s0" and "pool_idle p" and "run pstep s0 es s" and "Check_done s"
  shows "map Target (cs_results s) = ts"
proof -
  have "length (cs_results s) = length ts"
    using check_reachable_inv [OF assms(1-3)] by (simp add: check_inv_def)
  moreover have "Target (cs_results s ! i) = ts ! i" if "i < length ts" for i
    using each_result [OF assms that] by (auto simp: checkOne_target)
  ultimately show ?thesis by (intro nth_equalityI) auto
qed

text \<open>
  C6. Results come back in the order of the targets. When \<open>Check\<close> returns, entry \<open>i\<close>
  of the slice belongs to target \<open>i\<close>, and it is a value that \<open>checkOne\<close> returns for
  this target, or, only when the context has ended, the error of the context: no
  entry is lost, swapped or overwritten by another goroutine.
\<close>

theorem Check_results_in_order:
  assumes "Check_init p ts s0" and "pool_idle p" and "run pstep s0 es s" and "Check_done s"
  shows "length (cs_results s) = length ts \<and> map Target (cs_results s) = ts \<and>
     (\<forall>i < length ts.
        (\<exists>a. cs_results s ! i = fst (checkOne (pl_limiter p) (ts ! i) a)) \<or>
        (\<exists>e now. cs_ctx s = Some e \<and> cs_results s ! i = failed_result (ts ! i) 0 (CtxE e) now))"
  using Check_order [OF assms] each_result [OF assms] map_eq_imp_length_eq [of Target "cs_results s" id ts]
  by auto

theorem Check_results_in_order_witness:
  "\<exists>es s. run pstep demo_start es s \<and> Check_done s \<and> map Target (cs_results s) = demo_targets"
proof -
  from demo_returns obtain es s where s: "run pstep demo_start es s" "Check_done s" by blast
  from Check_results_in_order [OF demo_init demo_idle s] s show ?thesis by blast
qed

lemma count_of_nth: "length xs = length ys \<Longrightarrow> (\<And>i. i < length xs \<Longrightarrow> P (xs ! i) = Q (ys ! i)) \<Longrightarrow>
    count_of P xs = count_of Q ys"
proof -
  assume "length xs = length ys" "\<And>i. i < length xs \<Longrightarrow> P (xs ! i) = Q (ys ! i)"
  then have "map P xs = map Q ys" by (intro nth_equalityI) auto
  moreover have "count_of P xs = count_of id (map P xs)" "count_of Q ys = count_of id (map Q ys)"
    by (simp_all add: count_of_def filter_map comp_def)
  ultimately show ?thesis by simp
qed

lemma count_of_all: "(\<And>i. i < length xs \<Longrightarrow> P (xs ! i)) \<Longrightarrow> count_of P xs = length xs"
  using count_of_nth [of xs xs P "\<lambda>_. True"] by (simp add: count_of_def)

lemma finished_ran:
  assumes inv: "check_inv p ts s" and "Check_done s" and "cs_ctx s = None" and i: "i < length (cs_pc s)"
  shows "pc_at s i = Finished (Some (cs_results s ! i))"
proof -
  from assms(2) i obtain r where "pc_at s i = Finished r" unfolding Check_done_def by (metis nth_mem)
  with check_inv_gor(1) [OF inv i] assms(3) show ?thesis by (cases r) auto
qed

text \<open>
  C12. The metrics of a round add up. When \<open>Check\<close> returns without its context having
  ended, the calls it made to the recorder leave the number of checks in flight as
  it was, add one to the total for every target and one to the failures for every
  failed result, and the semaphore is empty again.
\<close>

theorem Check_metrics_add_up:
  assumes "Check_init p ts s0" and "pool_idle p" and "pl_metrics p"
    and "run pstep s0 es s" and "Check_done s" and "cs_ctx s = None"
  shows "checksInFlight (record_calls CheckStarted CheckFinished (cs_calls s) m) = checksInFlight m \<and>
     checksTotal (record_calls CheckStarted CheckFinished (cs_calls s) m) = checksTotal m + of_nat (length ts) \<and>
     checksFailed (record_calls CheckStarted CheckFinished (cs_calls s) m) =
       checksFailed m + of_nat (count_of Failed (cs_results s)) \<and>
     ch_buf (sem (cs_pool s)) = []"
proof -
  have inv: "check_inv p ts s" by (rule check_reachable_inv [OF assms(1,2,4)])
  note fin = finished_ran [OF inv assms(5,6)]
  have len: "length (cs_pc s) = length ts" "length (cs_results s) = length ts"
    using inv by (simp_all add: check_inv_def)
  have "count_of was_started (cs_pc s) = length ts" "count_of was_reported (cs_pc s) = length ts"
    using fin len count_of_all [of "cs_pc s"] by simp_all
  moreover have "count_of reported_failed (cs_pc s) = count_of Failed (cs_results s)"
    using fin len by (intro count_of_nth) (simp_all add: reported_failed_def)
  ultimately have "n_started (cs_calls s) = length ts" "n_finished (cs_calls s) = length ts"
    "n_failed (cs_calls s) = count_of Failed (cs_results s)"
    using inv assms(3) by (simp_all add: check_inv_def calls_ok_def)
  moreover have "count_of holds_slot (cs_pc s) = 0"
    using fin count_of_nth [of "cs_pc s" "cs_pc s" holds_slot "\<lambda>_. False"] by (simp add: count_of_def)
  then have "ch_buf (sem (cs_pool s)) = []" using check_inv_sem(4) [OF inv] by simp
  ultimately show ?thesis
    using counters.calls_in_flight counters.calls_total counters.calls_failures by simp
qed

theorem Check_metrics_add_up_witness:
  "\<exists>es s. run pstep demo_start es s \<and> checksInFlight (metrics_after (cs_calls s)) = 0 \<and>
     checksTotal (metrics_after (cs_calls s)) = 2"
proof -
  from demo_returns obtain es s where s: "run pstep demo_start es s" "Check_done s" "cs_ctx s = None" by blast
  from Check_metrics_add_up [OF demo_init demo_idle demo_pool_simps(2) s, of Metrics_New] s(1) show ?thesis
    by (auto simp: Metrics_New_def demo_targets_def)
qed

lemma check_rank_init: "Check_init p ts s \<Longrightarrow> check_rank s \<le> 10 * length ts + 1"
  by (simp add: check_rank_def Check_init_def sum_list_replicate)

text \<open>
  C7. \<open>Check\<close> always returns. For \<open>n\<close> targets no interleaving has more than \<open>10 n + 1\<close>
  steps, a round that has not finished always has a goroutine that can go on (no
  deadlock on the semaphore), and from every state the round can be completed.
\<close>

theorem Check_always_returns:
  assumes "Check_init p ts s0" and "pool_idle p" and "run pstep s0 es s"
  shows "length es \<le> 10 * length ts + 1 \<and> (Check_done s \<or> can_work s) \<and>
     (\<exists>fs t. run pstep s fs t \<and> Check_done t \<and> cs_ctx t = cs_ctx s)"
proof (intro conjI)
  have "length es \<le> check_rank s0"
    using check_runs.runs_terminate [of p ts s0 es s] assms by simp
  then show "length es \<le> 10 * length ts + 1"
    using check_rank_init [OF assms(1)] by simp
  note inv = check_reachable_inv [OF assms]
  show "Check_done s \<or> can_work s" using Check_progress [OF inv assms(2)] by blast
  show "\<exists>fs t. run pstep s fs t \<and> Check_done t \<and> cs_ctx t = cs_ctx s"
    by (rule Check_completes [OF inv assms(2)])
qed

theorem Check_always_returns_witness:
  "\<exists>s fs t. run pstep demo_start [Acquire 0, StartCheck 0, Domain 0 7] s \<and> run pstep s fs t \<and> Check_done t"
proof -
  from demo_blocked obtain s where s: "run pstep demo_start [Acquire 0, StartCheck 0, Domain 0 7] s" by blast
  from Check_always_returns [OF demo_init demo_idle s] s show ?thesis by blast
qed

definition waits_for :: "string \<Rightarrow> goroutine \<Rightarrow> bool" where
  "waits_for d g \<longleftrightarrow> (\<exists>now. g = InLimiter now d)"

lemma waits_for_update:
  assumes "pstep s e t" and "\<forall>i a. e \<noteq> LimiterReturns i a"
  shows "count_of (waits_for d) (cs_pc s) \<le> count_of (waits_for d) (cs_pc t)"
proof -
  have upd: "count_of (waits_for d) gs \<le> count_of (waits_for d) (gs[i := g])"
    if "i < length gs" "\<not> waits_for d (gs ! i)" for gs i g
    using count_of_update [OF that(1), of "waits_for d" g] that(2) by (simp split: if_splits)
  show ?thesis
    using assms by (cases rule: pstep.cases) (auto simp: call_metrics_views waits_for_def intro!: upd)
qed

text \<open>
  C30. One slow domain does hold up the others. A goroutine takes its slot before it
  asks the limiter, and keeps it while it waits. Once as many targets of one domain
  wait for their tokens as there are workers, no check of any other domain starts
  until one of these waits returns, whatever the limiter of the other domain would
  allow: the package comment promises the opposite.
\<close>

theorem slow_domain_holds_up_others:
  assumes "Check_init p ts s0" and "pool_idle p" and "run pstep s0 es s"
    and full: "count_of (waits_for d) (cs_pc s) = ch_cap (sem p)"
    and "cs_ctx s = None" and "i < length ts" and "pc_at s i = Spawned"
    and "run pstep s fs t" and no: "\<forall>e \<in> set fs. \<forall>j a c. e \<noteq> LimiterReturns j a \<and> e \<noteq> CtxEnds_check c"
  shows "pc_at t i = Spawned"
proof -
  define P where "P u \<longleftrightarrow> check_inv p ts u \<and> cs_ctx u = None \<and> pc_at u i = Spawned \<and>
      ch_cap (sem p) \<le> count_of (waits_for d) (cs_pc u)" for u
  have "P s" using check_reachable_inv [OF assms(1-3)] assms(5,7) full by (simp add: P_def)
  have step: "P v" if uv: "pstep u e v" and P: "P u" and e: "e \<in> set fs" for u e v
  proof -
    have inv: "check_inv p ts u" using P by (simp add: P_def)
    note sem = check_inv_sem [OF inv]
    have len: "i < length (cs_pc u)" using inv assms(6) by (simp add: check_inv_def)
    have "count_of (waits_for d) (cs_pc u) \<le> count_of holds_slot (cs_pc u)"
      by (rule count_of_mono) (auto simp: waits_for_def)
    with P sem have no_room: "\<not> length (ch_buf (sem (cs_pool u))) < ch_cap (sem (cs_pool u))"
      by (simp add: P_def)
    have "pc_at v i = Spawned \<and> cs_ctx v = None"
      using uv P no e no_room
      by (cases rule: pstep.cases) (auto simp: P_def call_metrics_views nth_list_update len)
    moreover have "count_of (waits_for d) (cs_pc u) \<le> count_of (waits_for d) (cs_pc v)"
      using no e by (intro waits_for_update [OF uv]) auto
    ultimately show ?thesis using P check_inv_step [OF uv inv] by (simp add: P_def)
  qed
  from run_preserves_all [where P = P, OF assms(8) \<open>P s\<close> step] show ?thesis by (simp add: P_def)
qed

theorem slow_domain_holds_up_others_witness:
  "\<exists>s. run pstep demo_start [Acquire 0, StartCheck 0, Domain 0 7] s \<and>
     count_of (waits_for ''a'') (cs_pc s) = ch_cap (sem demo_pool) \<and> pc_at s 1 = Spawned"
proof -
  from demo_blocked obtain s where s: "run pstep demo_start [Acquire 0, StartCheck 0, Domain 0 7] s"
    "cs_pc s = [InLimiter 7 ''a'', Spawned]" "cs_ctx s = None" by blast
  have full: "count_of (waits_for ''a'') (cs_pc s) = ch_cap (sem demo_pool)"
    using s(2) by (simp add: waits_for_def)
  from slow_domain_holds_up_others [OF demo_init demo_idle s(1) full s(3), of 1 "[]" s] s full
  show ?thesis by (auto simp: demo_targets_def intro: run_nil)
qed

end
