(* ===== verification/Timed_Check.thy ===== *)
theory Timed_Check
  imports Pool_Props
begin

text \<open>
  How long a round of checks lasts. \<open>Pool.Check\<close> (\<open>Pool_System\<close>) with a clock:
  computation takes no time, so time passes only while every goroutine is blocked, and
  the context of a check, made with \<open>checkTimeout\<close>, ends the wait for the limiter
  and the request at the latest. Clock and timeout are in the same unit; the clock starts
  with the call of \<open>Check\<close>. \<open>tc_since\<close> is history: when a goroutine took its slot.
\<close>

section \<open>The clock\<close>

record timed =
  tc_sys :: check_sys
  tc_clock :: nat
  tc_since :: "nat list"

fun may_wait :: "nat \<Rightarrow> check_sys \<Rightarrow> nat \<Rightarrow> goroutine \<Rightarrow> nat \<Rightarrow> bool" where
  "may_wait T s now Spawned since \<longleftrightarrow> ch_cap (sem (cs_pool s)) \<le> length (ch_buf (sem (cs_pool s)))"
| "may_wait T s now (InLimiter a d) since \<longleftrightarrow> now < since + T"
| "may_wait T s now (InRequest a) since \<longleftrightarrow> now < since + T"
| "may_wait T s now (Finished r) since \<longleftrightarrow> True"
| "may_wait T s now g since \<longleftrightarrow> False"

fun note_acquire :: "pevent \<Rightarrow> nat \<Rightarrow> nat list \<Rightarrow> nat list" where
  "note_acquire (Acquire i) now since = since[i := now]"
| "note_acquire e now since = since"

datatype tevent = Act pevent | OneUnit

text \<open>\<open>tick\<close> passes a background context, which does not end.\<close>

inductive tstep :: "nat \<Rightarrow> timed \<Rightarrow> tevent \<Rightarrow> timed \<Rightarrow> bool" for T where
  act: "pstep (tc_sys s) e c \<Longrightarrow> (\<forall>x. e \<noteq> CtxEnds_check x) \<Longrightarrow>
     tstep T s (Act e) (s\<lparr>tc_sys := c, tc_since := note_acquire e (tc_clock s) (tc_since s)\<rparr>)"
| one_unit: "(\<forall>i < length (cs_pc (tc_sys s)). may_wait T (tc_sys s) (tc_clock s) (pc_at (tc_sys s) i) (tc_since s ! i)) \<Longrightarrow>
     tstep T s OneUnit (s\<lparr>tc_clock := Suc (tc_clock s)\<rparr>)"

inductive_simps tstep_act_iff: "tstep T s (Act e) t"
inductive_simps tstep_unit_iff: "tstep T s OneUnit t"

definition timed_init :: "pool \<Rightarrow> target list \<Rightarrow> timed \<Rightarrow> bool" where
  "timed_init p ts s \<longleftrightarrow> Check_init p ts (tc_sys s) \<and> pool_idle p \<and> cs_ctx (tc_sys s) = None \<and>
     tc_clock s = 0 \<and> length (tc_since s) = length ts"

section \<open>The bound\<close>

text \<open>The number of batches that \<open>n\<close> checks need with \<open>w\<close> slots.\<close>

definition batches :: "nat \<Rightarrow> nat \<Rightarrow> nat" where
  "batches n w = (n + w - 1) div w"

lemma batches_enough: "0 < w \<Longrightarrow> n \<le> batches n w * w"
proof -
  assume w: "0 < w"
  have "(n + w - 1) div w * w + (n + w - 1) mod w = n + w - 1" by (rule div_mult_mod_eq)
  moreover have "(n + w - 1) mod w \<le> w - 1" using w by (metis Suc_pred' less_Suc_eq_le mod_less_divisor)
  ultimately show ?thesis using w unfolding batches_def by linarith
qed

lemma batches_pos: "0 < n \<Longrightarrow> 0 < w \<Longrightarrow> 0 < batches n w"
  using batches_enough [of w n] by (cases "batches n w") auto

definition busy :: "goroutine \<Rightarrow> bool" where
  "busy g \<longleftrightarrow> g \<noteq> Spawned \<and> (\<nexists>r. g = Finished r)"

definition early :: "nat \<Rightarrow> timed \<Rightarrow> nat set" where
  "early m s = {i. i < length (cs_pc (tc_sys s)) \<and> pc_at (tc_sys s) i \<noteq> Spawned \<and> tc_since s ! i \<le> m}"

definition still_spawned :: "timed \<Rightarrow> bool" where
  "still_spawned s \<longleftrightarrow> Spawned \<in> set (cs_pc (tc_sys s))"

text \<open>
  As long as a goroutine waits for a slot, one more batch has begun by every multiple of
  the timeout that has passed.
\<close>

definition on_time :: "nat \<Rightarrow> nat \<Rightarrow> timed \<Rightarrow> bool" where
  "on_time T w s \<longleftrightarrow> (still_spawned s \<longrightarrow> (\<forall>k. k * T < tc_clock s \<longrightarrow> Suc k * w \<le> card (early (k * T) s)))"

definition since_ok :: "nat \<Rightarrow> nat \<Rightarrow> timed \<Rightarrow> bool" where
  "since_ok T B s \<longleftrightarrow> (\<forall>i < length (cs_pc (tc_sys s)). pc_at (tc_sys s) i \<noteq> Spawned \<longrightarrow>
     tc_since s ! i \<le> tc_clock s \<and> tc_since s ! i + T \<le> B \<and>
     (busy (pc_at (tc_sys s) i) \<longrightarrow> tc_clock s \<le> tc_since s ! i + T))"

definition timed_inv :: "pool \<Rightarrow> target list \<Rightarrow> nat \<Rightarrow> timed \<Rightarrow> bool" where
  "timed_inv p ts T s \<longleftrightarrow> check_inv p ts (tc_sys s) \<and> cs_ctx (tc_sys s) = None \<and>
     length (tc_since s) = length ts \<and>
     since_ok T (batches (length ts) (ch_cap (sem p)) * T) s \<and> on_time T (ch_cap (sem p)) s"

lemma finite_early [simp]: "finite (early m s)"
  by (simp add: early_def)

lemma timed_init_inv: "timed_init p ts s \<Longrightarrow> timed_inv p ts T s"
  by (auto simp: timed_init_def timed_inv_def check_inv_init since_ok_def on_time_def Check_init_def)

text \<open>What a step of the pool does to the stages, while the context is open.\<close>

lemma pstep_cases_open:
  assumes "pstep s e t" and "cs_ctx s = None" and "\<forall>x. e \<noteq> CtxEnds_check x"
  obtains (took) i where "e = Acquire i" "i < length (cs_pc s)" "pc_at s i = Spawned" "cs_pc t = (cs_pc s)[i := Acquired]"
      "cs_ctx t = None"
    | (moved) i g where "\<forall>j. e \<noteq> Acquire j" "i < length (cs_pc s)" "busy (pc_at s i)" "g \<noteq> Spawned"
      "cs_pc t = (cs_pc s)[i := g]" "cs_ctx t = None"
proof -
  note views = busy_def call_metrics_views assms(2)
  have after: "after_domain L x now \<noteq> Spawned" "after_wait x now a \<noteq> Spawned" "after_build x now \<noteq> Spawned" for L x now a
    by (simp_all add: pstep_afters split: sum.split)
  from assms(1) show thesis
  proof (cases rule: pstep.cases)
    case (acquire i c)
    then show thesis using took [of i] by (simp add: views)
  next
    case (skip_check i e' now)
    then show thesis using assms(2) by simp
  next
    case (ctx_ends x)
    then show thesis using assms(3) by simp
  qed (rule moved; simp add: views after)+
qed

section \<open>Every step keeps the bound\<close>

lemma spawned_nth: "still_spawned s \<longleftrightarrow> (\<exists>i < length (cs_pc (tc_sys s)). pc_at (tc_sys s) i = Spawned)"
  by (auto simp: still_spawned_def in_set_conv_nth)

lemma early_less: "still_spawned s \<Longrightarrow> card (early m s) < length (cs_pc (tc_sys s))"
proof -
  assume "still_spawned s"
  then obtain i where i: "i < length (cs_pc (tc_sys s))" "pc_at (tc_sys s) i = Spawned" by (auto simp: spawned_nth)
  then have "early m s \<subseteq> {..< length (cs_pc (tc_sys s))} - {i}" by (auto simp: early_def)
  from card_mono [OF _ this] i(1) show ?thesis by simp
qed

text \<open>A slot that is taken is taken before the last batch has to begin.\<close>

lemma spawned_clock:
  assumes inv: "timed_inv p ts T s" and idle: "pool_idle p" and sp: "still_spawned s"
  shows "tc_clock s + T \<le> batches (length ts) (ch_cap (sem p)) * T"
proof (rule ccontr)
  let ?w = "ch_cap (sem p)" and ?K = "batches (length ts) (ch_cap (sem p))"
  assume late: "\<not> ?thesis"
  have w: "0 < ?w" using idle by (simp add: pool_idle_def)
  have len: "length (cs_pc (tc_sys s)) = length ts" using inv by (simp add: timed_inv_def check_inv_def)
  with sp have "0 < length ts" by (auto simp: spawned_nth)
  then have K: "0 < ?K" using batches_pos w by simp
  then have "?K * T = (?K - 1) * T + T" by (cases ?K) auto
  with late have "(?K - 1) * T < tc_clock s" by linarith
  with inv sp have "Suc (?K - 1) * ?w \<le> card (early ((?K - 1) * T) s)"
    unfolding timed_inv_def on_time_def by blast
  also have "\<dots> < length ts" using early_less [OF sp] len by simp
  also have "\<dots> \<le> ?K * ?w" by (rule batches_enough [OF w])
  finally show False using K by simp
qed

lemma timed_act:
  assumes inv: "timed_inv p ts T s" and idle: "pool_idle p"
    and step: "pstep (tc_sys s) e c" "\<forall>x. e \<noteq> CtxEnds_check x"
  shows "timed_inv p ts T (s\<lparr>tc_sys := c, tc_since := note_acquire e (tc_clock s) (tc_since s)\<rparr>)" (is "timed_inv p ts T ?t")
proof -
  from inv have cinv: "check_inv p ts (tc_sys s)" and ctx: "cs_ctx (tc_sys s) = None"
    and slen: "length (tc_since s) = length ts" unfolding timed_inv_def by blast+
  then have len: "length (tc_since s) = length (cs_pc (tc_sys s))" by (simp add: check_inv_def)
  have cinv': "check_inv p ts c" by (rule check_inv_step [OF step(1) cinv])
  let ?B = "batches (length ts) (ch_cap (sem p)) * T"
  have ok: "since_ok T ?B s" and time: "on_time T (ch_cap (sem p)) s" using inv by (simp_all add: timed_inv_def)
  from step(1) ctx step(2) show ?thesis
  proof (cases rule: pstep_cases_open)
    case (took i)
    then have sp: "still_spawned s" by (auto simp: spawned_nth)
    note clock = spawned_clock [OF inv idle sp]
    have "since_ok T ?B ?t"
      using ok took clock len by (auto simp: since_ok_def nth_list_update)
    moreover have "early m ?t = early m s" if "m < tc_clock s" for m
      using that took len by (auto simp: early_def nth_list_update)
    then have "on_time T (ch_cap (sem p)) ?t"
      using time sp by (simp add: on_time_def)
    ultimately show ?thesis using cinv' took(5) inv by (auto simp: timed_inv_def took(1))
  next
    case (moved i g)
    have since: "note_acquire e (tc_clock s) (tc_since s) = tc_since s" using moved(1) by (cases e) auto
    have b: "busy g' \<Longrightarrow> g' \<noteq> Spawned" for g' by (simp add: busy_def)
    have "since_ok T ?B ?t"
      using ok moved(2-5) b [OF moved(3)] by (auto simp: since_ok_def nth_list_update since)
    moreover have "early m ?t = early m s" for m
      using moved(2,4,5) b [OF moved(3)] by (auto simp: early_def nth_list_update since)
    moreover have "still_spawned ?t \<Longrightarrow> still_spawned s"
      using moved(2,4,5) by (auto simp: spawned_nth nth_list_update split: if_splits)
    ultimately show ?thesis using cinv' moved(6) inv time since by (auto simp: timed_inv_def on_time_def)
  qed
qed

lemma holders_card: "count_of P xs = card {i. i < length xs \<and> P (xs ! i)}"
  by (simp add: count_of_def length_filter_conv_card)

lemma timed_unit:
  assumes inv: "timed_inv p ts T s" and T: "0 < T"
    and wait: "\<forall>i < length (cs_pc (tc_sys s)). may_wait T (tc_sys s) (tc_clock s) (pc_at (tc_sys s) i) (tc_since s ! i)"
  shows "timed_inv p ts T (s\<lparr>tc_clock := Suc (tc_clock s)\<rparr>)" (is "timed_inv p ts T ?t")
proof -
  let ?w = "ch_cap (sem p)" and ?n = "length (cs_pc (tc_sys s))"
  let ?H = "{i. i < ?n \<and> holds_slot (pc_at (tc_sys s) i)}"
  from inv have cinv: "check_inv p ts (tc_sys s)" and ok: "since_ok T (batches (length ts) ?w * T) s"
    and time: "on_time T ?w s" by (simp_all add: timed_inv_def)
  have waits: "may_wait T (tc_sys s) (tc_clock s) (pc_at (tc_sys s) i) (tc_since s ! i)" if "i < ?n" for i
    using wait that by blast
  have running: "tc_clock s < tc_since s ! i + T" if "i < ?n" "busy (pc_at (tc_sys s) i)" for i
    using waits [OF that(1)] that(2) by (cases "pc_at (tc_sys s) i") (auto simp: busy_def)
  have "since_ok T (batches (length ts) ?w * T) ?t"
    using ok running by (auto simp: since_ok_def Suc_le_eq intro: less_imp_le)
  moreover have "on_time T ?w ?t"
    unfolding on_time_def
  proof (intro impI allI)
    fix k
    assume sp: "still_spawned ?t" and k: "k * T < tc_clock ?t"
    have sp': "still_spawned s" using sp by (simp add: still_spawned_def)
    have same: "early m ?t = early m s" for m by (simp add: early_def)
    show "Suc k * ?w \<le> card (early (k * T) ?t)"
    proof (cases "k * T < tc_clock s")
      case True
      with time sp' same show ?thesis by (simp add: on_time_def)
    next
      case False
      with k have now: "k * T = tc_clock s" by simp
      from sp' obtain j where "j < ?n" "pc_at (tc_sys s) j = Spawned" by (auto simp: spawned_nth)
      with waits [of j] have "?w \<le> count_of holds_slot (cs_pc (tc_sys s))"
        using check_inv_sem [OF cinv] by simp
      then have H: "?w \<le> card ?H" by (simp add: holders_card)
      have busyH: "busy (pc_at (tc_sys s) i)" if "i \<in> ?H" for i
        using that by (cases "pc_at (tc_sys s) i") (auto simp: busy_def)
      have HA: "?H \<subseteq> early (k * T) s"
        using busyH ok now by (auto simp: early_def since_ok_def busy_def)
      show ?thesis
      proof (cases k)
        case 0
        with H card_mono [OF _ HA] same show ?thesis by simp
      next
        case (Suc l)
        let ?E = "early (l * T) s"
        have "l * T < tc_clock s" using now Suc T by simp
        with time sp' have E: "Suc l * ?w \<le> card ?E" by (simp add: on_time_def)
        have "?H \<inter> ?E = {}"
        proof (intro equals0I)
          fix i assume i: "i \<in> ?H \<inter> ?E"
          then have "tc_clock s < tc_since s ! i + T" "tc_since s ! i \<le> l * T"
            using running busyH by (auto simp: early_def)
          with now Suc show False by simp
        qed
        then have "card (?H \<union> ?E) = card ?H + card ?E" by (intro card_Un_disjoint) simp_all
        moreover have "?H \<union> ?E \<subseteq> early (k * T) s" using HA Suc by (auto simp: early_def)
        then have "card (?H \<union> ?E) \<le> card (early (k * T) s)" by (intro card_mono) simp_all
        ultimately show ?thesis using H E Suc same by simp
      qed
    qed
  qed
  ultimately show ?thesis using inv by (simp add: timed_inv_def)
qed

lemma timed_inv_step: "tstep T s e t \<Longrightarrow> pool_idle p \<Longrightarrow> 0 < T \<Longrightarrow> timed_inv p ts T s \<Longrightarrow> timed_inv p ts T t"
  by (erule tstep.cases) (auto intro: timed_act timed_unit)

interpretation timed_pool: invariant_system
    "\<lambda>s. timed_init p ts s \<and> 0 < T" "\<lambda>s e t. tstep T s e t" "\<lambda>s. pool_idle p \<and> 0 < T \<and> timed_inv p ts T s" for p ts T
  by unfold_locales (auto intro: timed_init_inv timed_inv_step simp: timed_init_def)

lemma unfinished_clock:
  assumes inv: "timed_inv p ts T s" and idle: "pool_idle p" and unfinished: "\<not> Check_done (tc_sys s)"
  shows "tc_clock s \<le> batches (length ts) (ch_cap (sem p)) * T"
proof -
  from unfinished obtain i where i: "i < length (cs_pc (tc_sys s))" "\<nexists>r. pc_at (tc_sys s) i = Finished r"
    unfolding Check_done_def by (metis in_set_conv_nth)
  show ?thesis
  proof (cases "pc_at (tc_sys s) i = Spawned")
    case True
    with i(1) have "still_spawned s" by (auto simp: spawned_nth)
    from spawned_clock [OF inv idle this] show ?thesis by simp
  next
    case False
    with i inv show ?thesis by (fastforce simp: timed_inv_def since_ok_def busy_def)
  qed
qed

end
