(* ===== verification/Timed_Round.thy ===== *)
theory Timed_Round
  imports Timed_Check
begin

text \<open>
  How long \<open>tick\<close> lasts: one store call that lists the targets, \<open>Check\<close> with its clock
  (\<open>Timed_Check\<close>), then one call per target to record its result and one to read its
  statistics. Each store call has a context with \<open>dbOpTimeout\<close>; rendering and
  publishing take no time (a publish never blocks, \<open>Sse_Stream\<close>). \<open>Pool_Tick\<close> has what
  these calls do, here only their time counts.
\<close>

section \<open>The phases of a round\<close>

definition dbOpTimeout :: duration where
  "dbOpTimeout = 5 * Second"

datatype round_pc =
    Listing
  | InCheck
  | Recording nat      \<comment> \<open>the next result to record\<close>
  | ReadingStats nat   \<comment> \<open>the next target to read the statistics of\<close>
  | RoundOver

record timed_round =
  tr_pc :: round_pc
  tr_clock :: nat
  tr_op :: nat         \<comment> \<open>when the current store call began\<close>
  tr_check :: timed

definition n_checked :: "timed_round \<Rightarrow> nat" where
  "n_checked s = length (cs_targets (tc_sys (tr_check s)))"

definition go_to :: "round_pc \<Rightarrow> timed_round \<Rightarrow> timed_round" where
  "go_to q s = s\<lparr>tr_pc := q, tr_op := tr_clock s\<rparr>"

text \<open>Whether a store call is under way.\<close>

fun in_store_call :: "timed_round \<Rightarrow> round_pc \<Rightarrow> bool" where
  "in_store_call s Listing = True"
| "in_store_call s (Recording k) \<longleftrightarrow> k < n_checked s"
| "in_store_call s (ReadingStats k) \<longleftrightarrow> k < n_checked s"
| "in_store_call s q = False"

datatype round_event =
    Listed "target list" | ListFailed | CheckDoes pevent | CheckReturns
  | RecordReturns | StatsReturn | PhaseEnds | TimePasses

inductive round_step :: "pool \<Rightarrow> nat \<Rightarrow> nat \<Rightarrow> timed_round \<Rightarrow> round_event \<Rightarrow> timed_round \<Rightarrow> bool" for p D T where
  listed: "tr_pc s = Listing \<Longrightarrow> timed_init p ts c \<Longrightarrow>
     round_step p D T s (Listed ts) (s\<lparr>tr_pc := InCheck, tr_check := c\<rparr>)"
| list_failed: "tr_pc s = Listing \<Longrightarrow> round_step p D T s ListFailed (go_to RoundOver s)"
| check_does: "tr_pc s = InCheck \<Longrightarrow> tstep T (tr_check s) (Act e) c \<Longrightarrow>
     round_step p D T s (CheckDoes e) (s\<lparr>tr_check := c\<rparr>)"
| check_returns: "tr_pc s = InCheck \<Longrightarrow> Check_done (tc_sys (tr_check s)) \<Longrightarrow>
     round_step p D T s CheckReturns (go_to (Recording 0) s)"
| record_returns: "tr_pc s = Recording k \<Longrightarrow> k < n_checked s \<Longrightarrow>
     round_step p D T s RecordReturns (go_to (Recording (Suc k)) s)"
| stats_return: "tr_pc s = ReadingStats k \<Longrightarrow> k < n_checked s \<Longrightarrow>
     round_step p D T s StatsReturn (go_to (ReadingStats (Suc k)) s)"
| all_recorded: "tr_pc s = Recording k \<Longrightarrow> \<not> k < n_checked s \<Longrightarrow>
     round_step p D T s PhaseEnds (go_to (if pl_publisher p then ReadingStats 0 else RoundOver) s)"
| all_read: "tr_pc s = ReadingStats k \<Longrightarrow> \<not> k < n_checked s \<Longrightarrow>
     round_step p D T s PhaseEnds (go_to RoundOver s)"
| check_waits: "tr_pc s = InCheck \<Longrightarrow> \<not> Check_done (tc_sys (tr_check s)) \<Longrightarrow> tstep T (tr_check s) OneUnit c \<Longrightarrow>
     round_step p D T s TimePasses (s\<lparr>tr_check := c, tr_clock := Suc (tr_clock s)\<rparr>)"
| store_waits: "in_store_call s (tr_pc s) \<Longrightarrow> tr_clock s < tr_op s + D \<Longrightarrow>
     round_step p D T s TimePasses (s\<lparr>tr_clock := Suc (tr_clock s)\<rparr>)"

definition round_start :: "timed_round \<Rightarrow> bool" where
  "round_start s \<longleftrightarrow> tr_pc s = Listing \<and> tr_clock s = 0 \<and> tr_op s = 0"

section \<open>The bound\<close>

definition round_bound :: "nat \<Rightarrow> nat \<Rightarrow> nat \<Rightarrow> nat \<Rightarrow> nat" where
  "round_bound n w D T = D + batches n w * T + 2 * n * D"

text \<open>How far the calls before the current one can have come.\<close>

fun op_bound :: "nat \<Rightarrow> nat \<Rightarrow> nat \<Rightarrow> nat \<Rightarrow> round_pc \<Rightarrow> nat" where
  "op_bound n w D T (Recording k) = D + batches n w * T + k * D"
| "op_bound n w D T (ReadingStats k) = D + batches n w * T + n * D + k * D"
| "op_bound n w D T q = 0"

definition round_inv :: "pool \<Rightarrow> nat \<Rightarrow> nat \<Rightarrow> timed_round \<Rightarrow> bool" where
  "round_inv p D T s \<longleftrightarrow>
     (case tr_pc s of
        RoundOver \<Rightarrow> tr_clock s \<le> round_bound (n_checked s) (ch_cap (sem p)) D T
      | InCheck \<Rightarrow> tr_clock s \<le> D + tc_clock (tr_check s) \<and> (\<exists>ts. timed_inv p ts T (tr_check s)) \<and>
          tc_clock (tr_check s) \<le> batches (n_checked s) (ch_cap (sem p)) * T
      | q \<Rightarrow> (\<forall>k. q = Recording k \<or> q = ReadingStats k \<longrightarrow> k \<le> n_checked s) \<and>
          tr_op s \<le> op_bound (n_checked s) (ch_cap (sem p)) D T q \<and>
          tr_clock s \<le> tr_op s + (if in_store_call s q then D else 0))"

lemma go_to_simps [simp]:
  "tr_pc (go_to q s) = q" "tr_clock (go_to q s) = tr_clock s" "tr_op (go_to q s) = tr_clock s"
  "tr_check (go_to q s) = tr_check s" "n_checked (go_to q s) = n_checked s"
  by (simp_all add: go_to_def n_checked_def)

lemma in_store_call_go [simp]: "in_store_call (go_to q' s) q = in_store_call s q"
  by (cases q) simp_all

lemma timed_targets: "timed_inv p ts T c \<Longrightarrow> cs_targets (tc_sys c) = ts"
  by (simp add: timed_inv_def check_inv_def)

lemma round_start_inv: "round_start s \<Longrightarrow> round_inv p D T s"
  by (simp add: round_start_def round_inv_def)

lemma op_bound_mono: "k \<le> n \<Longrightarrow> op_bound n w D T (Recording k) \<le> D + batches n w * T + n * D"
  "k \<le> n \<Longrightarrow> op_bound n w D T (ReadingStats k) \<le> round_bound n w D T"
  "D + batches n w * T + n * D \<le> round_bound n w D T" "D \<le> round_bound n w D T"
proof -
  have "k \<le> n \<Longrightarrow> k * D \<le> n * D" for k by (rule mult_le_mono1)
  then show "k \<le> n \<Longrightarrow> op_bound n w D T (Recording k) \<le> D + batches n w * T + n * D"
    "k \<le> n \<Longrightarrow> op_bound n w D T (ReadingStats k) \<le> round_bound n w D T"
    "D + batches n w * T + n * D \<le> round_bound n w D T" "D \<le> round_bound n w D T"
    by (simp_all add: round_bound_def)
qed

lemma round_inv_step:
  assumes step: "round_step p D T s e t" and idle: "pool_idle p" and T: "0 < T" and inv: "round_inv p D T s"
  shows "round_inv p D T t"
  using step
proof (cases rule: round_step.cases)
  case (listed ts c)
  from timed_init_inv [OF listed(4)] have "timed_inv p ts T c" .
  moreover have "tc_clock c = 0" using listed(4) by (simp add: timed_init_def)
  ultimately show ?thesis using listed inv by (auto simp: round_inv_def)
next
  case list_failed
  with inv have "tr_clock s \<le> D" by (simp add: round_inv_def)
  with list_failed op_bound_mono(4) show ?thesis by (auto simp: round_inv_def intro: order.trans)
next
  case (check_does e c)
  from inv check_does(3) obtain ts where ts: "timed_inv p ts T (tr_check s)" by (auto simp: round_inv_def)
  have ts': "timed_inv p ts T c" by (rule timed_inv_step [OF check_does(4) idle T ts])
  have "tc_clock c = tc_clock (tr_check s)" using check_does(4) by (auto simp: tstep_act_iff)
  moreover have "n_checked t = n_checked s" using timed_targets [OF ts] timed_targets [OF ts'] check_does(2) by (simp add: n_checked_def)
  ultimately show ?thesis using ts' check_does inv by (auto simp: round_inv_def)
next
  case check_returns
  with inv show ?thesis by (simp add: round_inv_def)
next
  case (record_returns k)
  with inv show ?thesis by (simp add: round_inv_def)
next
  case (stats_return k)
  with inv show ?thesis by (simp add: round_inv_def)
next
  case (all_recorded k)
  with inv have "k \<le> n_checked s" "tr_clock s \<le> op_bound (n_checked s) (ch_cap (sem p)) D T (Recording k)"
    by (auto simp: round_inv_def)
  then have "tr_clock s \<le> D + batches (n_checked s) (ch_cap (sem p)) * T + n_checked s * D"
    using op_bound_mono(1) by (metis order.trans)
  moreover from this have "tr_clock s \<le> round_bound (n_checked s) (ch_cap (sem p)) D T"
    using op_bound_mono(3) by (metis order.trans)
  ultimately show ?thesis using all_recorded by (simp add: round_inv_def)
next
  case (all_read k)
  with inv have "k \<le> n_checked s" "tr_clock s \<le> op_bound (n_checked s) (ch_cap (sem p)) D T (ReadingStats k)"
    by (auto simp: round_inv_def)
  with op_bound_mono(2) have "tr_clock s \<le> round_bound (n_checked s) (ch_cap (sem p)) D T" by (metis order.trans)
  with all_read show ?thesis by (simp add: round_inv_def)
next
  case (check_waits c)
  from inv check_waits(3) obtain ts where ts: "timed_inv p ts T (tr_check s)" by (auto simp: round_inv_def)
  have ts': "timed_inv p ts T c" by (rule timed_inv_step [OF check_waits(5) idle T ts])
  have c: "tc_sys c = tc_sys (tr_check s)" "tc_clock c = Suc (tc_clock (tr_check s))"
    using check_waits(5) by (auto simp: tstep_unit_iff)
  with unfinished_clock [OF ts' idle] check_waits(4) timed_targets [OF ts]
  have "tc_clock c \<le> batches (n_checked s) (ch_cap (sem p)) * T" by (simp add: n_checked_def)
  moreover have "n_checked t = n_checked s" using check_waits(2) c(1) by (simp add: n_checked_def)
  ultimately show ?thesis using check_waits(2,3) ts' c(2) inv by (auto simp: round_inv_def)
next
  case store_waits
  moreover have "n_checked t = n_checked s" using store_waits(2) by (simp add: n_checked_def)
  ultimately show ?thesis using inv by (cases "tr_pc s") (auto simp: round_inv_def)
qed

interpretation rounds: invariant_system round_start "round_step p D T" "\<lambda>s. pool_idle p \<longrightarrow> 0 < T \<longrightarrow> round_inv p D T s"
  for p D T
  by unfold_locales (auto intro: round_start_inv round_inv_step)

lemma round_inv_bound:
  assumes "round_inv p D T s"
  shows "tr_clock s \<le> round_bound (n_checked s) (ch_cap (sem p)) D T"
proof (cases "tr_pc s")
  case (Recording k)
  let ?n = "n_checked s"
  have "k < ?n \<Longrightarrow> Suc k * D \<le> ?n * D" by (intro mult_le_mono1) simp
  with assms Recording op_bound_mono(1) [of k ?n "ch_cap (sem p)" D T] op_bound_mono(3) [of D ?n "ch_cap (sem p)" T]
  show ?thesis by (auto simp: round_inv_def split: if_splits)
next
  case (ReadingStats k)
  let ?n = "n_checked s"
  have "k < ?n \<Longrightarrow> Suc k * D \<le> ?n * D" by (intro mult_le_mono1) simp
  with assms ReadingStats op_bound_mono(2) [of k ?n "ch_cap (sem p)" D T]
  show ?thesis by (auto simp: round_inv_def round_bound_def split: if_splits)
next
  case Listing
  with assms op_bound_mono(4) [of D "n_checked s" "ch_cap (sem p)" T] show ?thesis by (auto simp: round_inv_def)
next
  case InCheck
  with assms show ?thesis by (auto simp: round_inv_def round_bound_def)
next
  case RoundOver
  with assms show ?thesis by (simp add: round_inv_def)
qed

section \<open>The round can always be finished at once\<close>

definition over_at_once :: "pool \<Rightarrow> nat \<Rightarrow> nat \<Rightarrow> timed_round \<Rightarrow> bool" where
  "over_at_once p D T s \<longleftrightarrow> (\<exists>es t. run (round_step p D T) s es t \<and> tr_pc t = RoundOver \<and> TimePasses \<notin> set es)"

lemma over_step:
  assumes "round_step p D T s e t" and "e \<noteq> TimePasses" and "over_at_once p D T t"
  shows "over_at_once p D T s"
proof -
  from assms(3) obtain es u where "run (round_step p D T) t es u" "tr_pc u = RoundOver" "TimePasses \<notin> set es"
    by (auto simp: over_at_once_def)
  with assms(1,2) show ?thesis unfolding over_at_once_def
    by (intro exI [of _ "e # es"] exI [of _ u]) (auto intro: run_cons)
qed

lemma over_now: "tr_pc s = RoundOver \<Longrightarrow> over_at_once p D T s"
  unfolding over_at_once_def by (intro exI [of _ "[]"] exI [of _ s]) simp

lemma over_from_stats: "tr_pc s = ReadingStats k \<Longrightarrow> over_at_once p D T s"
proof (induction "n_checked s - k" arbitrary: s k)
  case 0
  then have "round_step p D T s PhaseEnds (go_to RoundOver s)" by (intro all_read [where k = k]) simp_all
  then show ?case by (rule over_step) (simp_all add: over_now)
next
  case (Suc d)
  have "k < n_checked s" using Suc.hyps(2) by linarith
  then have "round_step p D T s StatsReturn (go_to (ReadingStats (Suc k)) s)" by (rule stats_return [OF Suc.prems])
  moreover have "over_at_once p D T (go_to (ReadingStats (Suc k)) s)"
  proof (rule Suc.hyps(1))
    show "d = n_checked (go_to (ReadingStats (Suc k)) s) - Suc k" using Suc.hyps(2) by simp
  qed simp
  ultimately show ?case using over_step [of p D T s StatsReturn] by simp
qed

lemma over_from_records: "tr_pc s = Recording k \<Longrightarrow> over_at_once p D T s"
proof (induction "n_checked s - k" arbitrary: s k)
  case 0
  then have "round_step p D T s PhaseEnds (go_to (if pl_publisher p then ReadingStats 0 else RoundOver) s)"
    by (intro all_recorded [where k = k]) simp_all
  moreover have "over_at_once p D T (go_to (if pl_publisher p then ReadingStats 0 else RoundOver) s)"
    by (cases "pl_publisher p") (simp_all add: over_now over_from_stats [where k = 0])
  ultimately show ?case using over_step [of p D T s PhaseEnds] by simp
next
  case (Suc d)
  have "k < n_checked s" using Suc.hyps(2) by linarith
  then have "round_step p D T s RecordReturns (go_to (Recording (Suc k)) s)" by (rule record_returns [OF Suc.prems])
  moreover have "over_at_once p D T (go_to (Recording (Suc k)) s)"
  proof (rule Suc.hyps(1))
    show "d = n_checked (go_to (Recording (Suc k)) s) - Suc k" using Suc.hyps(2) by simp
  qed simp
  ultimately show ?case using over_step [of p D T s RecordReturns] by simp
qed

inductive_simps pstep_ctx_iff: "pstep s (CtxEnds_check x) t"

lemma ctx_stays: "run pstep s es t \<Longrightarrow> cs_ctx t = None \<Longrightarrow> cs_ctx s = None"
proof (induction rule: run.induct)
  case (run_cons s e t es u)
  then show ?case using pstep_forward [OF run_cons.hyps(1)] by auto
qed

lemma over_from_check:
  "run pstep c es c' \<Longrightarrow> tc_sys (tr_check s) = c \<Longrightarrow> Check_done c' \<Longrightarrow> cs_ctx c' = None \<Longrightarrow> tr_pc s = InCheck \<Longrightarrow>
     over_at_once p D T s"
proof (induction arbitrary: s rule: run.induct)
  case (run_nil c)
  show ?case
    by (rule over_step [OF check_returns]) (use run_nil in \<open>auto intro: over_from_records\<close>)
next
  case (run_cons c e c1 es c2)
  have "cs_ctx c1 = None" using ctx_stays [OF run_cons.hyps(2)] run_cons.prems(3) .
  then have e: "\<forall>x. e \<noteq> CtxEnds_check x" using run_cons.hyps(1) by (auto simp: pstep_ctx_iff)
  have p: "pstep (tc_sys (tr_check s)) e c1" using run_cons.hyps(1) run_cons.prems(1) by simp
  let ?c = "tr_check s\<lparr>tc_sys := c1, tc_since := note_acquire e (tc_clock (tr_check s)) (tc_since (tr_check s))\<rparr>"
  have step: "round_step p D T s (CheckDoes e) (s\<lparr>tr_check := ?c\<rparr>)"
    by (rule check_does [OF run_cons.prems(4) act [OF p e]])
  have "over_at_once p D T (s\<lparr>tr_check := ?c\<rparr>)"
    by (rule run_cons.IH [OF _ run_cons.prems(2,3)]) (simp_all add: run_cons.prems(4))
  from over_step [OF step _ this] show ?case by simp
qed

lemma round_can_end:
  assumes inv: "round_inv p D T s" and idle: "pool_idle p"
  shows "over_at_once p D T s"
proof (cases "tr_pc s")
  case Listing
  show ?thesis by (rule over_step [OF list_failed [OF Listing]]) (simp_all add: over_now)
next
  case InCheck
  with inv obtain ts where "check_inv p ts (tc_sys (tr_check s))" "cs_ctx (tc_sys (tr_check s)) = None"
    by (auto simp: round_inv_def timed_inv_def)
  from Check_completes [OF this(1) idle] this(2) obtain es c where
    c: "run pstep (tc_sys (tr_check s)) es c" "Check_done c" "cs_ctx c = None" by auto
  show ?thesis by (rule over_from_check [OF c(1) refl c(2,3) InCheck])
qed (erule over_from_records over_from_stats over_now)+

section \<open>Properties\<close>

lemma sint_dbOpTimeout: "sint dbOpTimeout = 5000000000"
  by (simp add: dbOpTimeout_def Second_def)

text \<open>
  C3. A round is over in time. Let a round run with any targets, answers, faults and
  interleaving of its goroutines: at every moment no more time has passed since it began
  than one \<open>dbOpTimeout\<close> for the list and two per target, and one \<open>checkTimeout\<close> per
  batch of \<open>MaxWorkers\<close> targets, and it can end without any more time. So nothing in a
  round blocks for ever, and no target waits for the others longer than that.
\<close>

theorem round_ends_in_time:
  assumes "p = SetMetrics m (Pool_New limiter store maxWorkers timeout pub)" and "0 < sint timeout"
    and "round_start s0" and "run (round_step p (nat (sint dbOpTimeout)) (nat (sint timeout))) s0 es s"
  shows "int (tr_clock s) \<le> (2 * int (n_checked s) + 1) * 5000000000 +
       int (batches (n_checked s) (nat (max 1 (sint maxWorkers)))) * sint timeout \<and>
     (\<exists>fs t. run (round_step p (nat (sint dbOpTimeout)) (nat (sint timeout))) s fs t \<and> tr_pc t = RoundOver \<and>
        TimePasses \<notin> set fs)"
proof -
  let ?D = "nat (sint dbOpTimeout)" and ?T = "nat (sint timeout)"
  have idle: "pool_idle p" by (simp add: assms(1) Pool_New_idle)
  have cap: "ch_cap (sem p) = nat (max 1 (sint maxWorkers))"
    by (simp add: assms(1) SetMetrics_def Pool_New_def)
  have "0 < ?T" using assms(2) by simp
  with rounds.inv_reachable [OF assms(3,4)] idle have inv: "round_inv p ?D ?T s" by blast
  have "int (tr_clock s) \<le> int (round_bound (n_checked s) (ch_cap (sem p)) ?D ?T)"
    using round_inv_bound [OF inv] by simp
  also have "\<dots> = (2 * int (n_checked s) + 1) * int ?D + int (batches (n_checked s) (nat (max 1 (sint maxWorkers)))) * int ?T"
    by (simp only: round_bound_def cap of_nat_add of_nat_mult) (simp add: algebra_simps)
  also have "\<dots> = (2 * int (n_checked s) + 1) * 5000000000 +
      int (batches (n_checked s) (nat (max 1 (sint maxWorkers)))) * sint timeout"
    using assms(2) by (simp only: sint_dbOpTimeout int_nat_eq) simp
  finally show ?thesis using round_can_end [OF inv idle] by (simp add: over_at_once_def)
qed

section \<open>A slow round\<close>

text \<open>One worker and two targets whose limiter does not answer before the timeout, of two units.\<close>

definition slow_pool :: pool where
  "slow_pool = SetMetrics False (Pool_New True True 1 2 True)"

definition slow_start :: timed_round where
  "slow_start = \<lparr>tr_pc = Listing, tr_clock = 0, tr_op = 0,
     tr_check = \<lparr>tc_sys = demo_start, tc_clock = 0, tc_since = []\<rparr>\<rparr>"

definition slow_check :: timed where
  "slow_check = \<lparr>tc_sys = demo_start\<lparr>cs_pool := slow_pool\<rparr>, tc_clock = 0, tc_since = [0, 0]\<rparr>"

inductive_simps pstep_iffs: "pstep s (StartCheck i) t" "pstep s (Domain i now) t" "pstep s (LimiterReturns i a) t"
  "pstep s (FinishCheck i) t" "pstep s (WriteResult i) t" "pstep s (Release i) t" "pstep s (WgDone i) t"

definition one_check :: "nat \<Rightarrow> tevent list" where
  "one_check i = map Act [Acquire i, StartCheck i, Domain i 0]"

definition one_end :: "nat \<Rightarrow> tevent list" where
  "one_end i = map Act [LimiterReturns i (Some ErrClosed), FinishCheck i, WriteResult i, Release i, WgDone i]"

lemma demo_domains: "domainOf ''http://a/'' = Inr ''a''" "domainOf ''http://b/'' = Inr ''b''"
  by code_simp+

lemma after_demo: "i < 2 \<Longrightarrow> after_domain True (demo_targets ! i) now = InLimiter now (if i = 0 then ''a'' else ''b'')"
  by (cases i) (auto simp: after_domain_def checkOne_domain_def demo_targets_def demo_domains)

lemma slow_listed: "round_step slow_pool D T slow_start (Listed demo_targets) (slow_start\<lparr>tr_pc := InCheck, tr_check := slow_check\<rparr>)"
proof (rule listed)
  have "pool_idle slow_pool" by (simp add: slow_pool_def Pool_New_idle)
  then show "timed_init slow_pool demo_targets slow_check"
    by (simp add: timed_init_def slow_check_def Check_init_def demo_start_def demo_targets_def numeral_eq_Suc)
qed (simp add: slow_start_def)

lemma slow_views: "sem slow_pool = make_chan 1" "pl_limiter slow_pool" "\<not> pl_metrics slow_pool"
  by (simp_all add: slow_pool_def SetMetrics_def Pool_New_def)

lemma all_two: "(\<forall>i < Suc (Suc 0). P i) \<longleftrightarrow> P 0 \<and> P (Suc 0)"
  by (auto simp: less_Suc_eq)

lemma slow_checks:
  "\<exists>c. run (tstep 2) slow_check (one_check 0 @ [OneUnit, OneUnit] @ one_end 0 @ one_check 1 @ [OneUnit, OneUnit]) c \<and>
     tc_clock c = 4 \<and> cs_targets (tc_sys c) = demo_targets \<and> Spawned \<notin> set (cs_pc (tc_sys c)) \<and> \<not> Check_done (tc_sys c)"
  by (simp add: one_check_def one_end_def run_Cons_iff tstep_act_iff tstep_unit_iff pstep_acquire_iff pstep_iffs
      try_send_def recv_def step_defs after_demo slow_check_def demo_start_def slow_views all_two
      Check_done_def after_wait_def checkOne_waited_def numeral_eq_Suc)

text \<open>A run of the checks that does not finish them is a part of a round.\<close>

lemma done_pstep: "pstep c e d \<Longrightarrow> Check_done c \<Longrightarrow> Check_done d"
proof -
  assume step: "pstep c e d" and all: "Check_done c"
  have "\<not> stage_of (Finished r) < stage_of g" for r g
    using stage_rank_le [of "stage_of g"] by (auto simp: less_stage_def)
  with all have "\<not> stage_of (pc_at c i) < stage_of g" if "i < length (cs_pc c)" for i g
    using that by (metis Check_done_def nth_mem)
  with pstep_forward [OF step] all show ?thesis by (auto simp: Check_done_def)
qed

lemma done_tstep: "tstep T c e d \<Longrightarrow> Check_done (tc_sys c) \<Longrightarrow> Check_done (tc_sys d)"
  by (erule tstep.cases) (auto intro: done_pstep)

lemma still_open: "run (tstep T) c es c' \<Longrightarrow> \<not> Check_done (tc_sys c') \<Longrightarrow> \<not> Check_done (tc_sys c)"
  using run_preserves [where P = "\<lambda>c. Check_done (tc_sys c)", of "tstep T" c es c'] done_tstep by blast

lemma checks_lift:
  "run (tstep T) c es c' \<Longrightarrow> \<not> Check_done (tc_sys c') \<Longrightarrow> tr_pc s = InCheck \<Longrightarrow> tr_check s = c \<Longrightarrow>
     \<exists>fs t. run (round_step p D T) s fs t \<and> tr_pc t = InCheck \<and> tr_check t = c' \<and>
       tr_clock t + tc_clock c = tr_clock s + tc_clock c'"
proof (induction arbitrary: s rule: run.induct)
  case (run_nil c)
  then show ?case by (intro exI [of _ "[]"] exI [of _ s]) simp
next
  case (run_cons c e c1 es c2)
  have "\<not> Check_done (tc_sys c)"
    by (rule still_open [OF run.run_cons [OF run_cons.hyps] run_cons.prems(1)])
  note unfinished = this
  from run_cons.hyps(1) obtain f s1 where s1: "round_step p D T s f s1" "tr_pc s1 = InCheck" "tr_check s1 = c1"
    "tr_clock s1 + tc_clock c = tr_clock s + tc_clock c1"
  proof (cases rule: tstep.cases)
    case (act e' d)
    from check_does [of s T e' c1 p D] run_cons.prems(2,3) run_cons.hyps(1) act(1,2) show ?thesis
      by (intro that [of "CheckDoes e'" "s\<lparr>tr_check := c1\<rparr>"]) simp_all
  next
    case one_unit
    from check_waits [of s T c1 p D] run_cons.prems(2,3) run_cons.hyps(1) one_unit(1,2) unfinished
    show ?thesis
      by (intro that [of TimePasses "s\<lparr>tr_check := c1, tr_clock := Suc (tr_clock s)\<rparr>"]) simp_all
  qed
  from run_cons.IH [OF run_cons.prems(1) s1(2,3)] obtain fs t where
    "run (round_step p D T) s1 fs t" "tr_pc t = InCheck" "tr_check t = c2" "tr_clock t + tc_clock c1 = tr_clock s1 + tc_clock c2"
    by blast
  with s1 show ?case by (intro exI [of _ "f # fs"] exI [of _ t]) (auto intro: run.run_cons)
qed

text \<open>The bound is reached: two batches of one check that both run into the timeout.\<close>

theorem round_ends_in_time_witness:
  "\<exists>es s. run (round_step slow_pool (nat (sint dbOpTimeout)) 2) slow_start es s \<and> tr_pc s = InCheck \<and>
     tr_clock s = 4 \<and> int (batches (n_checked s) 1) * 2 = 4 \<and> int (tr_clock s) \<le> 25000000004"
proof -
  let ?D = "nat (sint dbOpTimeout)" and ?s = "slow_start\<lparr>tr_pc := InCheck, tr_check := slow_check\<rparr>"
  obtain c es where c: "run (tstep 2) slow_check es c" "tc_clock c = 4" "cs_targets (tc_sys c) = demo_targets"
    "\<not> Check_done (tc_sys c)" using slow_checks by blast
  from checks_lift [OF c(1,4), of ?s slow_pool ?D] obtain fs t where
    t: "run (round_step slow_pool ?D 2) ?s fs t" "tr_pc t = InCheck" "tr_check t = c" "tr_clock t = 4"
    by (auto simp: slow_start_def slow_check_def c(2))
  have n: "n_checked t = 2" by (simp add: n_checked_def t(3) c(3) demo_targets_def)
  from slow_listed t(1) have r: "run (round_step slow_pool ?D 2) slow_start (Listed demo_targets # fs) t"
    by (rule run_cons)
  have start: "round_start slow_start" by (simp add: round_start_def slow_start_def)
  have two: "nat (sint (2 :: duration)) = 2" "0 < sint (2 :: duration)" by simp_all
  have b: "batches 2 (Suc 0) = 2" by (simp add: batches_def)
  from round_ends_in_time [OF slow_pool_def two(2) start, unfolded two(1), OF r]
  have "int (tr_clock t) \<le> 25000000004" by (simp add: n b)
  with r t(2,4) n b show ?thesis by (intro exI [of _ "Listed demo_targets # fs"] exI [of _ t]) simp
qed

end
