(* ===== verification/Store.thy ===== *)
theory Store
  imports Monitor_Check
begin

text \<open>
  \<open>internal/store/store.go\<close> over the schema of \<open>migrations/001_init.sql\<close>. The tables
  are lists of rows and each statement of the source is a function on them that
  enforces the constraints of the schema: the unique URL, the foreign key with its
  cascade, and the range of an \<open>INTEGER\<close> column. What the server decides by itself
  is an argument: the new id, the clock, a fault of the connection, how a text is read
  as a UUID, and the percentile aggregate.
\<close>

section \<open>Tables\<close>

record check_row =
  row_target :: string
  status_code :: int
  duration_ms :: int
  error_message :: "string option"
  checked_at :: time

record tables =
  tb_targets :: "(target \<times> time) list"   \<comment> \<open>with \<open>created_at\<close>\<close>
  tb_checks :: "check_row list"

definition InitSQL :: tables where
  "InitSQL = \<lparr>tb_targets = [], tb_checks = []\<rparr>"

text \<open>A SQL error of the server with its code, or a failure of the driver.\<close>

datatype pg_err = PgCode string | DriverErr string

datatype store_err =
    ErrTargetExists
  | ErrTargetNotFound
  | CreateErr pg_err | ListErr pg_err | ScanErr pg_err | RowsErr pg_err
  | DeleteErr pg_err | RecordErr pg_err | StatsErr pg_err

definition target_ids :: "tables \<Rightarrow> string list" where
  "target_ids tb = map (ID \<circ> fst) (tb_targets tb)"

definition target_urls :: "tables \<Rightarrow> string list" where
  "target_urls tb = map (URL \<circ> fst) (tb_targets tb)"

definition int4 :: "int \<Rightarrow> bool" where
  "int4 k \<longleftrightarrow> - (2 ^ 31) \<le> k \<and> k < 2 ^ 31"

lemma tables_frame [simp]:
  "target_ids (tb\<lparr>tb_checks := cs\<rparr>) = target_ids tb" "target_urls (tb\<lparr>tb_checks := cs\<rparr>) = target_urls tb"
  by (simp_all add: target_ids_def target_urls_def)

section \<open>The statements\<close>

text \<open>\<open>INSERT INTO targets (url) VALUES ($1) RETURNING id, url\<close>\<close>

definition sql_insert_target :: "string \<Rightarrow> time \<Rightarrow> string \<Rightarrow> tables \<Rightarrow> pg_err + (target \<times> tables)" where
  "sql_insert_target newid now url tb =
     (if url \<in> set (target_urls tb) \<or> newid \<in> set (target_ids tb) then Inl (PgCode ''23505'')
      else (let t = \<lparr>ID = newid, URL = url\<rparr> in Inr (t, tb\<lparr>tb_targets := tb_targets tb @ [(t, now)]\<rparr>)))"

text \<open>
  \<open>DELETE FROM targets WHERE id = $1\<close>: the number of rows, and the cascade. \<open>uuid_in\<close> is
  the input function of the type \<open>UUID\<close>: it refuses a text or gives the id in the one
  spelling in which ids are given back.
\<close>

definition sql_delete_target :: "(string \<Rightarrow> string option) \<Rightarrow> string \<Rightarrow> tables \<Rightarrow> pg_err + (nat \<times> tables)" where
  "sql_delete_target uuid_in text tb =
     (case uuid_in text of
        None \<Rightarrow> Inl (PgCode ''22P02'')
      | Some tid \<Rightarrow> Inr (count_of (\<lambda>x. x = tid) (target_ids tb),
                tb\<lparr>tb_targets := filter (\<lambda>(t, _). ID t \<noteq> tid) (tb_targets tb),
                   tb_checks := filter (\<lambda>c. row_target c \<noteq> tid) (tb_checks tb)\<rparr>))"

text \<open>\<open>INSERT INTO checks (...) VALUES ($1, $2, $3, $4, $5)\<close>\<close>

definition sql_insert_check :: "check_row \<Rightarrow> tables \<Rightarrow> pg_err + tables" where
  "sql_insert_check c tb =
     (if \<not> int4 (status_code c) \<or> \<not> int4 (duration_ms c) then Inl (PgCode ''22003'')
      else if row_target c \<notin> set (target_ids tb) then Inl (PgCode ''23503'')
      else Inr (tb\<lparr>tb_checks := tb_checks tb @ [c]\<rparr>))"

text \<open>The \<open>FILTER\<close> of \<open>RecentStats\<close>, and its \<open>WHERE\<close>.\<close>

definition row_failed :: "check_row \<Rightarrow> bool" where
  "row_failed c \<longleftrightarrow> error_message c \<noteq> None \<or> status_code c < 200 \<or> 400 \<le> status_code c"

definition rows_since :: "string \<Rightarrow> time \<Rightarrow> time \<Rightarrow> tables \<Rightarrow> check_row list" where
  "rows_since tid window now tb =
     filter (\<lambda>c. row_target c = tid \<and> now \<le> checked_at c + window) (tb_checks tb)"

section \<open>The operations\<close>

definition CreateTarget ::
    "pg_err option \<Rightarrow> string \<Rightarrow> time \<Rightarrow> string \<Rightarrow> tables \<Rightarrow> (store_err + target) \<times> tables" where
  "CreateTarget fault newid now url tb =
     (case (case fault of Some e \<Rightarrow> Inl e | None \<Rightarrow> sql_insert_target newid now url tb) of
        Inl e \<Rightarrow> (if e = PgCode ''23505'' then (Inl ErrTargetExists, tb) else (Inl (CreateErr e), tb))
      | Inr (t, tb') \<Rightarrow> (Inr t, tb'))"

text \<open>The three places where \<open>ListTargets\<close> can fail.\<close>

datatype list_fault = QueryFails pg_err | ScanFails nat pg_err | IterationFails pg_err

definition ListTargets :: "list_fault option \<Rightarrow> tables \<Rightarrow> store_err + target list" where
  "ListTargets fault tb =
     (let rows = map fst (sort_key snd (tb_targets tb)) in
      case fault of
        Some (QueryFails e) \<Rightarrow> Inl (ListErr e)
      | Some (ScanFails i e) \<Rightarrow> (if i < length rows then Inl (ScanErr e) else Inr rows)
      | Some (IterationFails e) \<Rightarrow> Inl (RowsErr e)
      | None \<Rightarrow> Inr rows)"

definition DeleteTarget ::
    "(string \<Rightarrow> string option) \<Rightarrow> pg_err option \<Rightarrow> string \<Rightarrow> tables \<Rightarrow> store_err option \<times> tables" where
  "DeleteTarget uuid_in fault tid tb =
     (case (case fault of Some e \<Rightarrow> Inl e | None \<Rightarrow> sql_delete_target uuid_in tid tb) of
        Inl e \<Rightarrow> (Some (DeleteErr e), tb)
      | Inr (n, tb') \<Rightarrow> (if n = 0 then (Some ErrTargetNotFound, tb') else (None, tb')))"

definition RecordCheck ::
    "pg_err option \<Rightarrow> string \<Rightarrow> int \<Rightarrow> int \<Rightarrow> string \<Rightarrow> time \<Rightarrow> tables \<Rightarrow> store_err option \<times> tables" where
  "RecordCheck fault targetID statusCode durationMs errMsg checkedAt tb =
     (let errStr = (if errMsg \<noteq> [] then Some errMsg else None);
          row = \<lparr>row_target = targetID, status_code = statusCode, duration_ms = durationMs,
                 error_message = errStr, checked_at = checkedAt\<rparr>
      in case (case fault of Some e \<Rightarrow> Inl e | None \<Rightarrow> sql_insert_check row tb) of
        Inl e \<Rightarrow> (Some (RecordErr e), tb)
      | Inr tb' \<Rightarrow> (None, tb'))"

definition recentWindow :: time where
  "recentWindow = 24 * 3600 * 1000000000"

text \<open>\<open>percentile p ms\<close> stands for \<open>PERCENTILE_CONT\<close> over the durations, as \<open>int(...)\<close> truncates it.\<close>

definition RecentStats ::
    "(nat \<Rightarrow> int list \<Rightarrow> int) \<Rightarrow> pg_err option \<Rightarrow> time \<Rightarrow> string \<Rightarrow> tables \<Rightarrow> store_err + stats" where
  "RecentStats percentile fault now targetID tb =
     (case fault of
        Some e \<Rightarrow> Inl (StatsErr e)
      | None \<Rightarrow> (let rows = rows_since targetID recentWindow now tb; ms = map duration_ms rows in
          Inr \<lparr>TargetID = targetID, TotalChecks = int (length rows),
               Failures = int (count_of row_failed rows),
               P50LatencyMS = (if rows = [] then 0 else percentile 50 ms),
               P99LatencyMS = (if rows = [] then 0 else percentile 99 ms)\<rparr>))"

section \<open>The constraints as an invariant\<close>

definition tables_ok :: "tables \<Rightarrow> bool" where
  "tables_ok tb \<longleftrightarrow> distinct (target_urls tb) \<and> distinct (target_ids tb) \<and>
     (\<forall>c \<in> set (tb_checks tb). row_target c \<in> set (target_ids tb))"

lemma tables_ok_init [simp]: "tables_ok InitSQL"
  by (simp add: tables_ok_def InitSQL_def target_urls_def target_ids_def)

lemma insert_target_ok:
  "tables_ok tb \<Longrightarrow> sql_insert_target newid now url tb = Inr (t, tb') \<Longrightarrow> tables_ok tb'"
  by (auto simp: sql_insert_target_def tables_ok_def target_urls_def target_ids_def Let_def split: if_splits)

lemma delete_target_ok:
  assumes "tables_ok tb" and "sql_delete_target uuid_in tid tb = Inr (n, tb')"
  shows "tables_ok tb'"
proof -
  obtain u where tb': "tb' = tb\<lparr>tb_targets := filter (\<lambda>(t, _). ID t \<noteq> u) (tb_targets tb),
      tb_checks := filter (\<lambda>c. row_target c \<noteq> u) (tb_checks tb)\<rparr>"
    using assms(2) by (auto simp: sql_delete_target_def split: option.splits)
  have "distinct (target_urls tb')" "distinct (target_ids tb')"
    using assms(1) by (simp_all add: tables_ok_def target_urls_def target_ids_def tb' distinct_map_filter)
  then show ?thesis using assms(1) by (fastforce simp: tables_ok_def target_ids_def tb')
qed

lemma insert_check_ok:
  "tables_ok tb \<Longrightarrow> sql_insert_check c tb = Inr tb' \<Longrightarrow> tables_ok tb'"
  by (auto simp: sql_insert_check_def tables_ok_def split: if_splits)

lemma CreateTarget_ok:
  "tables_ok tb \<Longrightarrow> tables_ok (snd (CreateTarget fault newid now url tb))"
  by (auto simp: CreateTarget_def intro: insert_target_ok split: option.splits sum.splits)

lemma DeleteTarget_ok: "tables_ok tb \<Longrightarrow> tables_ok (snd (DeleteTarget uuid_in fault tid tb))"
  by (auto simp: DeleteTarget_def intro: delete_target_ok split: option.splits sum.splits)

lemma RecordCheck_ok: "tables_ok tb \<Longrightarrow> tables_ok (snd (RecordCheck fault t s d m at tb))"
  by (auto simp: RecordCheck_def Let_def intro: insert_check_ok split: option.splits sum.splits)

section \<open>The contract the HTTP layer relies on\<close>

text \<open>
  A store of targets as its client sees it. The outcome of a creation is a relation,
  because the server picks the id.
\<close>

locale target_store =
  fixes creates :: "string \<Rightarrow> 's \<Rightarrow> 'e + target \<Rightarrow> 's \<Rightarrow> bool"
    and remove :: "string \<Rightarrow> 's \<Rightarrow> 'e option \<times> 's"
    and listed :: "'s \<Rightarrow> target list"
    and ok :: "'s \<Rightarrow> bool"
    and valid :: "string \<Rightarrow> bool"
    and exists_err :: 'e and missing_err :: 'e
  assumes create_dup: "ok s \<Longrightarrow> url \<in> URL ` set (listed s) \<Longrightarrow> creates url s r s' \<Longrightarrow> r = Inl exists_err \<and> s' = s"
    and create_new: "ok s \<Longrightarrow> url \<notin> URL ` set (listed s) \<Longrightarrow> creates url s r s' \<Longrightarrow>
      \<exists>t. r = Inr t \<and> URL t = url \<and> ID t \<notin> ID ` set (listed s) \<and> set (listed s') = insert t (set (listed s)) \<and> ok s'"
    and remove_missing: "ok s \<Longrightarrow> valid tid \<Longrightarrow> tid \<notin> ID ` set (listed s) \<Longrightarrow> remove tid s = (Some missing_err, s)"
    and remove_known: "ok s \<Longrightarrow> valid tid \<Longrightarrow> tid \<in> ID ` set (listed s) \<Longrightarrow>
      \<exists>s'. remove tid s = (None, s') \<and> set (listed s') = {t \<in> set (listed s). ID t \<noteq> tid} \<and> ok s'"
begin

lemma create_ok: "ok s \<Longrightarrow> creates url s r s' \<Longrightarrow> ok s'"
  by (cases "url \<in> URL ` set (listed s)") (use create_dup create_new in blast)+

lemma create_twice:
  assumes "ok s" and "creates url s (Inr t) s1" and "creates url s1 r s2"
  shows "r = Inl exists_err \<and> s2 = s1"
proof -
  have new: "url \<notin> URL ` set (listed s)" using create_dup [OF assms(1) _ assms(2)] by blast
  from create_new [OF assms(1) new assms(2)]
  have "URL t = url" "set (listed s1) = insert t (set (listed s))" "ok s1" by auto
  then have "url \<in> URL ` set (listed s1)" by auto
  from create_dup [OF \<open>ok s1\<close> this assms(3)] show ?thesis .
qed

lemma create_then_remove:
  assumes "ok s" and "creates url s (Inr t) s1" and "valid (ID t)"
  shows "\<exists>s2. remove (ID t) s1 = (None, s2) \<and> set (listed s2) = set (listed s) \<and> ok s2 \<and>
     remove (ID t) s2 = (Some missing_err, s2)"
proof -
  have new: "url \<notin> URL ` set (listed s)" using create_dup [OF assms(1) _ assms(2)] by blast
  from create_new [OF assms(1) new assms(2)]
  have t: "ID t \<notin> ID ` set (listed s)" "set (listed s1) = insert t (set (listed s))" "ok s1" by auto
  then have "ID t \<in> ID ` set (listed s1)" by auto
  from remove_known [OF t(3) assms(3) this] obtain s2 where
    s2: "remove (ID t) s1 = (None, s2)" "set (listed s2) = {u \<in> set (listed s1). ID u \<noteq> ID t}" "ok s2" by blast
  moreover have "ID u \<noteq> ID t" if "u \<in> set (listed s)" for u using t(1) that by (metis imageI)
  then have "set (listed s2) = set (listed s)" using s2(2) t(2) by auto
  ultimately show ?thesis using remove_missing [OF s2(3) assms(3)] t(1) by simp
qed

end

definition creates_target :: "string \<Rightarrow> tables \<Rightarrow> store_err + target \<Rightarrow> tables \<Rightarrow> bool" where
  "creates_target url tb r tb' \<longleftrightarrow>
     (\<exists>newid now. newid \<notin> set (target_ids tb) \<and> CreateTarget None newid now url tb = (r, tb'))"

definition listed_targets :: "tables \<Rightarrow> target list" where
  "listed_targets tb = (case ListTargets None tb of Inl _ \<Rightarrow> [] | Inr ts \<Rightarrow> ts)"

lemma listed_set: "set (listed_targets tb) = fst ` set (tb_targets tb)"
  by (simp add: listed_targets_def ListTargets_def)

lemma listed_views: "URL ` set (listed_targets tb) = set (target_urls tb)" "ID ` set (listed_targets tb) = set (target_ids tb)"
  by (auto simp: listed_set target_urls_def target_ids_def image_image)

lemma delete_count:
  "distinct (target_ids tb) \<Longrightarrow> count_of (\<lambda>x. x = tid) (target_ids tb) = (if tid \<in> set (target_ids tb) then 1 else 0)"
proof -
  have "distinct xs \<Longrightarrow> count_of (\<lambda>x. x = tid) xs = (if tid \<in> set xs then 1 else 0)" for xs :: "string list"
    by (induction xs) auto
  then show "distinct (target_ids tb) \<Longrightarrow> ?thesis" by simp
qed

lemma delete_unknown: "tid \<notin> set (target_ids tb) \<Longrightarrow> tables_ok tb \<Longrightarrow>
    tb\<lparr>tb_targets := filter (\<lambda>(t, _). ID t \<noteq> tid) (tb_targets tb),
       tb_checks := filter (\<lambda>c. row_target c \<noteq> tid) (tb_checks tb)\<rparr> = tb"
proof -
  assume "tid \<notin> set (target_ids tb)" "tables_ok tb"
  then have "filter (\<lambda>(t, _). ID t \<noteq> tid) (tb_targets tb) = tb_targets tb"
    "filter (\<lambda>c. row_target c \<noteq> tid) (tb_checks tb) = tb_checks tb"
    by (force simp: filter_id_conv target_ids_def tables_ok_def)+
  then show ?thesis by simp
qed

interpretation pg_store: target_store creates_target "DeleteTarget uuid_in None" listed_targets tables_ok
    "\<lambda>tid. uuid_in tid = Some tid" ErrTargetExists ErrTargetNotFound for uuid_in
proof
  fix tb tb' url r
  assume ok: "tables_ok tb" and c: "creates_target url tb r tb'"
  then obtain newid now where n: "newid \<notin> set (target_ids tb)" "CreateTarget None newid now url tb = (r, tb')"
    by (auto simp: creates_target_def)
  show "url \<in> URL ` set (listed_targets tb) \<Longrightarrow> r = Inl ErrTargetExists \<and> tb' = tb"
    using n by (auto simp: listed_views CreateTarget_def sql_insert_target_def)
  assume "url \<notin> URL ` set (listed_targets tb)"
  then have "r = Inr \<lparr>ID = newid, URL = url\<rparr>" "tb' = tb\<lparr>tb_targets := tb_targets tb @ [(\<lparr>ID = newid, URL = url\<rparr>, now)]\<rparr>"
    using n by (auto simp: listed_views CreateTarget_def sql_insert_target_def Let_def)
  moreover have "tables_ok tb'" using CreateTarget_ok [OF ok, of None newid now url] n(2) by simp
  ultimately show "\<exists>t. r = Inr t \<and> URL t = url \<and> ID t \<notin> ID ` set (listed_targets tb) \<and>
      set (listed_targets tb') = insert t (set (listed_targets tb)) \<and> tables_ok tb'"
    using n(1) by (simp add: listed_views) (simp add: listed_set)
next
  fix tb tid
  assume ok: "tables_ok tb" and u: "uuid_in tid = Some tid"
  note count = delete_count [of tb tid]
  show "tid \<notin> ID ` set (listed_targets tb) \<Longrightarrow> DeleteTarget uuid_in None tid tb = (Some ErrTargetNotFound, tb)"
    using ok u count delete_unknown [of tid tb]
    by (simp add: listed_views DeleteTarget_def sql_delete_target_def tables_ok_def)
  let ?tb = "tb\<lparr>tb_targets := filter (\<lambda>(t, _). ID t \<noteq> tid) (tb_targets tb),
       tb_checks := filter (\<lambda>c. row_target c \<noteq> tid) (tb_checks tb)\<rparr>"
  assume "tid \<in> ID ` set (listed_targets tb)"
  then have "DeleteTarget uuid_in None tid tb = (None, ?tb)"
    using ok u count by (simp add: listed_views DeleteTarget_def sql_delete_target_def tables_ok_def)
  moreover from this have "tables_ok ?tb" using DeleteTarget_ok [OF ok, of uuid_in None tid] by simp
  moreover have "set (listed_targets ?tb) = {t \<in> set (listed_targets tb). ID t \<noteq> tid}"
    by (force simp: listed_set)
  ultimately show "\<exists>s'. DeleteTarget uuid_in None tid tb = (None, s') \<and>
      set (listed_targets s') = {t \<in> set (listed_targets tb). ID t \<noteq> tid} \<and> tables_ok s'"
    by blast
qed

section \<open>Properties\<close>

text \<open>The writing operations in any order, each with its own fault or none.\<close>

datatype store_op =
    OpCreate "pg_err option" string time string
  | OpDelete "pg_err option" string
  | OpRecord "pg_err option" string int int string time

fun apply_op :: "(string \<Rightarrow> string option) \<Rightarrow> store_op \<Rightarrow> tables \<Rightarrow> tables" where
  "apply_op uuid_in (OpCreate fault newid now url) tb = snd (CreateTarget fault newid now url tb)"
| "apply_op uuid_in (OpDelete fault tid) tb = snd (DeleteTarget uuid_in fault tid tb)"
| "apply_op uuid_in (OpRecord fault t s d m at) tb = snd (RecordCheck fault t s d m at tb)"

lemma apply_op_ok: "tables_ok tb \<Longrightarrow> tables_ok (apply_op uuid_in op tb)"
  by (cases op) (simp_all add: CreateTarget_ok DeleteTarget_ok RecordCheck_ok)


text \<open>
  Creating and deleting are inverse, and each tells when it has nothing to do. After
  a target has been created, creating its URL again reports \<open>ErrTargetExists\<close> and
  changes nothing; deleting it restores the list there was before; and deleting it
  again reports \<open>ErrTargetNotFound\<close> and changes nothing.
\<close>

theorem create_delete_contract:
  assumes "tables_ok tb" and "creates_target url tb (Inr t) tb1" and "uuid_in (ID t) = Some (ID t)"
  shows "(\<forall>r tb2. creates_target url tb1 r tb2 \<longrightarrow> r = Inl ErrTargetExists \<and> tb2 = tb1) \<and>
     (\<exists>tb2. DeleteTarget uuid_in None (ID t) tb1 = (None, tb2) \<and>
        set (listed_targets tb2) = set (listed_targets tb) \<and>
        DeleteTarget uuid_in None (ID t) tb2 = (Some ErrTargetNotFound, tb2))"
  using pg_store.create_twice [OF assms(1,2)] pg_store.create_then_remove [where uuid_in = uuid_in, OF assms] by blast

theorem create_delete_contract_witness:
  "\<exists>tb1 tb2. creates_target ''http://a/'' InitSQL (Inr \<lparr>ID = ''1'', URL = ''http://a/''\<rparr>) tb1 \<and>
     DeleteTarget Some None ''1'' tb1 = (None, tb2) \<and> set (listed_targets tb2) = {}"
proof -
  have "CreateTarget None ''1'' 0 ''http://a/'' InitSQL =
      (Inr \<lparr>ID = ''1'', URL = ''http://a/''\<rparr>, \<lparr>tb_targets = [(\<lparr>ID = ''1'', URL = ''http://a/''\<rparr>, 0)], tb_checks = []\<rparr>)"
    by code_simp
  then have c: "creates_target ''http://a/'' InitSQL (Inr \<lparr>ID = ''1'', URL = ''http://a/''\<rparr>)
      \<lparr>tb_targets = [(\<lparr>ID = ''1'', URL = ''http://a/''\<rparr>, 0)], tb_checks = []\<rparr>"
    unfolding creates_target_def
    by (intro exI [of _ "''1''"] exI [of _ 0]) (simp add: InitSQL_def target_ids_def)
  from create_delete_contract [OF tables_ok_init c, of Some] c show ?thesis
    by (auto simp: listed_set InitSQL_def)
qed

end
