(* ===== verification/Handlers.thy ===== *)
theory Handlers
  imports Store Sse_Frame Go_Http
begin

text \<open>
  The request handlers and publishers of \<open>internal/handlers/handlers.go\<close> and the
  \<open>Recover\<close> middleware. The template engine is an argument: \<open>render v\<close> is what
  \<open>ExecuteTemplate\<close> writes for a view and whether it succeeds. The store is an
  argument as well, as the \<open>Store\<close> interface of the package is. A handler returns
  its response, the new state of the store and the events it publishes.
\<close>

section \<open>Views and publishers\<close>

record check_status_view =
  cv_id :: string
  cv_status :: string
  cv_label :: string
  cv_latency :: string
  cv_error :: string

datatype view =
    IndexView "target list"
  | RowView target
  | StatusView check_status_view
  | StatsView string int int int int
  | AddedView target
  | RemovedView string

type_synonym renderer = "view \<Rightarrow> string \<times> bool"

text \<open>The em dash, in UTF-8.\<close>

definition em_dash :: string where
  "em_dash = [CHR 0xE2, CHR 0x80, CHR 0x94]"

definition checkStatusFromResult :: "(string \<Rightarrow> string) \<Rightarrow> result \<Rightarrow> check_status_view" where
  "checkStatusFromResult quote r =
     \<lparr>cv_id = ID (Target r),
      cv_status = (if Failed r then ''down'' else ''up''),
      cv_label = (if Failed r then ''Down'' else ''Up''),
      cv_latency = (if i64_lt 0 (Duration r) then show_int (sint (Milliseconds (Duration r))) @ '' ms'' else em_dash),
      cv_error = (case Err r of None \<Rightarrow> [] | Some e \<Rightarrow> Error_text quote e)\<rparr>"

text \<open>What each of the four publishers hands to \<open>hub.Publish\<close>, if anything.\<close>

definition publish_view :: "renderer \<Rightarrow> bool \<Rightarrow> string \<Rightarrow> view \<Rightarrow> event list" where
  "publish_view render hub_nil name v =
     (if hub_nil then []
      else (case render v of (bytes, ok) \<Rightarrow> if ok then [\<lparr>Name = name, Data = bytes\<rparr>] else []))"

definition PublishCheck :: "(string \<Rightarrow> string) \<Rightarrow> renderer \<Rightarrow> bool \<Rightarrow> result \<Rightarrow> event list" where
  "PublishCheck quote render hub_nil r =
     publish_view render hub_nil ''check'' (StatusView (checkStatusFromResult quote r))"

definition PublishStats :: "renderer \<Rightarrow> bool \<Rightarrow> string \<Rightarrow> int \<Rightarrow> int \<Rightarrow> int \<Rightarrow> int \<Rightarrow> event list" where
  "PublishStats render hub_nil targetID checks failed p50 p99 =
     publish_view render hub_nil ''stats'' (StatsView targetID checks failed p50 p99)"

definition PublishTargetAdded :: "renderer \<Rightarrow> bool \<Rightarrow> target \<Rightarrow> event list" where
  "PublishTargetAdded render hub_nil t = publish_view render hub_nil ''target_added'' (AddedView t)"

definition PublishTargetRemoved :: "renderer \<Rightarrow> bool \<Rightarrow> string \<Rightarrow> event list" where
  "PublishTargetRemoved render hub_nil tid = publish_view render hub_nil ''target_removed'' (RemovedView tid)"

section \<open>Handlers\<close>

definition html_header :: "response \<Rightarrow> response" where
  "html_header w = Header_Set ''Content-Type'' ''text/html; charset=utf-8'' w"

definition HandleIndex :: "renderer \<Rightarrow> store_err + target list \<Rightarrow> response \<Rightarrow> response" where
  "HandleIndex render listing w =
     (case listing of
        Inl _ \<Rightarrow> http_Error ''Internal Server Error'' StatusInternalServerError w
      | Inr targets \<Rightarrow> Write (fst (render (IndexView targets))) (html_header w))"

fun write_rows :: "renderer \<Rightarrow> target list \<Rightarrow> response \<Rightarrow> response" where
  "write_rows render [] w = w"
| "write_rows render (t # ts) w =
     (case render (RowView t) of (bytes, ok) \<Rightarrow>
        if ok then write_rows render ts (Write bytes w) else Write bytes w)"

definition HandleListTargets :: "renderer \<Rightarrow> store_err + target list \<Rightarrow> response \<Rightarrow> response" where
  "HandleListTargets render listing w =
     (case listing of
        Inl _ \<Rightarrow> http_Error ''Internal Server Error'' StatusInternalServerError w
      | Inr targets \<Rightarrow> write_rows render targets (html_header w))"

definition validateTargetURL :: "string \<Rightarrow> string + string" where
  "validateTargetURL given =
     (let rawURL = TrimSpace given in
      if rawURL = [] then Inl ''URL is required''
      else (case ParseRequestURI rawURL of
          Inl _ \<Rightarrow> Inl ''URL must include a valid host''
        | Inr parsed \<Rightarrow>
            (if Host parsed = [] then Inl ''URL must include a valid host''
             else if Scheme parsed \<noteq> ''http'' \<and> Scheme parsed \<noteq> ''https'' then Inl ''URL scheme must be http or https''
             else Inr rawURL)))"

definition HandleCreateTarget ::
    "renderer \<Rightarrow> bool \<Rightarrow> (string \<Rightarrow> 's \<Rightarrow> (store_err + target) \<times> 's) \<Rightarrow> bool \<Rightarrow> string \<Rightarrow> response \<Rightarrow> 's
       \<Rightarrow> response \<times> 's \<times> event list" where
  "HandleCreateTarget render hub_nil create form_ok form_url w s =
     (if \<not> form_ok then (http_Error ''Bad Request'' StatusBadRequest w, s, [])
      else (case validateTargetURL form_url of
          Inl msg \<Rightarrow> (http_Error msg StatusBadRequest w, s, [])
        | Inr rawURL \<Rightarrow>
            (case create rawURL s of
               (Inl e, s') \<Rightarrow>
                 (if e = ErrTargetExists
                  then (http_Error ''A target with this URL is already being monitored'' StatusConflict w, s', [])
                  else (http_Error ''Internal Server Error'' StatusInternalServerError w, s', []))
             | (Inr t, s') \<Rightarrow> (WriteHeader StatusOK w, s', PublishTargetAdded render hub_nil t))))"

definition HandleDeleteTarget ::
    "renderer \<Rightarrow> bool \<Rightarrow> (string \<Rightarrow> 's \<Rightarrow> store_err option \<times> 's) \<Rightarrow> string \<Rightarrow> response \<Rightarrow> 's
       \<Rightarrow> response \<times> 's \<times> event list" where
  "HandleDeleteTarget render hub_nil remove tid w s =
     (if tid = [] then (http_Error ''Missing ID'' StatusBadRequest w, s, [])
      else (case remove tid s of
          (Some e, s') \<Rightarrow>
            (if e = ErrTargetNotFound then (http_Error ''Target not found'' StatusNotFound w, s', [])
             else (http_Error ''Internal Server Error'' StatusInternalServerError w, s', []))
        | (None, s') \<Rightarrow> (WriteHeader StatusOK w, s', PublishTargetRemoved render hub_nil tid)))"

text \<open>
  \<open>Recover\<close>: the wrapped handler ends with a response as far as it was written, and
  perhaps a panic.
\<close>

definition Recover :: "(response \<Rightarrow> response \<times> go_panic option) \<Rightarrow> response \<Rightarrow> response" where
  "Recover next_handler w =
     (case next_handler w of
        (w', None) \<Rightarrow> w'
      | (w', Some _) \<Rightarrow> http_Error ''Internal Server Error'' StatusInternalServerError w')"

section \<open>Facts\<close>

lemma final_status_WriteHeader [simp]: "rw_sent w = None \<Longrightarrow> final_status (WriteHeader code w) = code"
  by (simp add: final_status_def)

lemma final_status_error [simp]: "rw_sent w = None \<Longrightarrow> final_status (http_Error msg code w) = code"
  by (simp add: http_Error_fresh)

lemma publish_view_names: "e \<in> set (publish_view render hub_nil name v) \<Longrightarrow> Name e = name"
  by (auto simp: publish_view_def split: if_splits prod.splits)

lemma validate_Inr:
  "validateTargetURL given = Inr raw \<longleftrightarrow>
     raw = TrimSpace given \<and> raw \<noteq> [] \<and>
     (\<exists>u. ParseRequestURI raw = Inr u \<and> Host u \<noteq> [] \<and> (Scheme u = ''http'' \<or> Scheme u = ''https''))"
  by (auto simp: validateTargetURL_def Let_def split: sum.splits if_splits)

section \<open>Properties\<close>

text \<open>
  A creation answers once, with the right status, and is announced exactly when it
  was stored. On a fresh response the status is 400 when the form or the URL is
  refused, 409 for a URL already monitored, 500 for any other failure of the store
  and 200 with an empty body otherwise; the store is called at most once, with the
  trimmed URL; an event is published only in the last case, and then it is one
  \<open>target_added\<close> event with the row of the stored target.
\<close>

theorem HandleCreateTarget_outcome:
  assumes "rw_sent w = None" and "HandleCreateTarget render False create form_ok form_url w s = (w', s', evs)"
  shows "(case (if form_ok then validateTargetURL form_url else Inl []) of
       Inl _ \<Rightarrow> final_status w' = StatusBadRequest \<and> s' = s \<and> evs = []
     | Inr raw \<Rightarrow> raw = TrimSpace form_url \<and> s' = snd (create raw s) \<and>
         (case fst (create raw s) of
            Inl e \<Rightarrow> final_status w' = (if e = ErrTargetExists then StatusConflict else StatusInternalServerError) \<and> evs = []
          | Inr t \<Rightarrow> final_status w' = StatusOK \<and> rw_body w' = rw_body w \<and>
              evs = (case render (AddedView t) of (bytes, ok) \<Rightarrow>
                if ok then [\<lparr>Name = ''target_added'', Data = bytes\<rparr>] else [])))"
proof (cases "if form_ok then validateTargetURL form_url else Inl []")
  case (Inl msg)
  with assms show ?thesis by (auto simp: HandleCreateTarget_def split: if_splits)
next
  case (Inr raw)
  then have v: "form_ok" "validateTargetURL form_url = Inr raw" by (simp_all split: if_splits)
  then have raw: "raw = TrimSpace form_url" by (simp add: validate_Inr)
  obtain answer s1 where c: "create raw s = (answer, s1)" by force
  show ?thesis
  proof (cases answer)
    case (Inl e)
    with assms v c have "w' = (if e = ErrTargetExists
          then http_Error ''A target with this URL is already being monitored'' StatusConflict w
          else http_Error ''Internal Server Error'' StatusInternalServerError w)" "s' = s1" "evs = []"
      by (auto simp: HandleCreateTarget_def split: if_splits)
    then show ?thesis using v raw c Inl assms(1) by simp
  next
    case (Inr t)
    with assms v c have "w' = WriteHeader StatusOK w" "s' = s1" "evs = PublishTargetAdded render False t"
      by (auto simp: HandleCreateTarget_def)
    then show ?thesis using v raw c Inr assms(1) by (simp add: PublishTargetAdded_def publish_view_def)
  qed
qed

definition create_with :: "string \<Rightarrow> time \<Rightarrow> string \<Rightarrow> tables \<Rightarrow> (store_err + target) \<times> tables" where
  "create_with newid now url tb = CreateTarget None newid now url tb"

text \<open>
  Posting and deleting through HTTP. On a sound database, with no fault and a hub: a
  first post of an acceptable URL that is not monitored yet answers 200, a second one
  409 without any change; deleting the created target answers 200 and restores the
  list, and deleting it again answers 404.
\<close>

theorem post_and_delete_sequence:
  assumes "tables_ok tb" and "validateTargetURL form_url = Inr raw" and "raw \<notin> set (target_urls tb)"
    and "newid \<notin> set (target_ids tb)" and "uuid_in newid = Some newid" and "newid \<noteq> []"
  shows "\<exists>w1 tb1 evs1 w2 w3 tb3 evs3 w4.
     HandleCreateTarget render False (create_with newid now) True form_url new_response tb = (w1, tb1, evs1) \<and>
     final_status w1 = StatusOK \<and>
     HandleCreateTarget render False (create_with newid' now') True form_url new_response tb1 = (w2, tb1, []) \<and>
     final_status w2 = StatusConflict \<and>
     HandleDeleteTarget render False (DeleteTarget uuid_in None) newid new_response tb1 = (w3, tb3, evs3) \<and>
     final_status w3 = StatusOK \<and> set (listed_targets tb3) = set (listed_targets tb) \<and>
     HandleDeleteTarget render False (DeleteTarget uuid_in None) newid new_response tb3 = (w4, tb3, []) \<and>
     final_status w4 = StatusNotFound"
proof -
  let ?t = "\<lparr>ID = newid, URL = raw\<rparr>" let ?tb1 = "tb\<lparr>tb_targets := tb_targets tb @ [(\<lparr>ID = newid, URL = raw\<rparr>, now)]\<rparr>"
  have create: "create_with newid now raw tb = (Inr ?t, ?tb1)"
    using assms(3,4) by (simp add: create_with_def CreateTarget_def sql_insert_target_def Let_def)
  have made: "creates_target raw tb (Inr ?t) ?tb1"
    using create assms(4) unfolding create_with_def creates_target_def by blast
  have again: "create_with newid' now' raw ?tb1 = (Inl ErrTargetExists, ?tb1)"
    by (simp add: create_with_def CreateTarget_def sql_insert_target_def target_urls_def)
  have "uuid_in (ID ?t) = Some (ID ?t)" using assms(5) by simp
  from pg_store.create_then_remove [where uuid_in = uuid_in, OF assms(1) made this]
  obtain tb3 where d: "DeleteTarget uuid_in None newid ?tb1 = (None, tb3)"
    "set (listed_targets tb3) = set (listed_targets tb)"
    "DeleteTarget uuid_in None newid tb3 = (Some ErrTargetNotFound, tb3)" by auto
  show ?thesis
    using d by (simp add: HandleCreateTarget_def HandleDeleteTarget_def assms(2,6) create again)
qed

theorem HandleCreateTarget_outcome_witness:
  "\<exists>w' s' evs. HandleCreateTarget (\<lambda>_. ([], True)) False (create_with ''1'' 0) True ''http://a/'' new_response InitSQL
       = (w', s', evs) \<and> final_status w' = StatusOK \<and> map Name evs = [''target_added'']"
proof -
  have v: "validateTargetURL ''http://a/'' = Inr ''http://a/''" by code_simp
  obtain w' s' evs where h: "HandleCreateTarget (\<lambda>_. ([], True)) False (create_with ''1'' 0) True ''http://a/'' new_response InitSQL
       = (w', s', evs)" by (metis prod_cases3)
  have c: "fst (create_with ''1'' 0 ''http://a/'' InitSQL) = Inr \<lparr>ID = ''1'', URL = ''http://a/''\<rparr>"
    by code_simp
  from HandleCreateTarget_outcome [OF _ h] v c h show ?thesis by auto
qed

theorem post_and_delete_sequence_witness:
  "\<exists>w1 tb1 evs1 w2. HandleCreateTarget (\<lambda>_. ([], True)) False (create_with ''1'' 0) True '' http://a/ '' new_response InitSQL
       = (w1, tb1, evs1) \<and> final_status w1 = StatusOK \<and>
     HandleCreateTarget (\<lambda>_. ([], True)) False (create_with ''2'' 1) True '' http://a/ '' new_response tb1 = (w2, tb1, []) \<and>
     final_status w2 = StatusConflict"
proof -
  have v: "validateTargetURL '' http://a/ '' = Inr ''http://a/''" by code_simp
  have "''http://a/'' \<notin> set (target_urls InitSQL)" "''1'' \<notin> set (target_ids InitSQL)"
    by (simp_all add: InitSQL_def target_urls_def target_ids_def)
  from post_and_delete_sequence [OF tables_ok_init v this, of Some "\<lambda>_. ([], True)" 0 "''2''" 1]
  show ?thesis by auto
qed

text \<open>
  An accepted URL can be checked, with two exceptions. A URL that passes validation,
  has no fragment and whose host is more than a port is parsed by the check to the
  same host name, so its checks reach the limiter of that host and the network.
\<close>

theorem accepted_url_has_domain:
  assumes "validateTargetURL form_url = Inr raw" and "CHR ''#'' \<notin> set raw"
    and "ParseRequestURI raw = Inr u" and "Hostname u \<noteq> []"
  shows "domainOf raw = Inr (Hostname u)"
proof -
  have "Scheme u \<noteq> []" using assms(1,3) by (auto simp: validate_Inr)
  from url_Parse_request [OF assms(3) this assms(2)] assms(4) show ?thesis by (simp add: domainOf_def)
qed

theorem accepted_url_has_domain_witness: "domainOf ''https://Example.com:8443/x?y'' = Inr ''Example.com''"
proof -
  have "validateTargetURL ''https://Example.com:8443/x?y'' = Inr ''https://Example.com:8443/x?y''"
    "ParseRequestURI ''https://Example.com:8443/x?y'' = Inr \<lparr>Scheme = ''https'', Host = ''Example.com:8443'', Path = ''/x''\<rparr>"
    "Hostname \<lparr>Scheme = ''https'', Host = ''Example.com:8443'', Path = ''/x''\<rparr> = ''Example.com''"
    by code_simp+
  from accepted_url_has_domain [OF this(1) _ this(2)] this(3) show ?thesis by simp
qed

text \<open>
  C39. The exceptions. Validation looks at \<open>Host\<close>, which may be a port alone, and at the
  request form of the URL, in which a fragment is not one. It accepts both URLs
  below; every check of them fails before any call to the limiter or the network,
  so they stay down for ever.
\<close>

theorem accepted_urls_always_down:
  "validateTargetURL ''http://:8080/'' = Inr ''http://:8080/'' \<and>
   Failed (fst (checkOne has_limiter \<lparr>ID = tid, URL = ''http://:8080/''\<rparr> a)) \<and>
   snd (checkOne has_limiter \<lparr>ID = tid, URL = ''http://:8080/''\<rparr> a) = [] \<and>
   validateTargetURL ''http://a?x#%zz'' = Inr ''http://a?x#%zz'' \<and>
   Failed (fst (checkOne has_limiter \<lparr>ID = tid, URL = ''http://a?x#%zz''\<rparr> a)) \<and>
   snd (checkOne has_limiter \<lparr>ID = tid, URL = ''http://a?x#%zz''\<rparr> a) = []"
proof -
  have v: "validateTargetURL ''http://:8080/'' = Inr ''http://:8080/''"
    "validateTargetURL ''http://a?x#%zz'' = Inr ''http://a?x#%zz''" by code_simp+
  have d: "domainOf ''http://:8080/'' = Inl (NoHost ''http://:8080/'')"
    "domainOf ''http://a?x#%zz'' = Inl (UrlParse (''http://a?x#%zz'', EscapeError ''%zz''))" by code_simp+
  have down: "Failed (fst (checkOne L \<lparr>ID = i, URL = u\<rparr> b)) \<and> snd (checkOne L \<lparr>ID = i, URL = u\<rparr> b) = []"
    if "domainOf u = Inl e" for L i u b e
    using that by (simp add: checkOne_def checkOne_domain_def)
  show ?thesis using v down [OF d(1)] down [OF d(2)] by blast
qed

text \<open>
  What a panic in a handler comes to. The process survives: \<open>Recover\<close> always ends
  with a response. The client sees 500 when nothing had been sent yet; once a
  status is on the wire it stays, and the error text only follows the body.
\<close>

theorem Recover_outcome:
  "(final_status (Recover next_handler w), rw_body (Recover next_handler w)) =
     (case next_handler w of
        (w', None) \<Rightarrow> (final_status w', rw_body w')
      | (w', Some p) \<Rightarrow>
          (case rw_sent w' of None \<Rightarrow> StatusInternalServerError | Some (code, _) \<Rightarrow> code,
           rw_body w' @ ''Internal Server Error'' @ [LF]))"
proof -
  obtain w' p where h: "next_handler w = (w', p)" by force
  show ?thesis
  proof (cases p)
    case (Some x)
    show ?thesis
    proof (cases "rw_sent w'")
      case None
      with h Some show ?thesis by (simp add: Recover_def http_Error_fresh)
    next
      case (Some s)
      with h \<open>p = Some x\<close> http_Error_late [OF Some] show ?thesis
        by (simp add: Recover_def final_status_def http_Error_def split: prod.split)
    qed
  qed (use h in \<open>simp add: Recover_def\<close>)
qed

end
