(* ===== verification/Pool_Tick.thy ===== *)
theory Pool_Tick
  imports Handlers
begin

text \<open>
  \<open>Pool.tick\<close> of \<open>internal/monitor/monitor.go\<close>: one round of checks with what it
  stores and publishes. The interfaces \<open>Store\<close> and \<open>Publisher\<close> of the package are a
  record of operations on a state; the round itself is sequential, except for
  \<open>Check\<close>, whose result it takes as one operation.
\<close>

section \<open>The operations a round calls\<close>

record 'w monitor_ops =
  op_list :: "'w \<Rightarrow> (store_err + target list) \<times> 'w"
  op_check :: "target list \<Rightarrow> 'w \<Rightarrow> result list \<times> 'w"
  op_record :: "string \<Rightarrow> int \<Rightarrow> int \<Rightarrow> string \<Rightarrow> time \<Rightarrow> 'w \<Rightarrow> store_err option \<times> 'w"
  op_stats :: "string \<Rightarrow> 'w \<Rightarrow> (store_err + stats) \<times> 'w"
  op_pub_check :: "result \<Rightarrow> 'w \<Rightarrow> 'w"
  op_pub_stats :: "string \<Rightarrow> int \<Rightarrow> int \<Rightarrow> int \<Rightarrow> int \<Rightarrow> 'w \<Rightarrow> 'w"

definition err_msg :: "(string \<Rightarrow> string) \<Rightarrow> result \<Rightarrow> string" where
  "err_msg quote r = (case Err r of None \<Rightarrow> [] | Some e \<Rightarrow> Error_text quote e)"

text \<open>The loop over the results: publish, then record; a failed record is only logged.\<close>

fun record_results :: "(string \<Rightarrow> string) \<Rightarrow> bool \<Rightarrow> 'w monitor_ops \<Rightarrow> result list \<Rightarrow> 'w \<Rightarrow> 'w" where
  "record_results quote has_pub ops [] w = w"
| "record_results quote has_pub ops (r # rs) w =
     (let w1 = (if has_pub then op_pub_check ops r w else w);
          (_, w2) = op_record ops (ID (Target r)) (StatusCode r) (sint (Milliseconds (Duration r)))
                      (err_msg quote r) (CheckedAt r) w1
      in record_results quote has_pub ops rs w2)"

fun publish_all_stats :: "'w monitor_ops \<Rightarrow> target list \<Rightarrow> 'w \<Rightarrow> 'w" where
  "publish_all_stats ops [] w = w"
| "publish_all_stats ops (t # ts) w =
     (case op_stats ops (ID t) w of
        (Inl _, w1) \<Rightarrow> publish_all_stats ops ts w1
      | (Inr st, w1) \<Rightarrow> publish_all_stats ops ts
          (op_pub_stats ops (TargetID st) (TotalChecks st) (Failures st) (P50LatencyMS st) (P99LatencyMS st) w1))"

definition tick :: "(string \<Rightarrow> string) \<Rightarrow> bool \<Rightarrow> bool \<Rightarrow> 'w monitor_ops \<Rightarrow> 'w \<Rightarrow> 'w" where
  "tick quote has_store has_pub ops w =
     (if \<not> has_store then w
      else (case op_list ops w of
          (Inl _, w1) \<Rightarrow> w1
        | (Inr targets, w1) \<Rightarrow>
            (case op_check ops targets w1 of (results, w2) \<Rightarrow>
               (let w3 = record_results quote has_pub ops results w2
                in if has_pub then publish_all_stats ops targets w3 else w3))))"

text \<open>The row a result is recorded as.\<close>

definition row_of :: "(string \<Rightarrow> string) \<Rightarrow> result \<Rightarrow> check_row" where
  "row_of quote r =
     \<lparr>row_target = ID (Target r), status_code = StatusCode r, duration_ms = sint (Milliseconds (Duration r)),
      error_message = (if err_msg quote r = [] then None else Some (err_msg quote r)), checked_at = CheckedAt r\<rparr>"

section \<open>The contract of store and publisher\<close>

text \<open>
  What the two interfaces promise, seen through the stored rows and the published
  events: only \<open>RecordCheck\<close> adds a row, and only when it reports no error; only the
  publishers add events.
\<close>

locale monitor_world =
  fixes ops :: "'w monitor_ops"
    and quote :: "string \<Rightarrow> string"
    and stored :: "'w \<Rightarrow> check_row list"
    and shown :: "'w \<Rightarrow> event list"
    and check_events :: "result \<Rightarrow> event list"
    and stats_events :: "string \<Rightarrow> int \<Rightarrow> int \<Rightarrow> int \<Rightarrow> int \<Rightarrow> event list"
  assumes record_row: "op_record ops (ID (Target r)) (StatusCode r) (sint (Milliseconds (Duration r)))
        (err_msg quote r) (CheckedAt r) w = (e, w') \<Longrightarrow>
      shown w' = shown w \<and> stored w' = stored w @ (if e = None then [row_of quote r] else [])"
    and list_keeps: "op_list ops w = (l, w') \<Longrightarrow> shown w' = shown w \<and> stored w' = stored w"
    and check_keeps: "op_check ops ts w = (rs, w') \<Longrightarrow> shown w' = shown w \<and> stored w' = stored w"
    and stats_keeps: "op_stats ops tid w = (st, w') \<Longrightarrow> shown w' = shown w \<and> stored w' = stored w"
    and pub_check: "shown (op_pub_check ops r w) = shown w @ check_events r \<and> stored (op_pub_check ops r w) = stored w"
    and pub_stats: "shown (op_pub_stats ops tid n f p q w) = shown w @ stats_events tid n f p q \<and>
      stored (op_pub_stats ops tid n f p q w) = stored w"
begin

lemma record_results_effect:
  "\<exists>ks. subseq ks rs \<and> stored (record_results quote has_pub ops rs w) = stored w @ map (row_of quote) ks \<and>
     shown (record_results quote has_pub ops rs w) = shown w @ (if has_pub then concat (map check_events rs) else [])"
proof (induction rs arbitrary: w)
  case Nil
  then show ?case by simp
next
  case (Cons r rs)
  define w1 where "w1 = (if has_pub then op_pub_check ops r w else w)"
  obtain e w2 where rec: "op_record ops (ID (Target r)) (StatusCode r) (sint (Milliseconds (Duration r)))
      (err_msg quote r) (CheckedAt r) w1 = (e, w2)" by force
  have step: "record_results quote has_pub ops (r # rs) w = record_results quote has_pub ops rs w2"
    using rec by (simp add: w1_def Let_def)
  have w1: "stored w1 = stored w" "shown w1 = shown w @ (if has_pub then check_events r else [])"
    using pub_check by (simp_all add: w1_def)
  from Cons.IH [of w2] obtain ks where ks: "subseq ks rs"
    "stored (record_results quote has_pub ops rs w2) = stored w2 @ map (row_of quote) ks"
    "shown (record_results quote has_pub ops rs w2) = shown w2 @ (if has_pub then concat (map check_events rs) else [])"
    by blast
  note r = record_row [OF rec]
  show ?case
  proof (cases e)
    case None
    with ks r w1 show ?thesis
      unfolding step by (intro exI [of _ "r # ks"]) simp
  next
    case (Some x)
    with ks r w1 show ?thesis
      unfolding step by (intro exI [of _ ks]) (simp add: list_emb_Cons)
  qed
qed

lemma publish_all_stats_effect:
  "\<exists>evs. stored (publish_all_stats ops ts w) = stored w \<and> shown (publish_all_stats ops ts w) = shown w @ evs \<and>
     (\<forall>ev \<in> set evs. \<exists>tid n f p q. ev \<in> set (stats_events tid n f p q))"
proof (induction ts arbitrary: w)
  case Nil
  then show ?case by simp
next
  case (Cons t ts)
  obtain a w1 where st: "op_stats ops (ID t) w = (a, w1)" by force
  note keep = stats_keeps [OF st]
  show ?case
  proof (cases a)
    case (Inl e)
    with Cons.IH [of w1] st keep show ?thesis by simp
  next
    case (Inr s)
    let ?w2 = "op_pub_stats ops (TargetID s) (TotalChecks s) (Failures s) (P50LatencyMS s) (P99LatencyMS s) w1"
    let ?ev = "stats_events (TargetID s) (TotalChecks s) (Failures s) (P50LatencyMS s) (P99LatencyMS s)"
    from Cons.IH [of ?w2] obtain evs where
      "stored (publish_all_stats ops ts ?w2) = stored ?w2" "shown (publish_all_stats ops ts ?w2) = shown ?w2 @ evs"
      "\<forall>ev \<in> set evs. \<exists>tid n f p q. ev \<in> set (stats_events tid n f p q)" by blast
    moreover have "\<forall>ev \<in> set ?ev. \<exists>tid n f p q. ev \<in> set (stats_events tid n f p q)" by blast
    ultimately have "\<forall>ev \<in> set (?ev @ evs). \<exists>tid n f p q. ev \<in> set (stats_events tid n f p q)"
      unfolding set_append by blast
    with st keep Inr pub_stats \<open>stored (publish_all_stats ops ts ?w2) = stored ?w2\<close>
      \<open>shown (publish_all_stats ops ts ?w2) = shown ?w2 @ evs\<close> show ?thesis
      by (intro exI [of _ "?ev @ evs"]) simp
  qed
qed

lemma tick_effect:
  assumes "op_list ops w = (Inr targets, w1)" and "op_check ops targets w1 = (results, w2)"
  shows "\<exists>ks evs. subseq ks results \<and>
     stored (tick quote True has_pub ops w) = stored w @ map (row_of quote) ks \<and>
     shown (tick quote True has_pub ops w) = shown w @ (if has_pub then concat (map check_events results) @ evs else []) \<and>
     (\<forall>ev \<in> set evs. \<exists>tid n f p q. ev \<in> set (stats_events tid n f p q))"
proof -
  let ?w3 = "record_results quote has_pub ops results w2"
  have w2: "stored w2 = stored w" "shown w2 = shown w"
    using list_keeps [OF assms(1)] check_keeps [OF assms(2)] by simp_all
  from record_results_effect [of results has_pub w2] obtain ks where ks: "subseq ks results"
    "stored ?w3 = stored w @ map (row_of quote) ks"
    "shown ?w3 = shown w @ (if has_pub then concat (map check_events results) else [])"
    unfolding w2 by blast
  from publish_all_stats_effect [of targets ?w3] obtain evs where evs:
    "stored (publish_all_stats ops targets ?w3) = stored ?w3"
    "shown (publish_all_stats ops targets ?w3) = shown ?w3 @ evs"
    "\<forall>ev \<in> set evs. \<exists>tid n f p q. ev \<in> set (stats_events tid n f p q)" by blast
  have "tick quote True has_pub ops w = (if has_pub then publish_all_stats ops targets ?w3 else ?w3)"
    using assms by (simp add: tick_def Let_def)
  with ks evs show ?thesis by (cases has_pub) (intro exI [of _ ks] exI [of _ evs], simp)+
qed

lemma tick_without_targets:
  "fst (op_list ops w) = Inl e \<Longrightarrow>
     stored (tick quote has_store has_pub ops w) = stored w \<and> shown (tick quote has_store has_pub ops w) = shown w"
  using list_keeps [of w] by (cases "op_list ops w") (auto simp: tick_def)

end

section \<open>The program's own store and publisher\<close>

text \<open>
  The database, the events handed to the hub so far, and the number of store calls:
  call number \<open>k\<close> meets the fault \<open>faults k\<close>, which may be the deadline of
  \<open>dbOpTimeout\<close>. \<open>outcome\<close> is what \<open>Check\<close> returns for a list of targets.
\<close>

record live =
  lv_tables :: tables
  lv_events :: "event list"
  lv_calls :: nat

definition count_call :: "live \<Rightarrow> live" where
  "count_call w = w\<lparr>lv_calls := Suc (lv_calls w)\<rparr>"

definition live_ops ::
    "(string \<Rightarrow> string) \<Rightarrow> renderer \<Rightarrow> (nat \<Rightarrow> int list \<Rightarrow> int) \<Rightarrow> (nat \<Rightarrow> pg_err option) \<Rightarrow> time
       \<Rightarrow> (target list \<Rightarrow> result list) \<Rightarrow> live monitor_ops" where
  "live_ops quote render percentile faults now outcome =
     \<lparr>op_list = (\<lambda>w. (ListTargets (map_option QueryFails (faults (lv_calls w))) (lv_tables w), count_call w)),
      op_check = (\<lambda>ts w. (outcome ts, w)),
      op_record = (\<lambda>tid code ms msg at w.
        (case RecordCheck (faults (lv_calls w)) tid code ms msg at (lv_tables w) of
           (e, tb) \<Rightarrow> (e, count_call (w\<lparr>lv_tables := tb\<rparr>)))),
      op_stats = (\<lambda>tid w. (RecentStats percentile (faults (lv_calls w)) now tid (lv_tables w), count_call w)),
      op_pub_check = (\<lambda>r w. w\<lparr>lv_events := lv_events w @ PublishCheck quote render False r\<rparr>),
      op_pub_stats = (\<lambda>tid n f p q w. w\<lparr>lv_events := lv_events w @ PublishStats render False tid n f p q\<rparr>)\<rparr>"

lemma RecordCheck_row:
  "RecordCheck fault (ID (Target r)) (StatusCode r) (sint (Milliseconds (Duration r))) (err_msg quote r) (CheckedAt r) tb = (e, tb') \<Longrightarrow>
     tb_checks tb' = tb_checks tb @ (if e = None then [row_of quote r] else [])"
  by (auto simp: RecordCheck_def row_of_def sql_insert_check_def Let_def split: option.splits sum.splits if_splits)

lemma live_ops_sel [simp]:
  "op_list (live_ops quote render percentile faults now outcome) w =
     (ListTargets (map_option QueryFails (faults (lv_calls w))) (lv_tables w), count_call w)"
  "op_check (live_ops quote render percentile faults now outcome) ts w = (outcome ts, w)"
  "op_pub_check (live_ops quote render percentile faults now outcome) r w =
     w\<lparr>lv_events := lv_events w @ PublishCheck quote render False r\<rparr>"
  "op_pub_stats (live_ops quote render percentile faults now outcome) tid n f p q w =
     w\<lparr>lv_events := lv_events w @ PublishStats render False tid n f p q\<rparr>"
  by (simp_all add: live_ops_def)

interpretation live_world: monitor_world "live_ops quote render percentile faults now outcome" quote
    "\<lambda>w. tb_checks (lv_tables w)" lv_events "PublishCheck quote render False" "PublishStats render False"
  for quote render percentile faults now outcome
proof
  fix r w e w'
  show "op_record (live_ops quote render percentile faults now outcome) (ID (Target r)) (StatusCode r)
      (sint (Milliseconds (Duration r))) (err_msg quote r) (CheckedAt r) w = (e, w') \<Longrightarrow>
    lv_events w' = lv_events w \<and> tb_checks (lv_tables w') = tb_checks (lv_tables w) @ (if e = None then [row_of quote r] else [])"
    by (auto simp: live_ops_def count_call_def dest: RecordCheck_row split: prod.splits)
qed (auto simp: live_ops_def count_call_def)

lemma stats_event_name: "ev \<in> set (PublishStats render hub_nil tid n f p q) \<Longrightarrow> Name ev = ''stats''"
  by (auto simp: PublishStats_def dest: publish_view_names)

section \<open>Properties\<close>

text \<open>
  C13. A round shows every result and stores them in order. Whatever faults the database
  has, once the targets are listed the round publishes the check event of every
  result, in the order of the targets and before any stats event; the rows it adds
  are rows of its results, in order, each at most once, and no other row changes.
  If the targets cannot be listed nothing is stored or published.
\<close>

theorem tick_shows_every_result:
  assumes "w = \<lparr>lv_tables = tb, lv_events = before, lv_calls = k\<rparr>"
    and "w' = tick quote True True (live_ops quote render percentile faults now outcome) w"
  shows "(case ListTargets (map_option QueryFails (faults k)) tb of
       Inl _ \<Rightarrow> tb_checks (lv_tables w') = tb_checks tb \<and> lv_events w' = before
     | Inr targets \<Rightarrow> \<exists>ks evs. subseq ks (outcome targets) \<and>
         tb_checks (lv_tables w') = tb_checks tb @ map (row_of quote) ks \<and>
         lv_events w' = before @ concat (map (PublishCheck quote render False) (outcome targets)) @ evs \<and>
         (\<forall>ev \<in> set evs. Name ev = ''stats''))"
proof (cases "ListTargets (map_option QueryFails (faults k)) tb")
  case (Inl e)
  with assms live_world.tick_without_targets
    [of quote render percentile faults now outcome w e True True] show ?thesis by simp
next
  case (Inr targets)
  let ?ops = "live_ops quote render percentile faults now outcome"
  have "op_list ?ops w = (Inr targets, count_call w)" using Inr assms(1) by simp
  from live_world.tick_effect [OF this, of "outcome targets" "count_call w" True] obtain ks evs where
    "subseq ks (outcome targets)" "tb_checks (lv_tables w') = tb_checks tb @ map (row_of quote) ks"
    "lv_events w' = before @ concat (map (PublishCheck quote render False) (outcome targets)) @ evs"
    "\<forall>ev \<in> set evs. \<exists>tid n f p q. ev \<in> set (PublishStats render False tid n f p q)"
    using assms by auto
  moreover from this(4) have "\<forall>ev \<in> set evs. Name ev = ''stats''" using stats_event_name by blast
  ultimately show ?thesis unfolding Inr by auto
qed

theorem tick_shows_every_result_witness:
  "map Name (lv_events (tick (\<lambda>x. x) True True
       (live_ops (\<lambda>x. x) (\<lambda>_. ([], True)) (\<lambda>_ _. 0) (\<lambda>k. if k = 0 then None else Some (DriverErr [])) 0
         (map (\<lambda>t. \<lparr>Target = t, StatusCode = 500, Duration = 0, Err = None, CheckedAt = 0\<rparr>)))
       \<lparr>lv_tables = \<lparr>tb_targets = [(\<lparr>ID = ''1'', URL = ''http://a/''\<rparr>, 0)], tb_checks = []\<rparr>,
         lv_events = [], lv_calls = 0\<rparr>)) ! 0 = ''check''"
proof -
  let ?tb = "\<lparr>tb_targets = [(\<lparr>ID = ''1'', URL = ''http://a/''\<rparr>, 0)], tb_checks = []\<rparr>"
  have l: "ListTargets (map_option QueryFails None) ?tb = Inr [\<lparr>ID = ''1'', URL = ''http://a/''\<rparr>]"
    by (simp add: ListTargets_def)
  note round = tick_shows_every_result [OF refl refl, where tb = ?tb and k = 0 and before = "[]" and quote = "\<lambda>x. x" and now = 0
      and faults = "\<lambda>k. if k = 0 then None else Some (DriverErr [])" and render = "\<lambda>_. ([], True)"
      and percentile = "\<lambda>_ _. 0" and outcome = "map (\<lambda>t. \<lparr>Target = t, StatusCode = 500, Duration = 0, Err = None, CheckedAt = 0\<rparr>)"]
  from round show ?thesis
    unfolding if_P [OF refl] l by (auto simp: PublishCheck_def publish_view_def)
qed

lemma record_results_all:
  assumes "\<forall>r \<in> set rs. int4 (StatusCode r) \<and> int4 (sint (Milliseconds (Duration r))) \<and> ID (Target r) \<in> set (target_ids tb)"
  shows "record_results quote True (live_ops quote render percentile (\<lambda>_. None) now outcome) rs
       \<lparr>lv_tables = tb, lv_events = evs, lv_calls = k\<rparr> =
     \<lparr>lv_tables = tb\<lparr>tb_checks := tb_checks tb @ map (row_of quote) rs\<rparr>,
      lv_events = evs @ concat (map (PublishCheck quote render False) rs), lv_calls = k + length rs\<rparr>"
  using assms
proof (induction rs arbitrary: tb evs k)
  case (Cons r rs)
  let ?tb = "tb\<lparr>tb_checks := tb_checks tb @ [row_of quote r]\<rparr>"
  have "op_record (live_ops quote render percentile (\<lambda>_. None) now outcome) (ID (Target r)) (StatusCode r)
      (sint (Milliseconds (Duration r))) (err_msg quote r) (CheckedAt r) \<lparr>lv_tables = tb, lv_events = ev, lv_calls = k\<rparr> =
      (None, \<lparr>lv_tables = ?tb, lv_events = ev, lv_calls = Suc k\<rparr>)" for ev
    using Cons.prems by (simp add: live_ops_def RecordCheck_def sql_insert_check_def row_of_def count_call_def Let_def)
  with Cons.IH [of ?tb] Cons.prems show ?case by (simp add: Let_def)
qed simp

definition stats_event :: "renderer \<Rightarrow> (nat \<Rightarrow> int list \<Rightarrow> int) \<Rightarrow> time \<Rightarrow> tables \<Rightarrow> target \<Rightarrow> event list" where
  "stats_event render percentile now tb t =
     (let rows = rows_since (ID t) recentWindow now tb; ms = map duration_ms rows in
      PublishStats render False (ID t) (int (length rows)) (int (count_of row_failed rows))
        (if rows = [] then 0 else percentile 50 ms) (if rows = [] then 0 else percentile 99 ms))"

lemma publish_all_stats_all:
  "publish_all_stats (live_ops quote render percentile (\<lambda>_. None) now outcome) ts
       \<lparr>lv_tables = tb, lv_events = evs, lv_calls = k\<rparr> =
     \<lparr>lv_tables = tb, lv_events = evs @ concat (map (stats_event render percentile now tb) ts), lv_calls = k + length ts\<rparr>"
proof (induction ts arbitrary: evs k)
  case (Cons t ts)
  then show ?case by (simp add: live_ops_def RecentStats_def count_call_def stats_event_def Let_def)
qed simp

lemma tick_complete:
  assumes "ListTargets None tb = Inr targets" and "rs = outcome targets"
    and "\<forall>r \<in> set rs. int4 (StatusCode r) \<and> int4 (sint (Milliseconds (Duration r))) \<and> ID (Target r) \<in> set (target_ids tb)"
    and "tb' = tb\<lparr>tb_checks := tb_checks tb @ map (row_of quote) rs\<rparr>"
  shows "tick quote True True (live_ops quote render percentile (\<lambda>_. None) now outcome)
       \<lparr>lv_tables = tb, lv_events = evs, lv_calls = k\<rparr> =
     \<lparr>lv_tables = tb',
      lv_events = evs @ concat (map (PublishCheck quote render False) rs) @
        concat (map (stats_event render percentile now tb') targets),
      lv_calls = Suc (k + length rs + length targets)\<rparr>"
  using assms(1,2) record_results_all [OF assms(3)] publish_all_stats_all
  by (simp add: tick_def count_call_def assms(4))

text \<open>
  A round without faults is complete. When every status and duration fits its column
  and no target is deleted meanwhile, every result is stored, in order, and after
  them the stats of every target are published: the number of its checks in the last
  24 hours and how many of them failed, the new ones included.
\<close>

theorem tick_complete_round:
  assumes "ListTargets None tb = Inr targets" and "rs = outcome targets"
    and "\<forall>r \<in> set rs. int4 (StatusCode r) \<and> int4 (sint (Milliseconds (Duration r))) \<and> ID (Target r) \<in> set (target_ids tb)"
    and "tb' = tb\<lparr>tb_checks := tb_checks tb @ map (row_of quote) rs\<rparr>"
  shows "tick quote True True (live_ops quote render percentile (\<lambda>_. None) now outcome)
       \<lparr>lv_tables = tb, lv_events = evs, lv_calls = k\<rparr> =
     \<lparr>lv_tables = tb',
      lv_events = evs @ concat (map (PublishCheck quote render False) rs) @
        concat (map (stats_event render percentile now tb') targets),
      lv_calls = Suc (k + length rs + length targets)\<rparr>"
  using assms by (rule tick_complete)

theorem tick_complete_round_witness:
  "lv_calls (tick (\<lambda>x. x) True True
       (live_ops (\<lambda>x. x) (\<lambda>_. ([], True)) (\<lambda>_ _. 0) (\<lambda>_. None) 0
         (map (\<lambda>t. \<lparr>Target = t, StatusCode = 500, Duration = 0, Err = None, CheckedAt = 0\<rparr>)))
       \<lparr>lv_tables = \<lparr>tb_targets = [(\<lparr>ID = ''1'', URL = ''http://a/''\<rparr>, 0)], tb_checks = []\<rparr>,
         lv_events = [], lv_calls = 0\<rparr>) = 3"
proof -
  let ?tb = "\<lparr>tb_targets = [(\<lparr>ID = ''1'', URL = ''http://a/''\<rparr>, 0)], tb_checks = []\<rparr>"
  let ?out = "map (\<lambda>t. \<lparr>Target = t, StatusCode = 500, Duration = 0, Err = None, CheckedAt = 0\<rparr>)"
  have l: "ListTargets None ?tb = Inr [\<lparr>ID = ''1'', URL = ''http://a/''\<rparr>]" by (simp add: ListTargets_def)
  have ms: "sint (Milliseconds 0) = 0" by (simp add: sint_Milliseconds)
  show ?thesis
    by (subst tick_complete_round [OF l refl _ refl]) (simp_all add: int4_def target_ids_def ms)
qed

lemma row_failed_iff: "row_failed (row_of quote r) \<longleftrightarrow> Failed r"
  by (auto simp: row_failed_def row_of_def Failed_def err_msg_def split: option.splits)

lemma row_of_target: "row_target (row_of quote r) = ID (Target r)"
  by (simp add: row_of_def)

text \<open>
  One notion of down. A result counts as failed for the metrics exactly when the row
  it is stored as counts as failed in the \<open>FILTER\<close> of \<open>RecentStats\<close>, and exactly when
  the dashboard shows its target as down; in particular the text of an error is
  never empty, so it is never stored as \<open>NULL\<close>.
\<close>

theorem one_notion_of_down:
  "count_of row_failed (map (row_of quote) rs) = count_of Failed rs \<and>
   map (\<lambda>r. cv_status (checkStatusFromResult quote r) = ''down'') rs = map Failed rs \<and>
   map error_message (map (row_of quote) rs) = map (map_option (Error_text quote)) (map Err rs)"
proof (induction rs)
  case (Cons r rs)
  then show ?case
    by (cases "Err r") (simp_all add: row_failed_iff checkStatusFromResult_def, simp_all add: row_of_def err_msg_def)
qed simp

end
