(* ===== verification/Pool_Run.thy ===== *)
theory Pool_Run
  imports Go_Runtime
begin

text \<open>
  \<open>Pool.Run\<close> of \<open>internal/monitor/monitor.go\<close>: the loop around \<open>tick\<close> with its ticker
  and the context of the process. \<open>rn_started\<close> and \<open>rn_finished\<close> are history.
\<close>

section \<open>The loop\<close>

datatype run_pc = InTick | AtLoopSelect | RunReturned

record run_sys =
  rn_ticker :: ticker
  rn_clock :: time
  rn_ctx_done :: bool
  rn_at :: run_pc
  rn_started :: nat
  rn_finished :: nat

text \<open>\<open>NewTicker\<close> panics for an interval that is not positive; the first round starts at once.\<close>

definition Run_start :: "duration \<Rightarrow> time \<Rightarrow> go_panic + run_sys" where
  "Run_start interval now =
     (case NewTicker interval now of
        Inl p \<Rightarrow> Inl p
      | Inr k \<Rightarrow> Inr \<lparr>rn_ticker = k, rn_clock = now, rn_ctx_done = False, rn_at = InTick,
                     rn_started = 1, rn_finished = 0\<rparr>)"

datatype run_event = Elapse nat | TickerFires | Cancel | TickEnds | TakeTick | ReturnRun

inductive rstep :: "run_sys \<Rightarrow> run_event \<Rightarrow> run_sys \<Rightarrow> bool" where
  elapse: "rstep s (Elapse d) (s\<lparr>rn_clock := rn_clock s + d\<rparr>)"
| ticker_fires: "ticker_due (rn_ticker s) (rn_clock s) \<Longrightarrow>
    rstep s TickerFires (s\<lparr>rn_ticker := ticker_fire (rn_ticker s) (rn_clock s)\<rparr>)"
| cancel: "rstep s Cancel (s\<lparr>rn_ctx_done := True\<rparr>)"
| tick_ends: "rn_at s = InTick \<Longrightarrow>
    rstep s TickEnds (s\<lparr>rn_at := AtLoopSelect, rn_finished := Suc (rn_finished s)\<rparr>)"
| take_tick: "rn_at s = AtLoopSelect \<Longrightarrow> tk_pending (rn_ticker s) \<Longrightarrow>
    rstep s TakeTick (s\<lparr>rn_at := InTick, rn_ticker := ticker_take (rn_ticker s), rn_started := Suc (rn_started s)\<rparr>)"
| return_run: "rn_at s = AtLoopSelect \<Longrightarrow> rn_ctx_done s \<Longrightarrow>
    rstep s ReturnRun (s\<lparr>rn_at := RunReturned, rn_ticker := ticker_stop (rn_ticker s)\<rparr>)"

inductive_simps rstep_iffs: "rstep s (Elapse d) t" "rstep s TickerFires t" "rstep s Cancel t"
  "rstep s TickEnds t" "rstep s TakeTick t" "rstep s ReturnRun t"

section \<open>The invariant\<close>

definition run_inv :: "run_sys \<Rightarrow> bool" where
  "run_inv s \<longleftrightarrow> rn_started s = rn_finished s + (if rn_at s = InTick then 1 else 0) \<and>
     1 \<le> rn_started s \<and> 0 < tk_period (rn_ticker s) \<and>
     (rn_at s = RunReturned \<longrightarrow> rn_ctx_done s \<and> tk_stopped (rn_ticker s)) \<and>
     (rn_at s \<noteq> RunReturned \<longrightarrow> \<not> tk_stopped (rn_ticker s))"

lemma Run_start_inv: "Run_start interval now = Inr s \<Longrightarrow> run_inv s"
  by (auto simp: Run_start_def NewTicker_def run_inv_def split: if_splits)

lemma run_inv_step: "rstep s e t \<Longrightarrow> run_inv s \<Longrightarrow> run_inv t"
  by (cases rule: rstep.cases) (auto simp: run_inv_def split: if_splits)

interpretation run_loop: invariant_system "\<lambda>s. Run_start interval now = Inr s" rstep run_inv for interval now
  by unfold_locales (auto intro: Run_start_inv run_inv_step)

lemma returned_stays: "rstep s e t \<Longrightarrow> rn_at s = RunReturned \<Longrightarrow> rn_at t = RunReturned \<and> rn_started t = rn_started s"
  by (cases rule: rstep.cases) auto

lemma returned_run:
  "run rstep s es t \<Longrightarrow> rn_at s = RunReturned \<Longrightarrow> rn_at t = RunReturned \<and> rn_started t = rn_started s"
  by (induction rule: run.induct) (auto dest: returned_stays)

section \<open>Properties\<close>

text \<open>
  A round that has begun is finished before the loop returns. Whenever \<open>Run\<close> has
  returned, its context had ended, every round that started has run to its end (and
  at least one did), the ticker is stopped, and no round starts any more.
\<close>

theorem Run_returns_between_rounds:
  assumes "Run_start interval now = Inr s0" and "run rstep s0 es s" and "rn_at s = RunReturned"
    and "run rstep s fs t"
  shows "rn_ctx_done s \<and> rn_finished s = rn_started s \<and> 1 \<le> rn_finished s \<and> tk_stopped (rn_ticker s) \<and>
     rn_started t = rn_started s"
  using run_loop.inv_reachable [OF assms(1,2)] returned_run [OF assms(4,3)] assms(3)
  by (simp add: run_inv_def)

theorem Run_returns_between_rounds_witness:
  "\<exists>s0 s. Run_start Second 0 = Inr s0 \<and> run rstep s0 [Cancel, TickEnds, ReturnRun] s \<and>
     rn_at s = RunReturned \<and> rn_finished s = 1"
proof -
  obtain s0 where s0: "Run_start Second 0 = Inr s0" "rn_at s0 = InTick" "rn_started s0 = 1"
    by (simp add: Run_start_def NewTicker_def)
  let ?s = "s0\<lparr>rn_ctx_done := True, rn_at := RunReturned, rn_finished := Suc (rn_finished s0), rn_ticker := ticker_stop (rn_ticker s0)\<rparr>"
  have r: "run rstep s0 [Cancel, TickEnds, ReturnRun] ?s"
    using s0(2) by (simp add: run_Cons_iff rstep_iffs)
  from Run_returns_between_rounds [OF s0(1) r _ run_nil] s0 r show ?thesis by auto
qed

lemma late_round:
  assumes "run_inv s" and "rn_at s = InTick" and "rn_ctx_done s" and "tk_next (rn_ticker s) \<le> rn_clock s + d"
  shows "\<exists>t. run rstep s [Elapse d, TickerFires, TickEnds, TakeTick] t \<and> run_inv t \<and>
     rn_at t = InTick \<and> rn_ctx_done t \<and> rn_started t = Suc (rn_started s)"
proof -
  let ?k = "ticker_fire (rn_ticker s) (rn_clock s + d)"
  let ?t = "s\<lparr>rn_clock := rn_clock s + d, rn_ticker := ticker_take ?k, rn_finished := Suc (rn_finished s),
      rn_at := InTick, rn_started := Suc (rn_started s)\<rparr>"
  have "ticker_due (rn_ticker s) (rn_clock s + d)"
    using assms by (simp add: ticker_due_def run_inv_def)
  then have r: "run rstep s [Elapse d, TickerFires, TickEnds, TakeTick] ?t"
    using assms(2) by (simp add: run_Cons_iff rstep_iffs)
  have "run_inv ?t" using r assms(1) run_preserves [where P = run_inv and step = rstep] run_inv_step by blast
  with r assms(3) show ?thesis by (intro exI [of _ ?t]) simp
qed

lemma late_rounds:
  "run_inv s \<Longrightarrow> rn_at s = InTick \<Longrightarrow> rn_ctx_done s \<Longrightarrow>
     \<exists>es t. run rstep s es t \<and> rn_at t = InTick \<and> rn_ctx_done t \<and> rn_started t = rn_started s + n"
proof (induction n arbitrary: s)
  case 0
  then show ?case by (intro exI [of _ "[]"] exI [of _ s]) simp
next
  case (Suc n)
  from late_round [OF Suc.prems, of "tk_next (rn_ticker s)"] obtain u where
    u: "run rstep s [Elapse (tk_next (rn_ticker s)), TickerFires, TickEnds, TakeTick] u" "run_inv u"
    "rn_at u = InTick" "rn_ctx_done u" "rn_started u = Suc (rn_started s)" by auto
  from Suc.IH [OF u(2-4)] obtain es t where "run rstep u es t" "rn_at t = InTick" "rn_ctx_done t"
    "rn_started t = rn_started u + n" by blast
  with u(1,5) run_append [OF u(1)] show ?case by (metis add_Suc_shift)
qed

text \<open>
  C40. Cancelling does not stop the loop at once. When rounds take as long as the
  interval, a tick is pending each time the loop comes back to its \<open>select\<close>, which
  may pick it although the context has ended: for every \<open>n\<close> there is a run in which
  \<open>n\<close> more rounds start after the cancellation, and only then \<open>Run\<close> returns.
\<close>

theorem Run_may_start_rounds_after_cancel:
  assumes "Run_start interval now = Inr s0"
  shows "\<exists>s es t. run rstep s0 [Cancel] s \<and> rn_ctx_done s \<and> rn_started s = 1 \<and>
     run rstep s (es @ [TickEnds, ReturnRun]) t \<and> rn_at t = RunReturned \<and> rn_started t = 1 + n"
proof -
  let ?s = "s0\<lparr>rn_ctx_done := True\<rparr>"
  have c: "run rstep s0 [Cancel] ?s" by (simp add: run_Cons_iff rstep_iffs)
  have start: "rn_at s0 = InTick" "rn_started s0 = 1"
    using assms by (auto simp: Run_start_def split: sum.splits)
  have "run_inv ?s" using run_loop.inv_reachable [OF assms c] .
  from late_rounds [OF this, of n] start obtain es u where
    u: "run rstep ?s es u" "rn_at u = InTick" "rn_ctx_done u" "rn_started u = 1 + n" by auto
  let ?t = "u\<lparr>rn_at := RunReturned, rn_finished := Suc (rn_finished u), rn_ticker := ticker_stop (rn_ticker u)\<rparr>"
  have "run rstep u [TickEnds, ReturnRun] ?t" using u(2,3) by (simp add: run_Cons_iff rstep_iffs)
  from run_append [OF u(1) this] c u(4) start show ?thesis
    by (intro exI [of _ ?s] exI [of _ es] exI [of _ ?t]) simp
qed

theorem Run_may_start_rounds_after_cancel_witness:
  "\<exists>s0 s t es. Run_start Second 0 = Inr s0 \<and> run rstep s0 [Cancel] s \<and> run rstep s es t \<and>
     rn_at t = RunReturned \<and> rn_started t = 4"
proof -
  obtain s0 where "Run_start Second 0 = Inr s0" by (simp add: Run_start_def NewTicker_def)
  from Run_may_start_rounds_after_cancel [OF this, of 3] this show ?thesis by (auto simp: numeral_eq_Suc)
qed

end
