(* ===== verification/Run_Schedule.thy ===== *)
theory Run_Schedule
  imports Pool_Run
begin

text \<open>
  When the rounds of \<open>Pool.Run\<close> begin: the loop of \<open>Pool_Run\<close> with a bound \<open>B\<close> on the time
  of a round (\<open>Timed_Round\<close> has one), a ticker that fires on time, and a \<open>select\<close> that
  does not sleep while a case is ready. \<open>sd_last\<close> is history: when the last round began.
\<close>

section \<open>The loop against the clock\<close>

record schedule =
  sd_run :: run_sys
  sd_last :: time

fun may_elapse :: "nat \<Rightarrow> schedule \<Rightarrow> run_pc \<Rightarrow> time \<Rightarrow> bool" where
  "may_elapse B s InTick now \<longleftrightarrow> now \<le> sd_last s + B \<and> now \<le> tk_next (rn_ticker (sd_run s))"
| "may_elapse B s AtLoopSelect now \<longleftrightarrow> \<not> tk_pending (rn_ticker (sd_run s)) \<and> \<not> rn_ctx_done (sd_run s) \<and>
     now \<le> tk_next (rn_ticker (sd_run s))"
| "may_elapse B s RunReturned now \<longleftrightarrow> True"

inductive sched_step :: "nat \<Rightarrow> schedule \<Rightarrow> run_event \<Rightarrow> schedule \<Rightarrow> bool" for B where
  elapses: "may_elapse B s (rn_at (sd_run s)) (rn_clock (sd_run s) + d) \<Longrightarrow> rstep (sd_run s) (Elapse d) r \<Longrightarrow>
     sched_step B s (Elapse d) (s\<lparr>sd_run := r\<rparr>)"
| begins: "rstep (sd_run s) TakeTick r \<Longrightarrow>
     sched_step B s TakeTick (s\<lparr>sd_run := r, sd_last := rn_clock (sd_run s)\<rparr>)"
| other: "rstep (sd_run s) e r \<Longrightarrow> e \<in> {TickerFires, Cancel, TickEnds, ReturnRun} \<Longrightarrow>
     sched_step B s e (s\<lparr>sd_run := r\<rparr>)"

definition sched_start :: "run_sys \<Rightarrow> schedule" where
  "sched_start r = \<lparr>sd_run = r, sd_last = rn_clock r\<rparr>"

section \<open>The invariant\<close>

definition sched_ok :: "nat \<Rightarrow> nat \<Rightarrow> schedule \<Rightarrow> bool" where
  "sched_ok B I s \<longleftrightarrow> (let r = sd_run s; k = rn_ticker r in
     tk_period k = I \<and> rn_clock r \<le> tk_next k \<and> tk_next k \<le> rn_clock r + I \<and>
     (\<not> tk_pending k \<longrightarrow> tk_next k \<le> sd_last s + I) \<and>
     rn_clock r \<le> sd_last s + max B I \<and> (rn_at r = InTick \<longrightarrow> rn_clock r \<le> sd_last s + B))"

text \<open>How many rounds can have begun, counting a pending tick as one more.\<close>

definition sched_count :: "time \<Rightarrow> nat \<Rightarrow> schedule \<Rightarrow> bool" where
  "sched_count now I s \<longleftrightarrow> (let r = sd_run s; k = rn_ticker r in
     now + (rn_started r + (if tk_pending k then 1 else 0)) * I \<le> tk_next k)"

text \<open>Where every round fits into the interval.\<close>

definition sched_exact :: "time \<Rightarrow> nat \<Rightarrow> schedule \<Rightarrow> bool" where
  "sched_exact now I s \<longleftrightarrow> (let r = sd_run s; k = rn_ticker r in
     sd_last s + I = now + rn_started r * I \<and>
     (if tk_pending k then rn_at r = AtLoopSelect \<and> rn_clock r = sd_last s + I \<and> tk_next k = sd_last s + 2 * I
      else tk_next k = sd_last s + I))"

definition sched_inv :: "time \<Rightarrow> nat \<Rightarrow> nat \<Rightarrow> schedule \<Rightarrow> bool" where
  "sched_inv now B I s \<longleftrightarrow> run_inv (sd_run s) \<and> 0 < I \<and>
     (rn_at (sd_run s) \<noteq> RunReturned \<longrightarrow>
        sched_ok B I s \<and> sched_count now I s \<and> (B < I \<longrightarrow> sched_exact now I s))"

lemma sched_start_inv:
  "Run_start interval now = Inr r \<Longrightarrow> sched_inv now B (nat (sint interval)) (sched_start r)"
  using Run_start_inv
  by (auto simp: Run_start_def NewTicker_def sched_inv_def sched_start_def sched_ok_def sched_count_def sched_exact_def
      Let_def split: if_splits)

lemmas sched_parts = sched_ok_def sched_count_def sched_exact_def Let_def

lemma sched_inv_step:
  assumes "sched_step B s e t" and inv: "sched_inv now B I s"
  shows "sched_inv now B I t"
proof -
  from assms(1) inv have "run_inv (sd_run t)"
    by (cases rule: sched_step.cases) (auto simp: sched_inv_def intro: run_inv_step)
  moreover have "sched_ok B I t \<and> sched_count now I t \<and> (B < I \<longrightarrow> sched_exact now I t)"
    if running: "rn_at (sd_run t) \<noteq> RunReturned"
    using assms(1)
  proof (cases rule: sched_step.cases)
    case (elapses d r)
    then have at: "rn_at (sd_run s) \<noteq> RunReturned" using running by (auto simp: rstep_iffs)
    with inv have "sched_ok B I s" "sched_count now I s" "B < I \<Longrightarrow> sched_exact now I s" by (simp_all add: sched_inv_def)
    with elapses at show ?thesis by (cases "rn_at (sd_run s)") (auto simp: sched_parts rstep_iffs)
  next
    case (begins r)
    then have at: "rn_at (sd_run s) \<noteq> RunReturned" using running by (auto simp: rstep_iffs)
    with inv have "sched_ok B I s" "sched_count now I s" "B < I \<Longrightarrow> sched_exact now I s" by (simp_all add: sched_inv_def)
    with begins show ?thesis by (auto simp: sched_parts rstep_iffs)
  next
    case (other r)
    then have at: "rn_at (sd_run s) \<noteq> RunReturned" using running by (auto simp: rstep_iffs)
    with inv have "sched_ok B I s" "sched_count now I s" "B < I \<Longrightarrow> sched_exact now I s" "0 < I" by (simp_all add: sched_inv_def)
    note old = this
    show ?thesis
    proof (cases "e = TickerFires")
      case True
      with other have t: "t = s\<lparr>sd_run := (sd_run s)\<lparr>rn_ticker := ticker_fire (rn_ticker (sd_run s)) (rn_clock (sd_run s))\<rparr>\<rparr>"
        and due: "tk_next (rn_ticker (sd_run s)) \<le> rn_clock (sd_run s)" by (simp_all add: rstep_iffs ticker_due_def)
      let ?k = "rn_ticker (sd_run s)" and ?c = "rn_clock (sd_run s)"
      have p: "tk_period ?k = I" using old(1) by (simp add: sched_ok_def Let_def)
      note fire = ticker_fire_next [OF due, unfolded p, OF old(4)]
      have c: "?c = tk_next ?k" using old(1) due by (simp add: sched_ok_def Let_def)
      have "sched_ok B I t" using old(1) fire p by (simp add: t sched_ok_def Let_def)
      moreover have "sched_count now I t" using old(2) fire(1) by (simp add: t sched_count_def Let_def split: if_splits)
      moreover have "sched_exact now I t" if fits: "B < I"
        using old(1,3) fits fire c at by (cases "rn_at (sd_run s)") (simp_all add: t sched_ok_def sched_exact_def Let_def split: if_splits)
      ultimately show ?thesis by blast
    next
      case False
      have r: "rn_ticker r = rn_ticker (sd_run s)" "rn_clock r = rn_clock (sd_run s)" "rn_started r = rn_started (sd_run s)"
        "rn_at r = rn_at (sd_run s) \<or> rn_at (sd_run s) = InTick \<and> rn_at r = AtLoopSelect"
        using other False running by (auto simp: rstep_iffs)
      have "sched_ok B I t" using old(1) r by (auto simp: other(1) sched_ok_def Let_def)
      moreover have "sched_count now I t" using old(2) by (simp add: other(1) sched_count_def Let_def r(1-3))
      moreover have "sched_exact now I t" if fits: "B < I"
        using old(3) [OF fits] r(4) by (auto simp: other(1) sched_exact_def Let_def r(1-3) split: if_splits)
      ultimately show ?thesis by blast
    qed
  qed
  ultimately show ?thesis using inv by (simp add: sched_inv_def)
qed

interpretation scheduled: invariant_system
    "\<lambda>s. \<exists>r. Run_start interval now = Inr r \<and> s = sched_start r" "sched_step B" "sched_inv now B (nat (sint interval))"
  for interval now B
  by unfold_locales (auto intro: sched_start_inv sched_inv_step)

section \<open>Properties\<close>

lemma next_from_select:
  assumes inv: "sched_inv now B I s" and at: "rn_at (sd_run s) = AtLoopSelect" and go: "\<not> rn_ctx_done (sd_run s)"
  shows "\<exists>fs t. run (sched_step B) s fs t \<and> rn_started (sd_run t) = Suc (rn_started (sd_run s)) \<and>
     sd_last t \<le> sd_last s + max B I"
proof -
  let ?r = "sd_run s" and ?k = "rn_ticker (sd_run s)"
  from inv at have ok: "sched_ok B I s" and live: "\<not> tk_stopped ?k" by (simp_all add: sched_inv_def run_inv_def)
  have take: "\<exists>t. sched_step B s TakeTick t \<and> rn_started (sd_run t) = Suc (rn_started (sd_run s)) \<and>
      sd_last t = rn_clock (sd_run s)"
    if "rn_at (sd_run s) = AtLoopSelect" "tk_pending (rn_ticker (sd_run s))" for s
    using sched_step.begins [OF rstep.take_tick [OF that]] by (intro exI conjI) (assumption, simp_all)
  show ?thesis
  proof (cases "tk_pending ?k")
    case True
    from take [OF at True] obtain t where t: "sched_step B s TakeTick t"
      "rn_started (sd_run t) = Suc (rn_started ?r)" "sd_last t = rn_clock ?r" by blast
    moreover have "rn_clock ?r \<le> sd_last s + max B I" using ok by (simp add: sched_ok_def Let_def)
    ultimately show ?thesis by (intro exI [of _ "[TakeTick]"] exI [of _ t]) (simp add: run_single)
  next
    case False
    let ?d = "tk_next ?k - rn_clock ?r"
    let ?s1 = "s\<lparr>sd_run := ?r\<lparr>rn_clock := tk_next ?k\<rparr>\<rparr>"
    let ?s2 = "s\<lparr>sd_run := ?r\<lparr>rn_clock := tk_next ?k, rn_ticker := ticker_fire ?k (tk_next ?k)\<rparr>\<rparr>"
    from ok False have nxt: "rn_clock ?r \<le> tk_next ?k" "tk_next ?k \<le> sd_last s + I"
      by (simp_all add: sched_ok_def Let_def)
    have "sched_step B s (Elapse ?d) ?s1"
      using at False go nxt(1) by (intro elapses) (simp_all add: rstep_iffs)
    moreover have "sched_step B ?s1 TickerFires ?s2"
      using sched_step.other [of ?s1 TickerFires "sd_run ?s2" B] live by (simp add: rstep_iffs ticker_due_def)
    moreover obtain t where t: "sched_step B ?s2 TakeTick t" "rn_started (sd_run t) = Suc (rn_started (sd_run ?s2))"
      "sd_last t = rn_clock (sd_run ?s2)" using take [of ?s2] at by auto
    ultimately have "run (sched_step B) s [Elapse ?d, TickerFires, TakeTick] t" by (auto simp: run_Cons_iff)
    with t(2,3) nxt(2) show ?thesis
      by (intro exI [of _ "[Elapse ?d, TickerFires, TakeTick]"] exI [of _ t]) simp
  qed
qed



end
