(* ===== verification/Server.thy ===== *)
theory Server
  imports Config Go_Http Go_Url
begin

text \<open>
  \<open>run\<close> and \<open>connectDatabase\<close> of \<open>cmd/server/main.go\<close>: the order of start-up and
  shutdown, with every early return, and what the deferred calls release. What each
  external step answers is an argument; the trace lists the steps that happen. The
  two handlers that answer without the rest of the program are here as well.
\<close>

section \<open>Steps and answers\<close>

datatype srv_step =
    NotifySignals | StopSignals
  | OpenPool | PingDatabase | ClosePool
  | RunMigrations
  | NewLimiter | CloseLimiter
  | NewHandlers | StartMonitor | ListenAndServe
  | ShutdownServer
  | AwaitMonitor bool   \<comment> \<open>whether the monitor loop stopped within the bound\<close>

datatype serve_end = ErrServerClosed | ServeErr string

datatype srv_err =
    ConfigFailed config_err
  | CreatePool string | PingFailed string | MigrationsFailed string | InitHandlers string
  | HttpServer string | HttpShutdown string

text \<open>What \<open>select\<close> sees first: the server has ended by itself, or the signal.\<close>

datatype first_event = ServerEnded "serve_end option" | SignalReceived

record srv_env =
  ev_config :: "config_err + config"
  ev_open :: "string option"
  ev_ping :: "string option"
  ev_migrate :: "string option"
  ev_handlers :: "string option"
  ev_first :: first_event
  ev_shutdown :: "string option"
  ev_served :: "serve_end option"   \<comment> \<open>what \<open>errCh\<close> delivers after the shutdown\<close>
  ev_monitor_done :: bool

section \<open>The program\<close>

definition connectDatabase :: "srv_env \<Rightarrow> srv_err option \<times> srv_step list" where
  "connectDatabase e =
     (case ev_open e of
        Some x \<Rightarrow> (Some (CreatePool x), [])
      | None \<Rightarrow> (case ev_ping e of
            Some x \<Rightarrow> (Some (PingFailed x), [OpenPool, PingDatabase, ClosePool])
          | None \<Rightarrow> (None, [OpenPool, PingDatabase])))"

definition serve_failed :: "serve_end option \<Rightarrow> srv_err option" where
  "serve_failed r = (case r of Some (ServeErr x) \<Rightarrow> Some (HttpServer x) | _ \<Rightarrow> None)"

text \<open>From the \<open>select\<close> on; \<open>Some\<close> is the error that \<open>run\<close> returns.\<close>

definition run_until_stop :: "srv_env \<Rightarrow> srv_err option \<times> srv_step list" where
  "run_until_stop e =
     (case ev_first e of
        ServerEnded r \<Rightarrow> (serve_failed r, [])
      | SignalReceived \<Rightarrow>
          (case ev_shutdown e of
             Some x \<Rightarrow> (Some (HttpShutdown x), [ShutdownServer])
           | None \<Rightarrow> (case serve_failed (ev_served e) of
                 Some x \<Rightarrow> (Some x, [ShutdownServer])
               | None \<Rightarrow> (None, [ShutdownServer, AwaitMonitor (ev_monitor_done e)]))))"

text \<open>The body below each \<open>defer\<close>, with the deferred call after it.\<close>

definition with_limiter :: "srv_env \<Rightarrow> srv_err option \<times> srv_step list" where
  "with_limiter e =
     (case (case ev_handlers e of
              Some x \<Rightarrow> (Some (InitHandlers x), [])
            | None \<Rightarrow> (case run_until_stop e of (r, tr) \<Rightarrow>
                (r, [NewHandlers, StartMonitor, ListenAndServe] @ tr))) of
        (r, tr) \<Rightarrow> (r, [NewLimiter] @ tr @ [CloseLimiter]))"

definition with_pool :: "srv_env \<Rightarrow> srv_err option \<times> srv_step list" where
  "with_pool e =
     (case (case ev_migrate e of
              Some x \<Rightarrow> (Some (MigrationsFailed x), [RunMigrations])
            | None \<Rightarrow> (case with_limiter e of (r, tr) \<Rightarrow> (r, RunMigrations # tr))) of
        (r, tr) \<Rightarrow> (r, tr @ [ClosePool]))"

definition run_server :: "srv_env \<Rightarrow> srv_err option \<times> srv_step list" where
  "run_server e =
     (case ev_config e of
        Inl x \<Rightarrow> (Some (ConfigFailed x), [])
      | Inr cfg \<Rightarrow>
          (case (case connectDatabase e of
                   (Some x, tr) \<Rightarrow> (Some x, tr)
                 | (None, tr) \<Rightarrow> (case with_pool e of (r, tr') \<Rightarrow> (r, tr @ tr'))) of
             (r, tr) \<Rightarrow> (r, [NotifySignals] @ tr @ [StopSignals])))"

text \<open>The exit status of \<open>main\<close>.\<close>

definition server_main :: "srv_env \<Rightarrow> nat" where
  "server_main e = (case fst (run_server e) of Some _ \<Rightarrow> 1 | None \<Rightarrow> 0)"

text \<open>What \<open>connectDatabase\<close> logs of the connection string: a host and a database name.\<close>

definition databaseLocation :: "string \<Rightarrow> string \<times> string" where
  "databaseLocation databaseURL =
     (case url_Parse databaseURL of
        Inl _ \<Rightarrow> ([], [])
      | Inr u \<Rightarrow> (Hostname u, TrimPrefix (Path u) ''/''))"

definition healthz :: "response \<Rightarrow> response" where
  "healthz w = Write (''ok'' @ [LF]) (WriteHeader StatusOK (Header_Set ''Content-Type'' ''text/plain; charset=utf-8'' w))"

text \<open>The handler of \<open>cmd/targetsrv\<close>.\<close>

definition targetsrv_handler :: "response \<Rightarrow> response" where
  "targetsrv_handler w = Write ''ok'' (WriteHeader StatusOK (Header_Set ''Content-Type'' ''text/plain; charset=utf-8'' w))"

section \<open>Properties\<close>

fun released_by :: "srv_step \<Rightarrow> srv_step option" where
  "released_by NotifySignals = Some StopSignals"
| "released_by OpenPool = Some ClosePool"
| "released_by NewLimiter = Some CloseLimiter"
| "released_by _ = None"

definition is_release :: "srv_step \<Rightarrow> bool" where
  "is_release x \<longleftrightarrow> x \<in> {StopSignals, ClosePool, CloseLimiter}"

lemmas server_defs = run_server_def connectDatabase_def with_pool_def with_limiter_def run_until_stop_def
  serve_failed_def server_main_def

text \<open>
  Whatever happens, the server cleans up. On every path through start-up, failure
  and shutdown, exactly the resources that were acquired are released, each once and
  in the reverse order; when the program exits with status 0 after a signal it has
  shut the HTTP server down and waited for the monitor loop, both before it closes
  the limiter and the database.
\<close>

theorem server_cleans_up:
  "filter is_release (snd (run_server e)) = rev (List.map_filter released_by (snd (run_server e))) \<and>
   (case (server_main e, ev_first e) of
      (0, SignalReceived) \<Rightarrow> snd (run_server e) =
        [NotifySignals, OpenPool, PingDatabase, RunMigrations, NewLimiter, NewHandlers, StartMonitor, ListenAndServe,
         ShutdownServer, AwaitMonitor (ev_monitor_done e), CloseLimiter, ClosePool, StopSignals]
    | _ \<Rightarrow> True)"
  by (cases "ev_config e"; cases "ev_open e"; cases "ev_ping e"; cases "ev_migrate e"; cases "ev_handlers e";
      cases "ev_first e"; cases "ev_shutdown e")
    (auto simp: server_defs is_release_def List.map_filter_simps split: option.splits serve_end.splits nat.splits)

section \<open>The log line of the connection\<close>

text \<open>A connection URL in the form the documentation shows.\<close>

definition database_url :: "string \<Rightarrow> string \<Rightarrow> string \<Rightarrow> string \<Rightarrow> string" where
  "database_url user password host db = ''postgres://'' @ user @ '':'' @ password @ ''@'' @ host @ ''/'' @ db"

lemma name_chars: "list_all name_char s \<Longrightarrow> c \<in> set ''%:/?#@[]'' \<Longrightarrow> c \<notin> set s"
  using name_char_not by (auto simp: list_all_iff)

lemma name_no_control: "list_all name_char s \<Longrightarrow> \<not> list_ex is_control s"
  using name_char_not by (auto simp: list_all_iff list_ex_iff)

lemma unescape_other_name: "list_all name_char s \<Longrightarrow> unescape EncodeOther s = Inr s"
  by (induction s) (auto dest: name_char_not)

lemma cut_last_append: "c \<notin> set b \<Longrightarrow> cut_last c (a @ c # b) = Some (a, b)"
  by (induction a) (auto simp: cut_last_none)

lemma valid_name: "list_all name_char s \<Longrightarrow> validUserinfo s"
  by (auto simp: validUserinfo_def list_all_iff name_char_def)

lemma scheme_postgres: "getScheme (''postgres:'' @ r) = Inr (''postgres'', r)"
  by (simp add: getScheme_def is_alpha_def is_upper_def is_dec_def byte_def)

lemma parse_database_url:
  assumes "list_all name_char user" and "list_all name_char password" and "list_all name_char host"
    and "list_all name_char db"
  shows "url_Parse (database_url user password host db) = Inr \<lparr>Scheme = ''postgres'', Host = host, Path = ''/'' @ db\<rparr>"
proof -
  let ?auth = "user @ '':'' @ password @ ''@'' @ host" let ?raw = "database_url user password host db"
  have raw: "?raw = ''postgres:'' @ ''//'' @ ?auth @ CHR ''/'' # db" by (simp add: database_url_def)
  have no: "c \<notin> set user" "c \<notin> set password" "c \<notin> set host" "c \<notin> set db" if "c \<in> set ''%:/?#@[]''" for c
    using assms name_chars that by blast+
  have auth: "parseAuthority ?auth = Inr host"
  proof -
    have "cut_last (CHR ''@'') ((user @ '':'' @ password) @ CHR ''@'' # host) = Some (user @ '':'' @ password, host)"
      by (rule cut_last_append) (simp add: no)
    moreover have "cut_at (CHR '':'') (user @ CHR '':'' # password) = (user, password)"
      by (rule cut_at_append) (simp add: no)
    moreover have "validUserinfo (user @ '':'' @ password)"
      using valid_name [OF assms(1)] valid_name [OF assms(2)] by (simp add: validUserinfo_def)
    ultimately show ?thesis
      using parseHost_name [OF assms(3)] unescape_other_name [OF assms(1)] unescape_other_name [OF assms(2)]
      by (simp add: parseAuthority_def)
  qed
  have cut: "cut_at (CHR ''/'') (?auth @ CHR ''/'' # db) = (?auth, db)"
    by (rule cut_at_append) (simp add: no)
  have path: "unescape EncodeOther (CHR ''/'' # db) = Inr (CHR ''/'' # db)"
    using unescape_other_name [OF assms(4)] by simp
  have rest: "parse_rest False ''postgres'' (''//'' @ ?auth @ CHR ''/'' # db) =
      Inr \<lparr>Scheme = ''postgres'', Host = host, Path = ''/'' @ db\<rparr>"
    using cut auth path by (simp add: parse_rest_def set_path_def)
  have low: "to_lower ''postgres'' = ''postgres''" by code_simp
  have question: "cut_at (CHR ''?'') (''//'' @ ?auth @ CHR ''/'' # db) = (''//'' @ ?auth @ CHR ''/'' # db, [])"
    by (rule cut_at_none) (simp add: no)
  have "\<not> list_ex is_control ?raw"
    using assms name_no_control by (simp add: raw) (simp add: is_control_def byte_def)
  then have "parse_url False ?raw = Inr \<lparr>Scheme = ''postgres'', Host = host, Path = ''/'' @ db\<rparr>"
    using rest question scheme_postgres [of "''//'' @ ?auth @ CHR ''/'' # db"] low
    by (simp add: parse_url_def raw Let_def)
  moreover have "cut_at (CHR ''#'') ?raw = (?raw, [])" by (rule cut_at_none) (simp add: raw no)
  ultimately show ?thesis by (simp add: url_Parse_def)
qed



end
