(* ===== verification/Shutdown.thy ===== *)
theory Shutdown
  imports Server Pool_Run
begin

text \<open>
  The last part of \<open>run\<close> of \<open>cmd/server/main.go\<close> together with the monitor loop it has
  started: the main goroutine at its two \<open>select\<close>s, \<open>Pool.Run\<close> (\<open>Pool_Run\<close>), and the
  clock. \<open>Server\<close> takes what the waits answer as an argument; here the answers come
  from the loop and from the timeouts, and time can be bounded.
\<close>

section \<open>The process\<close>

datatype main_pc =
    AtSelect                       \<comment> \<open>\<open>errCh\<close> or \<open>ctx.Done()\<close>\<close>
  | InShutdown time                \<comment> \<open>\<open>srv.Shutdown\<close> with the deadline of \<open>shutdownCtx\<close>\<close>
  | AtErrCh                        \<comment> \<open>the receive from \<open>errCh\<close> after the shutdown\<close>
  | AtMonDone time                 \<comment> \<open>\<open>monDone\<close> or the timer\<close>
  | MainDone "srv_err option" "srv_step list"

record proc =
  pr_loop :: run_sys
  pr_main :: main_pc
  pr_signal :: "time option"  \<comment> \<open>history: when the signal was seen\<close>

definition proc_init :: "run_sys \<Rightarrow> proc" where
  "proc_init l = \<lparr>pr_loop = l, pr_main = AtSelect, pr_signal = None\<rparr>"

definition drain_limit :: duration where
  "drain_limit = 10 * Second"

definition monitor_limit :: "duration \<Rightarrow> duration" where
  "monitor_limit checkTimeout = checkTimeout + 5 * Second"

text \<open>A timer or deadline of a duration that is not positive is due at once.\<close>

definition due_at :: "time \<Rightarrow> duration \<Rightarrow> time" where
  "due_at now d = now + nat (sint d)"

text \<open>
  No time passes over a deadline the main goroutine waits for, and none while
  \<open>errCh\<close> is about to deliver: \<open>ListenAndServe\<close> returns as soon as \<open>Shutdown\<close> is
  called.
\<close>

fun may_pass :: "main_pc \<Rightarrow> time \<Rightarrow> bool" where
  "may_pass AtSelect now = True"
| "may_pass (InShutdown deadline) now \<longleftrightarrow> now \<le> deadline"
| "may_pass AtErrCh now = False"
| "may_pass (AtMonDone deadline) now \<longleftrightarrow> now \<le> deadline"
| "may_pass (MainDone r tr) now = False"

datatype proc_event =
    LoopDoes run_event
  | Signal                              \<comment> \<open>ends the context of the process\<close>
  | Pass nat
  | ServerStops "serve_end option"
  | SeesSignal
  | ShutdownReturns "string option"
  | ErrChDelivers "serve_end option"
  | SeesMonitorDone
  | SeesTimeout

inductive proc_step :: "duration \<Rightarrow> proc \<Rightarrow> proc_event \<Rightarrow> proc \<Rightarrow> bool" for checkTimeout where
  loop_does: "rstep (pr_loop s) e l \<Longrightarrow> e \<in> {TickerFires, TickEnds, TakeTick, ReturnRun} \<Longrightarrow>
     (\<forall>r tr. pr_main s \<noteq> MainDone r tr) \<Longrightarrow>
     proc_step checkTimeout s (LoopDoes e) (s\<lparr>pr_loop := l\<rparr>)"
| signal: "pr_main s = AtSelect \<Longrightarrow> rstep (pr_loop s) Cancel l \<Longrightarrow> proc_step checkTimeout s Signal (s\<lparr>pr_loop := l\<rparr>)"
| pass: "may_pass (pr_main s) (rn_clock (pr_loop s) + d) \<Longrightarrow> rstep (pr_loop s) (Elapse d) l \<Longrightarrow>
     proc_step checkTimeout s (Pass d) (s\<lparr>pr_loop := l\<rparr>)"
| server_stops: "pr_main s = AtSelect \<Longrightarrow>
     proc_step checkTimeout s (ServerStops r) (s\<lparr>pr_main := MainDone (serve_failed r) []\<rparr>)"
| sees_signal: "pr_main s = AtSelect \<Longrightarrow> rn_ctx_done (pr_loop s) \<Longrightarrow>
     proc_step checkTimeout s SeesSignal
       (s\<lparr>pr_main := InShutdown (due_at (rn_clock (pr_loop s)) drain_limit), pr_signal := Some (rn_clock (pr_loop s))\<rparr>)"
| shutdown_returns: "pr_main s = InShutdown deadline \<Longrightarrow>
     proc_step checkTimeout s (ShutdownReturns e)
       (s\<lparr>pr_main := (case e of Some x \<Rightarrow> MainDone (Some (HttpShutdown x)) [ShutdownServer] | None \<Rightarrow> AtErrCh)\<rparr>)"
| err_ch: "pr_main s = AtErrCh \<Longrightarrow>
     proc_step checkTimeout s (ErrChDelivers r)
       (s\<lparr>pr_main := (case serve_failed r of
           Some x \<Rightarrow> MainDone (Some x) [ShutdownServer]
         | None \<Rightarrow> AtMonDone (due_at (rn_clock (pr_loop s)) (monitor_limit checkTimeout)))\<rparr>)"
| monitor_done: "pr_main s = AtMonDone deadline \<Longrightarrow> rn_at (pr_loop s) = RunReturned \<Longrightarrow>
     proc_step checkTimeout s SeesMonitorDone (s\<lparr>pr_main := MainDone None [ShutdownServer, AwaitMonitor True]\<rparr>)"
| timed_out: "pr_main s = AtMonDone deadline \<Longrightarrow> deadline \<le> rn_clock (pr_loop s) \<Longrightarrow>
     proc_step checkTimeout s SeesTimeout (s\<lparr>pr_main := MainDone None [ShutdownServer, AwaitMonitor False]\<rparr>)"

inductive_simps proc_step_iffs:
  "proc_step checkTimeout s (LoopDoes e) t" "proc_step checkTimeout s Signal t" "proc_step checkTimeout s (Pass d) t"
  "proc_step checkTimeout s (ServerStops r) t" "proc_step checkTimeout s SeesSignal t"
  "proc_step checkTimeout s (ShutdownReturns e') t" "proc_step checkTimeout s (ErrChDelivers r) t"
  "proc_step checkTimeout s SeesMonitorDone t" "proc_step checkTimeout s SeesTimeout t"

section \<open>The invariant\<close>

text \<open>Where the clock can be, counted from the signal.\<close>

definition main_ok :: "duration \<Rightarrow> proc \<Rightarrow> bool" where
  "main_ok checkTimeout s \<longleftrightarrow>
     (case pr_main s of
        AtSelect \<Rightarrow> pr_signal s = None
      | InShutdown deadline \<Rightarrow> rn_ctx_done (pr_loop s) \<and> rn_clock (pr_loop s) \<le> deadline \<and>
          (\<exists>t0. pr_signal s = Some t0 \<and> deadline = due_at t0 drain_limit)
      | AtErrCh \<Rightarrow> rn_ctx_done (pr_loop s) \<and> (\<exists>t0. pr_signal s = Some t0 \<and> rn_clock (pr_loop s) \<le> due_at t0 drain_limit)
      | AtMonDone deadline \<Rightarrow> rn_ctx_done (pr_loop s) \<and> rn_clock (pr_loop s) \<le> deadline \<and>
          (\<exists>t0. pr_signal s = Some t0 \<and> deadline \<le> due_at (due_at t0 drain_limit) (monitor_limit checkTimeout))
      | MainDone r tr \<Rightarrow>
          (\<exists>e. run_until_stop e = (r, tr) \<and>
             (ev_first e = SignalReceived \<longleftrightarrow> pr_signal s \<noteq> None) \<and>
             (AwaitMonitor True \<in> set tr \<longrightarrow> rn_at (pr_loop s) = RunReturned)) \<and>
          (\<forall>t0. pr_signal s = Some t0 \<longrightarrow>
             rn_clock (pr_loop s) \<le> due_at (due_at t0 drain_limit) (monitor_limit checkTimeout)))"

definition proc_inv :: "duration \<Rightarrow> proc \<Rightarrow> bool" where
  "proc_inv checkTimeout s \<longleftrightarrow> run_inv (pr_loop s) \<and> main_ok checkTimeout s"

lemma due_at_mono [simp]: "now \<le> due_at now d" "now \<le> now' \<Longrightarrow> due_at now d \<le> due_at now' d"
  by (simp_all add: due_at_def)

text \<open>An environment of the sequential model with the given answers.\<close>

definition stop_env :: "first_event \<Rightarrow> string option \<Rightarrow> serve_end option \<Rightarrow> bool \<Rightarrow> srv_env" where
  "stop_env f sh sv mon = \<lparr>ev_config = Inl (NotInteger [] []), ev_open = None, ev_ping = None, ev_migrate = None,
     ev_handlers = None, ev_first = f, ev_shutdown = sh, ev_served = sv, ev_monitor_done = mon\<rparr>"

lemma stop_env_runs:
  "run_until_stop (stop_env (ServerEnded r) sh sv mon) = (serve_failed r, [])"
  "run_until_stop (stop_env SignalReceived (Some x) sv mon) = (Some (HttpShutdown x), [ShutdownServer])"
  "serve_failed r = Some y \<Longrightarrow> run_until_stop (stop_env SignalReceived None r mon) = (Some y, [ShutdownServer])"
  "run_until_stop (stop_env SignalReceived None None mon) = (None, [ShutdownServer, AwaitMonitor mon])"
  "ev_first (stop_env f sh sv mon) = f"
  by (simp_all add: run_until_stop_def stop_env_def serve_failed_def)

lemma proc_init_inv: "Run_start interval now = Inr l \<Longrightarrow> proc_inv checkTimeout (proc_init l)"
  using Run_start_inv by (simp add: proc_inv_def proc_init_def main_ok_def)

lemma loop_views:
  assumes "rstep l e l'" and "e \<in> {TickerFires, TickEnds, TakeTick, ReturnRun}"
  shows "rn_clock l' = rn_clock l \<and> rn_ctx_done l' = rn_ctx_done l"
  using assms by (cases rule: rstep.cases) auto

lemma main_ok_cong:
  assumes "main_ok checkTimeout s" and "\<forall>r tr. pr_main s \<noteq> MainDone r tr"
    and "rn_clock l = rn_clock (pr_loop s)" and "rn_ctx_done (pr_loop s) \<longrightarrow> rn_ctx_done l"
  shows "main_ok checkTimeout (s\<lparr>pr_loop := l\<rparr>)"
  using assms by (cases "pr_main s") (auto simp: main_ok_def)

lemma main_ok_done:
  assumes "run_until_stop e = (r, tr)" and "ev_first e = SignalReceived \<longleftrightarrow> pr_signal s \<noteq> None"
    and "AwaitMonitor True \<in> set tr \<longrightarrow> rn_at (pr_loop s) = RunReturned"
    and "\<And>t0. pr_signal s = Some t0 \<Longrightarrow> rn_clock (pr_loop s) \<le> due_at (due_at t0 drain_limit) (monitor_limit checkTimeout)"
  shows "main_ok checkTimeout (s\<lparr>pr_main := MainDone r tr\<rparr>)"
  using assms by (auto simp: main_ok_def)

lemma main_ok_step:
  assumes step: "proc_step checkTimeout s e t" and ok: "main_ok checkTimeout s"
  shows "main_ok checkTimeout t"
  using step
proof (cases rule: proc_step.cases)
  case (loop_does e l)
  with loop_views [OF loop_does(3,4)] ok show ?thesis by (simp add: main_ok_cong)
next
  case (signal l)
  with ok show ?thesis by (auto simp: main_ok_def rstep_iffs)
next
  case (pass d l)
  with ok show ?thesis by (cases "pr_main s") (auto simp: main_ok_def rstep_iffs)
next
  case (server_stops r)
  with ok stop_env_runs(1,5) show ?thesis
    by (auto simp: main_ok_def intro!: exI [of _ "stop_env (ServerEnded r) None None True"])
next
  case sees_signal
  with ok show ?thesis by (simp add: main_ok_def)
next
  case (shutdown_returns deadline x)
  show ?thesis
  proof (cases x)
    case None
    with shutdown_returns ok show ?thesis by (auto simp: main_ok_def)
  next
    case (Some y)
    from ok shutdown_returns obtain t0 where "pr_signal s = Some t0" "rn_clock (pr_loop s) \<le> due_at t0 drain_limit"
      by (auto simp: main_ok_def)
    moreover from this have "rn_clock (pr_loop s) \<le> due_at (due_at t0 drain_limit) (monitor_limit checkTimeout)"
      by (meson due_at_mono(1) le_trans)
    ultimately show ?thesis
      unfolding shutdown_returns(2) Some option.case
      by (intro main_ok_done [OF stop_env_runs(2) [of y None True]]) (simp_all add: stop_env_runs(5))
  qed
next
  case (err_ch r)
  from ok err_ch obtain t0 where t0: "pr_signal s = Some t0" "rn_clock (pr_loop s) \<le> due_at t0 drain_limit"
    "rn_ctx_done (pr_loop s)" by (auto simp: main_ok_def)
  show ?thesis
  proof (cases "serve_failed r")
    case None
    with err_ch t0 show ?thesis by (simp add: main_ok_def)
  next
    case (Some y)
    have "rn_clock (pr_loop s) \<le> due_at (due_at t0 drain_limit) (monitor_limit checkTimeout)"
      using t0(2) by (meson due_at_mono(1) le_trans)
    with t0(1) show ?thesis
      unfolding err_ch(2) Some option.case
      by (intro main_ok_done [OF stop_env_runs(3) [OF Some, of True]]) (simp_all add: stop_env_runs(5))
  qed
next
  case (monitor_done deadline)
  from ok monitor_done obtain t0 where t0: "pr_signal s = Some t0"
    "rn_clock (pr_loop s) \<le> due_at (due_at t0 drain_limit) (monitor_limit checkTimeout)" by (auto simp: main_ok_def)
  then show ?thesis
    unfolding monitor_done(2)
    by (intro main_ok_done [OF stop_env_runs(4) [of True]]) (simp_all add: stop_env_runs(5) monitor_done(4))
next
  case (timed_out deadline)
  from ok timed_out obtain t0 where t0: "pr_signal s = Some t0"
    "rn_clock (pr_loop s) \<le> due_at (due_at t0 drain_limit) (monitor_limit checkTimeout)" by (auto simp: main_ok_def)
  then show ?thesis
    unfolding timed_out(2)
    by (intro main_ok_done [OF stop_env_runs(4) [of False]]) (simp_all add: stop_env_runs(5))
qed

lemma proc_inv_step:
  assumes "proc_step checkTimeout s e t" and "proc_inv checkTimeout s"
  shows "proc_inv checkTimeout t"
proof -
  have "pr_loop t = pr_loop s \<or> (\<exists>e. rstep (pr_loop s) e (pr_loop t))"
    using assms(1) by (cases rule: proc_step.cases) auto
  with assms main_ok_step [OF assms(1)] show ?thesis by (auto simp: proc_inv_def intro: run_inv_step)
qed

interpretation process: invariant_system
    "\<lambda>s. \<exists>l. Run_start interval now = Inr l \<and> s = proc_init l" "proc_step checkTimeout" "proc_inv checkTimeout"
  for interval now checkTimeout
  by unfold_locales (auto intro: proc_init_inv proc_inv_step)

section \<open>Properties\<close>

lemma sint_drain_limit: "sint drain_limit = 10000000000"
  by (simp add: drain_limit_def Second_def)

lemma sint_monitor_limit:
  assumes "0 \<le> sint checkTimeout"
  shows "sint (monitor_limit checkTimeout) =
     (if sint checkTimeout + 5000000000 < 2 ^ 63 then sint checkTimeout + 5000000000
      else sint checkTimeout + 5000000000 - 2 ^ 64)"
proof (cases "sint checkTimeout + 5000000000 < 2 ^ 63")
  case True
  have e: "monitor_limit checkTimeout = word_of_int (sint checkTimeout + 5000000000)"
    by (simp add: monitor_limit_def Second_def)
  from True assms show ?thesis unfolding e by (subst sint_i64_of_int) simp_all
next
  case False
  have e: "monitor_limit checkTimeout = word_of_int (sint checkTimeout + 5000000000 - 2 ^ 64)"
    by (simp add: monitor_limit_def Second_def)
  from False sint_i64_range(2) [of checkTimeout] show ?thesis unfolding e by (subst sint_i64_of_int) simp_all
qed

text \<open>The main goroutine can finish without any help of the loop.\<close>

lemma can_finish:
  assumes "pr_signal s \<noteq> None" and "main_ok checkTimeout s"
  shows "\<exists>fs t r tr. run (proc_step checkTimeout) s fs t \<and> pr_main t = MainDone r tr \<and> (\<forall>e. LoopDoes e \<notin> set fs)"
proof -
  have mon: "\<exists>fs t r tr. run (proc_step checkTimeout) s fs t \<and> pr_main t = MainDone r tr \<and> (\<forall>e. LoopDoes e \<notin> set fs)"
    if at: "pr_main s = AtMonDone deadline" and le: "rn_clock (pr_loop s) \<le> deadline" for s deadline
  proof -
    let ?l = "(pr_loop s)\<lparr>rn_clock := deadline\<rparr>"
    have "run (proc_step checkTimeout) s [Pass (deadline - rn_clock (pr_loop s)), SeesTimeout]
        (s\<lparr>pr_loop := ?l, pr_main := MainDone None [ShutdownServer, AwaitMonitor False]\<rparr>)"
      using at le by (simp add: run_Cons_iff proc_step_iffs rstep_iffs)
    then show ?thesis by (intro exI conjI) (assumption, simp_all)
  qed
  show ?thesis
  proof (cases "pr_main s")
    case AtSelect
    with assms show ?thesis by (simp add: main_ok_def)
  next
    case (InShutdown deadline)
    then have "run (proc_step checkTimeout) s [ShutdownReturns (Some [])]
        (s\<lparr>pr_main := MainDone (Some (HttpShutdown [])) [ShutdownServer]\<rparr>)"
      by (simp add: run_Cons_iff proc_step_iffs)
    then show ?thesis by (intro exI conjI) (assumption, simp_all)
  next
    case AtErrCh
    let ?s = "s\<lparr>pr_main := AtMonDone (due_at (rn_clock (pr_loop s)) (monitor_limit checkTimeout))\<rparr>"
    have "proc_step checkTimeout s (ErrChDelivers None) ?s"
      using AtErrCh by (simp add: proc_step_iffs serve_failed_def)
    moreover obtain fs t r tr where "run (proc_step checkTimeout) ?s fs t" "pr_main t = MainDone r tr"
      "\<forall>e. LoopDoes e \<notin> set fs" using mon [of ?s] by auto
    ultimately show ?thesis
      by (intro exI [of _ "ErrChDelivers None # fs"] exI [of _ t]) (auto intro: run_cons)
  next
    case (AtMonDone deadline)
    with assms mon [OF AtMonDone] show ?thesis by (simp add: main_ok_def)
  next
    case (MainDone r tr)
    then show ?thesis by (intro exI [of _ "[]"] exI [of _ s]) simp
  qed
qed



text \<open>
  C32. A round can still be cut off. A round lasts as long as its checks need, one
  \<open>checkTimeout\<close> for every \<open>MaxWorkers\<close> slow targets, and \<open>run\<close> waits for one
  \<open>checkTimeout\<close> and five seconds only: it then returns without an error, so that
  the process exits with status 0, in the middle of the first round. When the sum
  overflows, as it does for a check timeout of 9223372036 seconds, which the
  configuration accepts, it does not wait at all.
\<close>

theorem shutdown_may_cut_round:
  assumes "Run_start interval now = Inr l"
  shows "\<exists>es s. run (proc_step checkTimeout) (proc_init l) es s \<and>
     pr_main s = MainDone None [ShutdownServer, AwaitMonitor False] \<and>
     rn_at (pr_loop s) = InTick \<and> rn_started (pr_loop s) = 1 \<and> rn_finished (pr_loop s) = 0 \<and>
     rn_clock (pr_loop s) = now + nat (sint (monitor_limit checkTimeout)) \<and>
     (0 \<le> sint checkTimeout \<and> 2 ^ 63 \<le> sint checkTimeout + 5000000000 \<longrightarrow> rn_clock (pr_loop s) = now)"
proof -
  let ?d = "nat (sint (monitor_limit checkTimeout))"
  let ?es = "[Signal, SeesSignal, ShutdownReturns None, ErrChDelivers (Some ErrServerClosed), Pass ?d, SeesTimeout]"
  let ?s = "\<lparr>pr_loop = l\<lparr>rn_ctx_done := True, rn_clock := now + ?d\<rparr>,
     pr_main = MainDone None [ShutdownServer, AwaitMonitor False], pr_signal = Some now\<rparr>"
  have l: "rn_clock l = now" "rn_at l = InTick" "rn_started l = 1" "rn_finished l = 0"
    using assms by (auto simp: Run_start_def split: sum.splits)
  then have "run (proc_step checkTimeout) (proc_init l) ?es ?s"
    by (simp add: run_Cons_iff proc_step_iffs rstep_iffs proc_init_def serve_failed_def due_at_def)
  moreover have "?d = 0" if "0 \<le> sint checkTimeout" "2 ^ 63 \<le> sint checkTimeout + 5000000000"
    using that sint_lt [of checkTimeout] by (simp add: sint_monitor_limit)
  ultimately show ?thesis using l by (intro exI [of _ ?es] exI [of _ ?s]) simp
qed

theorem shutdown_may_cut_round_witness:
  "\<exists>l es s. Run_start Second 0 = Inr l \<and> run (proc_step (9223372036 * Second)) (proc_init l) es s \<and>
     pr_main s = MainDone None [ShutdownServer, AwaitMonitor False] \<and>
     rn_finished (pr_loop s) = 0 \<and> rn_clock (pr_loop s) = 0"
proof -
  obtain l where l: "Run_start Second 0 = Inr l" by (simp add: Run_start_def NewTicker_def)
  have "sint (9223372036 * Second) = 9223372036000000000" by (simp add: Second_def)
  with shutdown_may_cut_round [OF l, of "9223372036 * Second"] l show ?thesis by auto
qed

end
