(* ===== verification/Draining.thy ===== *)
theory Draining
  imports Shutdown Sse_Timing
begin

text \<open>
  The HTTP server of \<open>run\<close> while it is shut down: the main goroutine of \<open>Shutdown\<close>, any
  number of open streams (\<open>Sse_Timing\<close>), and ordinary requests. \<open>BaseContext\<close> roots the
  context of every request in that of the process, so the signal ends every stream.
  Of \<open>srv.Shutdown\<close> the documented behaviour is used: no connection is accepted any
  more, it returns without an error once no request is active, which it looks at
  again and again (at least every \<open>poll\<close>), and with the error of its context at the
  deadline.
\<close>

section \<open>The server\<close>

record server =
  sv_proc :: proc
  sv_streams :: "beat list"
  sv_requests :: nat
  sv_busy :: time   \<comment> \<open>history: the last moment at which a request was active\<close>

definition server_init :: "run_sys \<Rightarrow> server" where
  "server_init l = \<lparr>sv_proc = proc_init l, sv_streams = [], sv_requests = 0, sv_busy = rn_clock l\<rparr>"

abbreviation sv_clock :: "server \<Rightarrow> time" where "sv_clock s \<equiv> rn_clock (pr_loop (sv_proc s))"
abbreviation sv_main :: "server \<Rightarrow> main_pc" where "sv_main s \<equiv> pr_main (sv_proc s)"

definition active :: "server \<Rightarrow> bool" where
  "active s \<longleftrightarrow> 0 < sv_requests s \<or> (\<exists>b \<in> set (sv_streams s). bt_at b \<noteq> Gone)"

fun in_shutdown :: "main_pc \<Rightarrow> bool" where
  "in_shutdown (InShutdown deadline) = True"
| "in_shutdown pc = False"

text \<open>The context of a stream is that of the process.\<close>

definition open_stream :: "bool \<Rightarrow> beat \<Rightarrow> beat" where
  "open_stream ctx_done b = b\<lparr>bt_ctx_done := ctx_done\<rparr>"

definition end_context :: "beat \<Rightarrow> beat" where
  "end_context b = b\<lparr>bt_ctx_done := True\<rparr>"

definition idle_by :: "nat \<Rightarrow> beat \<Rightarrow> beat" where
  "idle_by d b = b\<lparr>bt_clock := bt_clock b + d\<rparr>"

datatype server_event =
    RequestArrives | RequestEnds
  | StreamOpens response
  | StreamDoes nat beat_event
  | StreamLeaves nat
  | SignalEnds                  \<comment> \<open>the signal, with every context rooted in it\<close>
  | Passes nat
  | Drained
  | DrainFails string
  | MainDoes proc_event

inductive server_step :: "duration \<Rightarrow> nat \<Rightarrow> server \<Rightarrow> server_event \<Rightarrow> server \<Rightarrow> bool" for checkTimeout poll where
  request_arrives: "sv_main s = AtSelect \<Longrightarrow>
     server_step checkTimeout poll s RequestArrives (s\<lparr>sv_requests := Suc (sv_requests s), sv_busy := sv_clock s\<rparr>)"
| request_ends: "sv_requests s = Suc n \<Longrightarrow> server_step checkTimeout poll s RequestEnds (s\<lparr>sv_requests := n\<rparr>)"
| stream_opens: "sv_main s = AtSelect \<Longrightarrow> beat_start w (sv_clock s) = Inr b \<Longrightarrow>
     server_step checkTimeout poll s (StreamOpens w)
       (s\<lparr>sv_streams := sv_streams s @ [open_stream (rn_ctx_done (pr_loop (sv_proc s))) b], sv_busy := sv_clock s\<rparr>)"
| stream_does: "i < length (sv_streams s) \<Longrightarrow> beat_step (sv_streams s ! i) e b \<Longrightarrow> (\<forall>d. e \<noteq> Idle d) \<Longrightarrow>
     server_step checkTimeout poll s (StreamDoes i e) (s\<lparr>sv_streams := (sv_streams s)[i := b]\<rparr>)"
| stream_leaves: "i < length (sv_streams s) \<Longrightarrow> bt_at (sv_streams s ! i) = Leaving \<Longrightarrow>
     server_step checkTimeout poll s (StreamLeaves i)
       (s\<lparr>sv_streams := (sv_streams s)[i := (sv_streams s ! i)\<lparr>bt_at := Gone\<rparr>]\<rparr>)"
| signal_ends: "proc_step checkTimeout (sv_proc s) Signal p \<Longrightarrow>
     server_step checkTimeout poll s SignalEnds (s\<lparr>sv_proc := p, sv_streams := map end_context (sv_streams s)\<rparr>)"
| passes: "proc_step checkTimeout (sv_proc s) (Pass d) p \<Longrightarrow>
     (\<forall>b \<in> set (sv_streams s). bt_at b \<noteq> Gone \<longrightarrow> beat_step b (Idle d) (idle_by d b)) \<Longrightarrow>
     (in_shutdown (sv_main s) \<and> \<not> active s \<longrightarrow> sv_clock s + d \<le> sv_busy s + poll) \<Longrightarrow>
     server_step checkTimeout poll s (Passes d)
       (s\<lparr>sv_proc := p, sv_streams := map (idle_by d) (sv_streams s),
          sv_busy := (if active s then sv_clock s + d else sv_busy s)\<rparr>)"
| drained: "proc_step checkTimeout (sv_proc s) (ShutdownReturns None) p \<Longrightarrow> \<not> active s \<Longrightarrow>
     server_step checkTimeout poll s Drained (s\<lparr>sv_proc := p\<rparr>)"
| drain_fails: "sv_main s = InShutdown deadline \<Longrightarrow> deadline \<le> sv_clock s \<Longrightarrow>
     proc_step checkTimeout (sv_proc s) (ShutdownReturns (Some x)) p \<Longrightarrow>
     server_step checkTimeout poll s (DrainFails x) (s\<lparr>sv_proc := p\<rparr>)"
| main_does: "proc_step checkTimeout (sv_proc s) e p \<Longrightarrow>
     e \<noteq> Signal \<Longrightarrow> (\<forall>d. e \<noteq> Pass d) \<Longrightarrow> (\<forall>x. e \<noteq> ShutdownReturns x) \<Longrightarrow>
     server_step checkTimeout poll s (MainDoes e) (s\<lparr>sv_proc := p\<rparr>)"

section \<open>The invariant\<close>

definition server_inv :: "duration \<Rightarrow> server \<Rightarrow> bool" where
  "server_inv checkTimeout s \<longleftrightarrow> proc_inv checkTimeout (sv_proc s) \<and> sv_busy s \<le> sv_clock s \<and>
     (\<forall>b \<in> set (sv_streams s). beat_inv b \<and> (rn_ctx_done (pr_loop (sv_proc s)) \<longrightarrow> bt_ctx_done b))"

lemma proc_views:
  assumes "proc_step checkTimeout p e q" and "e \<noteq> Signal" and "\<forall>d. e \<noteq> Pass d"
  shows "rn_clock (pr_loop q) = rn_clock (pr_loop p) \<and> rn_ctx_done (pr_loop q) = rn_ctx_done (pr_loop p)"
  using assms(1)
proof (cases rule: proc_step.cases)
  case (loop_does e l)
  from loop_views [OF loop_does(3,4)] show ?thesis by (simp add: loop_does(2))
qed (use assms(2,3) in simp_all)

lemma pass_views: "proc_step checkTimeout p (Pass d) q \<Longrightarrow>
    rn_clock (pr_loop q) = rn_clock (pr_loop p) + d \<and> rn_ctx_done (pr_loop q) = rn_ctx_done (pr_loop p) \<and> pr_main q = pr_main p"
  by (auto simp: proc_step_iffs rstep_iffs)

lemma signal_views: "proc_step checkTimeout p Signal q \<Longrightarrow>
    rn_clock (pr_loop q) = rn_clock (pr_loop p) \<and> rn_ctx_done (pr_loop q) \<and> pr_main q = AtSelect"
  by (auto simp: proc_step_iffs rstep_iffs)

lemma stream_ctx: "beat_step b e c \<Longrightarrow> bt_ctx_done b \<Longrightarrow> bt_ctx_done c"
  by (cases rule: beat_step.cases) auto

lemma stream_views [simp]:
  "bt_ctx_done (open_stream v b) = v" "bt_ctx_done (end_context b)" "bt_at (end_context b) = bt_at b"
  "bt_at (idle_by d b) = bt_at b" "bt_ctx_done (idle_by d b) = bt_ctx_done b"
  "beat_inv (open_stream v b) \<longleftrightarrow> beat_inv b" "beat_inv (end_context b) \<longleftrightarrow> beat_inv b"
  "beat_inv b \<Longrightarrow> beat_inv (b\<lparr>bt_at := Gone\<rparr>)"
  by (simp_all add: open_stream_def end_context_def idle_by_def beat_inv_def)

lemma server_inv_step:
  assumes step: "server_step checkTimeout poll s e t" and inv: "server_inv checkTimeout s"
  shows "server_inv checkTimeout t"
  using step
proof (cases rule: server_step.cases)
  case request_arrives
  with inv show ?thesis by (simp add: server_inv_def)
next
  case (request_ends n)
  with inv show ?thesis by (simp add: server_inv_def)
next
  case (stream_opens w b)
  with inv beat_start_inv [OF stream_opens(4)] show ?thesis
    by (auto simp: server_inv_def)
next
  case (stream_does i e b)
  then have "sv_streams s ! i \<in> set (sv_streams s)" by simp
  with inv stream_does(4) have "beat_inv b \<and> (rn_ctx_done (pr_loop (sv_proc s)) \<longrightarrow> bt_ctx_done b)"
    using beat_inv_step stream_ctx by (auto simp: server_inv_def)
  with inv show ?thesis by (auto simp: server_inv_def stream_does(2) dest!: set_update_subset_insert [THEN subsetD])
next
  case (stream_leaves i)
  then have "sv_streams s ! i \<in> set (sv_streams s)" by simp
  with inv show ?thesis
    by (auto simp: server_inv_def stream_leaves(2) dest!: set_update_subset_insert [THEN subsetD])
next
  case (signal_ends p)
  with inv signal_views [OF signal_ends(3)] proc_inv_step [OF signal_ends(3)] show ?thesis
    by (auto simp: server_inv_def)
next
  case (passes d p)
  note v = pass_views [OF passes(3)]
  have "beat_inv (idle_by d b)" if "b \<in> set (sv_streams s)" for b
  proof (cases "bt_at b = Gone")
    case True
    with inv that show ?thesis by (auto simp: server_inv_def beat_inv_def idle_by_def)
  next
    case False
    with passes(4) inv that beat_inv_step [of b "Idle d" "idle_by d b"] show ?thesis by (simp add: server_inv_def)
  qed
  with inv v proc_inv_step [OF passes(3)] show ?thesis by (auto simp: server_inv_def passes(2))
next
  case (drained p)
  with inv proc_views [OF drained(3)] proc_inv_step [OF drained(3)] show ?thesis by (simp add: server_inv_def)
next
  case (drain_fails deadline x p)
  with inv proc_views [OF drain_fails(5)] proc_inv_step [OF drain_fails(5)] show ?thesis by (simp add: server_inv_def)
next
  case (main_does e p)
  with inv proc_views [OF main_does(3-5)] proc_inv_step [OF main_does(3)] show ?thesis by (simp add: server_inv_def)
qed

lemma server_init_inv: "Run_start interval now = Inr l \<Longrightarrow> server_inv checkTimeout (server_init l)"
  using proc_init_inv by (simp add: server_inv_def server_init_def proc_init_def)

interpretation http_server: invariant_system
    "\<lambda>s. \<exists>l. Run_start interval now = Inr l \<and> s = server_init l" "server_step checkTimeout poll" "server_inv checkTimeout"
  for interval now checkTimeout poll
  by unfold_locales (auto intro: server_init_inv server_inv_step)

section \<open>Draining without requests\<close>

text \<open>
  From a moment \<open>c\<close> of the shutdown at which no ordinary request is active: the clock
  stands while a stream has not left, and moves by less than a poll afterwards.
\<close>

definition only_streams :: "time \<Rightarrow> time \<Rightarrow> nat \<Rightarrow> server \<Rightarrow> bool" where
  "only_streams c deadline poll s \<longleftrightarrow>
     (case sv_main s of
        AtSelect \<Rightarrow> False
      | InShutdown dl \<Rightarrow> dl = deadline \<and> rn_ctx_done (pr_loop (sv_proc s)) \<and> sv_requests s = 0 \<and> sv_busy s \<le> c \<and>
          sv_clock s \<le> c + poll \<and> (active s \<longrightarrow> sv_clock s = c)
      | MainDone r tr \<Rightarrow> (\<forall>x. r \<noteq> Some (HttpShutdown x))
      | _ \<Rightarrow> True)"

lemma proc_outside:
  assumes "proc_step checkTimeout p e q" and "\<forall>x. e \<noteq> ShutdownReturns x" and "pr_main p \<noteq> AtSelect"
  shows "pr_main q = pr_main p \<or> (\<forall>dl. pr_main p \<noteq> InShutdown dl) \<and> pr_main q \<noteq> AtSelect \<and>
     (\<forall>dl. pr_main q \<noteq> InShutdown dl) \<and> (\<forall>x tr. pr_main q \<noteq> MainDone (Some (HttpShutdown x)) tr)"
  using assms by (cases rule: proc_step.cases) (auto simp: serve_failed_def split: option.splits serve_end.splits)

lemma only_streams_cong:
  assumes "only_streams c deadline poll s" and "sv_main t = sv_main s" and "sv_clock t = sv_clock s"
    and "rn_ctx_done (pr_loop (sv_proc t)) = rn_ctx_done (pr_loop (sv_proc s))"
    and "sv_requests t = sv_requests s" and "sv_busy t = sv_busy s" and "active t \<Longrightarrow> active s"
  shows "only_streams c deadline poll t"
  using assms by (cases "sv_main s") (auto simp: only_streams_def)

lemma active_update:
  assumes "active (s\<lparr>sv_streams := (sv_streams s)[i := b]\<rparr>)" and "i < length (sv_streams s)"
    and "bt_at b \<noteq> Gone \<Longrightarrow> bt_at (sv_streams s ! i) \<noteq> Gone"
  shows "active s"
proof (cases "0 < sv_requests s")
  case False
  then obtain x where "x \<in> set ((sv_streams s)[i := b])" "bt_at x \<noteq> Gone" using assms(1) by (auto simp: active_def)
  then have "x \<in> set (sv_streams s) \<or> x = b" using set_update_subset_insert by fast
  with \<open>bt_at x \<noteq> Gone\<close> assms(2,3) nth_mem show ?thesis by (fastforce simp: active_def)
qed (simp add: active_def)

lemma gone_stays: "beat_step b e c \<Longrightarrow> bt_at c \<noteq> Gone \<Longrightarrow> bt_at b \<noteq> Gone"
  by (cases rule: beat_step.cases) auto

lemma only_streams_step:
  assumes step: "server_step checkTimeout poll s e t" and inv: "server_inv checkTimeout s"
    and only: "only_streams c deadline poll s" and "c + poll < deadline"
  shows "only_streams c deadline poll t"
  using step
proof (cases rule: server_step.cases)
  case request_arrives
  with only show ?thesis by (simp add: only_streams_def)
next
  case (request_ends n)
  with only show ?thesis by (cases "sv_main s") (simp_all add: only_streams_def)
next
  case (stream_opens w b)
  with only show ?thesis by (simp add: only_streams_def)
next
  case (stream_does i e b)
  have "active t \<Longrightarrow> active s"
    using active_update [of s i b] stream_does gone_stays [OF stream_does(4)] by simp
  with stream_does only show ?thesis by (intro only_streams_cong [OF only]) simp_all
next
  case (stream_leaves i)
  have "active t \<Longrightarrow> active s" using active_update [of s i] stream_leaves by simp
  with stream_leaves only show ?thesis by (intro only_streams_cong [OF only]) simp_all
next
  case (signal_ends p)
  then have "sv_main s = AtSelect" by (auto simp: proc_step_iffs)
  with only show ?thesis by (simp add: only_streams_def)
next
  case (passes d p)
  note v = pass_views [OF passes(3)]
  have act: "active t \<longleftrightarrow> active s" by (simp add: active_def passes(2))
  show ?thesis
  proof (cases "\<exists>dl. sv_main s = InShutdown dl")
    case True
    then obtain dl where dl: "sv_main s = InShutdown dl" by blast
    have still: "d = 0" if "active s"
    proof -
      from that only dl obtain b where b: "b \<in> set (sv_streams s)" "bt_at b \<noteq> Gone"
        by (auto simp: active_def only_streams_def)
      with passes(4) have "beat_step b (Idle d) (idle_by d b)" by blast
      moreover have "bt_ctx_done b" using inv b(1) only dl by (auto simp: server_inv_def only_streams_def)
      ultimately show ?thesis by (simp add: beat_iffs case_ready_def)
    qed
    show ?thesis
      using only dl v still passes(2,5) act by (cases "active s") (auto simp: only_streams_def)
  next
    case False
    with only v show ?thesis by (cases "sv_main s") (auto simp: only_streams_def passes(2))
  qed
next
  case (drained p)
  then show ?thesis by (auto simp: only_streams_def proc_step_iffs)
next
  case (drain_fails dl x p)
  with only assms(4) show ?thesis by (simp add: only_streams_def)
next
  case (main_does e p)
  have "sv_main s \<noteq> AtSelect" using only by (auto simp: only_streams_def)
  from proc_outside [OF main_does(3,6) this] show ?thesis
  proof
    assume same: "pr_main p = sv_main s"
    with main_does(2) proc_views [OF main_does(3-5)] show ?thesis
      by (intro only_streams_cong [OF only]) (simp_all add: active_def)
  next
    assume "(\<forall>dl. sv_main s \<noteq> InShutdown dl) \<and> pr_main p \<noteq> AtSelect \<and> (\<forall>dl. pr_main p \<noteq> InShutdown dl) \<and>
       (\<forall>x tr. pr_main p \<noteq> MainDone (Some (HttpShutdown x)) tr)"
    then show ?thesis by (cases "pr_main p") (auto simp: only_streams_def main_does(2))
  qed
qed

lemma streams_can_leave:
  assumes "server_inv checkTimeout s" and "sv_main s = InShutdown deadline"
  shows "\<exists>fs u. run (server_step checkTimeout poll) s fs u \<and> sv_proc u = sv_proc s \<and> sv_requests u = sv_requests s \<and>
     (\<forall>b \<in> set (sv_streams u). bt_at b = Gone)"
  using assms
proof (induction "count_of (\<lambda>b. bt_at b \<noteq> Gone) (sv_streams s)" arbitrary: s rule: less_induct)
  case less
  show ?case
  proof (cases "\<exists>i < length (sv_streams s). bt_at (sv_streams s ! i) \<noteq> Gone")
    case False
    then show ?thesis by (intro exI [of _ "[]"] exI [of _ s]) (auto simp: in_set_conv_nth)
  next
    case True
    then obtain i where i: "i < length (sv_streams s)" "bt_at (sv_streams s ! i) \<noteq> Gone" by blast
    let ?b = "sv_streams s ! i"
    have ctx: "bt_ctx_done ?b"
      using less.prems i(1) by (auto simp: server_inv_def proc_inv_def main_ok_def)
    have "\<exists>es b. run (server_step checkTimeout poll) s es (s\<lparr>sv_streams := (sv_streams s)[i := b]\<rparr>) \<and> bt_at b = Gone"
    proof (cases "bt_at ?b = Leaving")
      case True
      with i(1) have "server_step checkTimeout poll s (StreamLeaves i) (s\<lparr>sv_streams := (sv_streams s)[i := ?b\<lparr>bt_at := Gone\<rparr>]\<rparr>)"
        by (rule server_step.stream_leaves)
      then show ?thesis by (intro exI [of _ "[StreamLeaves i]"] exI [of _ "?b\<lparr>bt_at := Gone\<rparr>"]) (simp add: run_single)
    next
      case False
      with i(2) have at: "bt_at ?b = Streaming" by (cases "bt_at ?b") simp_all
      let ?c = "?b\<lparr>bt_at := Leaving, bt_ticker := beat_ticker CtxDone Leaving (bt_ticker ?b)\<rparr>"
      let ?s = "s\<lparr>sv_streams := (sv_streams s)[i := ?c]\<rparr>"
      have "beat_step ?b (BeatTurn CtxDone) ?c" using at ctx by (simp add: beat_iffs HandleEvents_select_def)
      then have 1: "server_step checkTimeout poll s (StreamDoes i (BeatTurn CtxDone)) ?s"
        using i(1) by (intro server_step.stream_does) simp_all
      have "server_step checkTimeout poll ?s (StreamLeaves i) (s\<lparr>sv_streams := (sv_streams s)[i := ?c\<lparr>bt_at := Gone\<rparr>]\<rparr>)"
        using server_step.stream_leaves [of i ?s checkTimeout poll] i(1) by simp
      with 1 show ?thesis
        by (intro exI [of _ "[StreamDoes i (BeatTurn CtxDone), StreamLeaves i]"] exI [of _ "?c\<lparr>bt_at := Gone\<rparr>"])
          (auto simp: run_Cons_iff)
    qed
    then obtain es b where e: "run (server_step checkTimeout poll) s es (s\<lparr>sv_streams := (sv_streams s)[i := b]\<rparr>)"
      "bt_at b = Gone" by blast
    let ?t = "s\<lparr>sv_streams := (sv_streams s)[i := b]\<rparr>"
    have "count_of (\<lambda>b. bt_at b \<noteq> Gone) (sv_streams ?t) < count_of (\<lambda>b. bt_at b \<noteq> Gone) (sv_streams s)"
      using count_of_update [OF i(1), of "\<lambda>b. bt_at b \<noteq> Gone" b] i(2) e(2) by simp
    from less.hyps [OF this] http_server.inv_run [OF e(1) less.prems(1)] less.prems(2)
    obtain fs u where "run (server_step checkTimeout poll) ?t fs u" "sv_proc u = sv_proc s" "sv_requests u = sv_requests s"
      "\<forall>b \<in> set (sv_streams u). bt_at b = Gone" by auto
    with run_append [OF e(1)] show ?thesis by blast
  qed
qed

section \<open>Properties\<close>



end
