(* ===== verification/Targetsrv.thy ===== *)
theory Targetsrv
  imports Server
begin

text \<open>
  \<open>main\<close> of \<open>cmd/targetsrv/main.go\<close>, the upstream of the load test, with what it uses of
  package \<open>flag\<close>: one string flag, parsed with \<open>ExitOnError\<close>. Its handler is in \<open>Server\<close>.
\<close>

section \<open>A command line with one string flag\<close>

datatype flag_err = BadFlagSyntax string | FlagNotDefined string | FlagNeedsArgument string | FlagHelp

text \<open>The name of a flag and the value after its \<open>=\<close>; \<open>None\<close>: the argument is not a flag.\<close>

definition flag_of :: "string \<Rightarrow> (flag_err + (string \<times> string option)) option" where
  "flag_of s =
     (if length s < 2 \<or> hd s \<noteq> CHR ''-'' then None
      else (let body = (if s ! 1 = CHR ''-'' then drop 2 s else drop 1 s) in
        if body = [] \<or> hd body = CHR ''-'' \<or> hd body = CHR ''='' then Some (Inl (BadFlagSyntax s))
        else Some (Inr (takeWhile (\<lambda>c. c \<noteq> CHR ''='') body,
               if CHR ''='' \<in> set body then Some (tl (dropWhile (\<lambda>c. c \<noteq> CHR ''='') body)) else None))))"

fun flag_Parse :: "string \<Rightarrow> string \<Rightarrow> string list \<Rightarrow> flag_err + string \<times> string list" where
  "flag_Parse name v [] = Inr (v, [])"
| "flag_Parse name v (s # args) =
     (if s = ''--'' then Inr (v, args)
      else case flag_of s of
        None \<Rightarrow> Inr (v, s # args)
      | Some (Inl e) \<Rightarrow> Inl e
      | Some (Inr (key, given)) \<Rightarrow>
          (if key \<noteq> name then Inl (if key = ''help'' \<or> key = ''h'' then FlagHelp else FlagNotDefined key)
           else case given of
             Some x \<Rightarrow> flag_Parse name x args
           | None \<Rightarrow> (case args of [] \<Rightarrow> Inl (FlagNeedsArgument key) | x # rest \<Rightarrow> flag_Parse name x rest)))"

section \<open>The program\<close>

text \<open>
  The address it listens on, if it gets so far, and the exit status once \<open>ListenAndServe\<close>
  has returned: \<open>main\<close> only logs that error.
\<close>

definition targetsrv_main :: "string list \<Rightarrow> string option \<times> nat" where
  "targetsrv_main args =
     (case flag_Parse ''addr'' '':8099'' args of
        Inl FlagHelp \<Rightarrow> (None, 0)
      | Inl _ \<Rightarrow> (None, 2)
      | Inr (addr, _) \<Rightarrow> (Some addr, 0))"

text \<open>All four forms of the flag set the address, and the last one counts.\<close>

lemma targetsrv_listens:
  "targetsrv_main [] = (Some '':8099'', 0)"
  "fst (targetsrv_main [''-addr='' @ x]) = Some x" "fst (targetsrv_main [''--addr='' @ x]) = Some x"
  "fst (targetsrv_main [''-addr'', x]) = Some x" "fst (targetsrv_main [''--addr'', y, ''-addr='' @ x]) = Some x"
  by (simp_all add: targetsrv_main_def flag_of_def)

text \<open>Whatever it is asked, it answers \<open>ok\<close> with status 200.\<close>

lemma targetsrv_answers: "final_status (targetsrv_handler new_response) = StatusOK \<and> rw_body (targetsrv_handler new_response) = ''ok''"
  by (simp add: targetsrv_handler_def final_status_def)

end
