(* ===== verification/Limited_Checks.thy ===== *)
theory Limited_Checks
  imports Bucket_Rate Manager_Props Pool_Props
begin

text \<open>
  The worker pool together with the rate limiter it waits for: rounds of \<open>Check\<close>
  over one manager, with the buckets' tickers, their refill goroutines and the
  clock. In \<open>Pool_System\<close> the answer of the limiter is an argument; here it is what
  \<open>Manager.Wait\<close> returns. The counters \<open>lk_granted\<close> and \<open>lk_sent\<close> are history: how
  many waits for a key have returned without error, and how many requests have
  been handed to the HTTP client for a domain.
\<close>

section \<open>The combined system\<close>

record live_checks =
  lk_check :: check_sys
  lk_limiter :: manager
  lk_clock :: time
  lk_granted :: "string \<Rightarrow> nat"
  lk_sent :: "string \<Rightarrow> nat"

definition bump :: "string \<Rightarrow> (string \<Rightarrow> nat) \<Rightarrow> string \<Rightarrow> nat" where
  "bump d f = f(d := Suc (f d))"

text \<open>The host a target is limited by, and the request a step of a goroutine starts.\<close>

definition host_of :: "target \<Rightarrow> string" where
  "host_of t = (case domainOf (URL t) of Inl _ \<Rightarrow> [] | Inr d \<Rightarrow> d)"

fun starts_request :: "check_sys \<Rightarrow> pevent \<Rightarrow> string option" where
  "starts_request c (BuildReq i) =
     (case pc_at c i of InRequest _ \<Rightarrow> Some (host_of (cs_targets c ! i)) | _ \<Rightarrow> None)"
| "starts_request c _ = None"

definition note_request :: "string option \<Rightarrow> (string \<Rightarrow> nat) \<Rightarrow> string \<Rightarrow> nat" where
  "note_request d f = (case d of None \<Rightarrow> f | Some k \<Rightarrow> bump k f)"

datatype live_event =
    LTime nat
  | LFire string
  | LRefill string refill_case
  | LWait nat "ctx_err option" wait_case
  | LCheck pevent
  | LRound
  | LClose "string list"

inductive lstep :: "live_checks \<Rightarrow> live_event \<Rightarrow> live_checks \<Rightarrow> bool" where
  l_time: "lstep x (LTime n) (x\<lparr>lk_clock := lk_clock x + n\<rparr>)"
| l_fire: "buckets (lk_limiter x) k = Some a \<Longrightarrow> fire_at (lk_limiter x) a (lk_clock x) = Some m \<Longrightarrow>
     lstep x (LFire k) (x\<lparr>lk_limiter := m\<rparr>)"
| l_refill: "buckets (lk_limiter x) k = Some a \<Longrightarrow> refill_at (lk_limiter x) a c = Some m \<Longrightarrow>
     lstep x (LRefill k c) (x\<lparr>lk_limiter := m\<rparr>)"
| l_blocks: "i < length (cs_pc (lk_check x)) \<Longrightarrow> pc_at (lk_check x) i = InLimiter now k \<Longrightarrow>
     Manager_Wait (lk_limiter x) ctx k (lk_clock x) c = Inr (m, None) \<Longrightarrow>
     lstep x (LWait i ctx c) (x\<lparr>lk_limiter := m\<rparr>)"
| l_returns: "i < length (cs_pc (lk_check x)) \<Longrightarrow> pc_at (lk_check x) i = InLimiter now k \<Longrightarrow>
     Manager_Wait (lk_limiter x) ctx k (lk_clock x) c = Inr (m, Some r) \<Longrightarrow>
     pstep (lk_check x) (LimiterReturns i r) s \<Longrightarrow>
     lstep x (LWait i ctx c)
       (x\<lparr>lk_limiter := m, lk_check := s,
          lk_granted := if r = None then bump k (lk_granted x) else lk_granted x\<rparr>)"
| l_check: "pstep (lk_check x) e s \<Longrightarrow> (\<forall>i r. e \<noteq> LimiterReturns i r) \<Longrightarrow>
     lstep x (LCheck e) (x\<lparr>lk_check := s, lk_sent := note_request (starts_request s e) (lk_sent x)\<rparr>)"
| l_round: "Check_done (lk_check x) \<Longrightarrow> Check_init (cs_pool (lk_check x)) ts s \<Longrightarrow>
     lstep x LRound (x\<lparr>lk_check := s\<rparr>)"
| l_close: "Manager_Close order (lk_limiter x) = Inr m \<Longrightarrow>
     lstep x (LClose order) (x\<lparr>lk_limiter := m\<rparr>)"

inductive_cases lstep_cases: "lstep x e y"

definition live_init :: "pool \<Rightarrow> i64 \<Rightarrow> time \<Rightarrow> live_checks \<Rightarrow> bool" where
  "live_init p rps t0 x \<longleftrightarrow> (\<exists>ts. Check_init p ts (lk_check x)) \<and> lk_limiter x = NewManager rps \<and>
     lk_clock x = t0 \<and> lk_granted x = (\<lambda>_. 0) \<and> lk_sent x = (\<lambda>_. 0)"

section \<open>Tokens in hand\<close>

text \<open>
  A goroutine between its wait and its request holds a token it has been granted.
  Each such goroutine has taken a slot of the semaphore.
\<close>

definition building :: "string \<Rightarrow> target \<times> goroutine \<Rightarrow> bool" where
  "building d = (\<lambda>(t, g). stage_of g = Preparing \<and> host_of t = d)"

definition building_for :: "string \<Rightarrow> check_sys \<Rightarrow> nat" where
  "building_for d c = count_of (building d) (zip (cs_targets c) (cs_pc c))"

lemma building_for_update:
  assumes "i < length (cs_pc c)" and "length (cs_targets c) = length (cs_pc c)"
    and "cs_pc c' = (cs_pc c)[i := g]" and "cs_targets c' = cs_targets c"
  shows "building_for d c' + bit (building d (cs_targets c ! i, pc_at c i)) =
     building_for d c + bit (building d (cs_targets c ! i, g))"
proof -
  have "zip (cs_targets c') (cs_pc c') = (zip (cs_targets c) (cs_pc c))[i := (cs_targets c ! i, g)]"
    using zip_update [of "cs_targets c" i "cs_targets c ! i" "cs_pc c" g] assms by simp
  with count_of_update [of i "zip (cs_targets c) (cs_pc c)" "building d" "(cs_targets c ! i, g)"] assms(1,2)
  show ?thesis by (simp add: building_for_def)
qed

lemma building_for_le: "building_for d c \<le> count_of holds_slot (cs_pc c)"
proof -
  have "count_of (building d) (zip ts gs) \<le> count_of holds_slot gs" for ts gs
  proof (induction gs arbitrary: ts)
    case (Cons g gs)
    show ?case
    proof (cases ts)
      case (Cons t ts')
      have "building d (t, g) \<Longrightarrow> holds_slot g"
        by (simp add: building_def holds_slot_def less_eq_stage_def)
      with Cons Cons.IH [of ts'] show ?thesis by auto
    qed simp
  qed simp
  then show ?thesis by (simp add: building_for_def)
qed

lemma host_of_domain: "checkOne_domain t now = Inr k \<Longrightarrow> host_of t = k"
  by (auto simp: checkOne_domain_def host_of_def split: sum.splits)

lemma building_wait:
  assumes "pstep c (LimiterReturns i r) c'" and inv: "check_inv p ts c" and "pc_at c i = InLimiter now k"
  shows "building_for d c' = building_for d c + (if r = None \<and> d = k then 1 else 0)"
proof -
  from assms(1,3) have i: "i < length (cs_pc c)" and c': "c' = set_pc i (after_wait (cs_targets c ! i) now r) c"
    by (auto elim: pstep.cases)
  note g = check_inv_gor(1) [OF inv i]
  have host: "host_of (cs_targets c ! i) = k"
    using g inv assms(3) host_of_domain by (auto simp: check_inv_def)
  have "length (cs_targets c) = length (cs_pc c)" using inv by (simp add: check_inv_def)
  from building_for_update [OF i this, of c' _ d] host assms(3) show ?thesis
    by (auto simp: c' set_pc_def building_def after_wait_def checkOne_waited_def split: option.splits)
qed

lemma building_same:
  assumes "i < length (cs_pc c)" and "length (cs_targets c) = length (cs_pc c)"
    and "cs_pc c' = (cs_pc c)[i := g]" and "cs_targets c' = cs_targets c"
    and "stage_of (pc_at c i) \<noteq> Preparing" and "stage_of g \<noteq> Preparing"
  shows "building_for d c' = building_for d c"
  using building_for_update [OF assms(1-4), of d] assms(5,6) by (simp add: building_def)

lemma building_other:
  assumes step: "pstep c e c'" and inv: "check_inv p ts c" and "pl_limiter p"
    and no: "\<forall>i r. e \<noteq> LimiterReturns i r"
  shows "building_for d c' + (if starts_request c' e = Some d then 1 else 0) = building_for d c"
proof -
  have len: "length (cs_targets c) = length (cs_pc c)" using inv by (simp add: check_inv_def)
  note same = building_same [OF _ len] and moves = set_pc_def set_sem_def write_result_def call_metrics_views
  from step show ?thesis
  proof (cases rule: pstep.cases)
    case (domain i now)
    have "stage_of (after_domain True t now) \<noteq> Preparing" for t
      by (simp add: after_domain_def split: sum.split)
    with domain same [of i c'] assms(3) check_inv_flags [OF inv] show ?thesis
      by (simp add: set_pc_def)
  next
    case (build i now)
    note g = check_inv_gor [OF inv build(3)]
    have "after_build (cs_targets c ! i) now = InRequest now"
      using after_build_eq g build(4) by metis
    with build building_for_update [OF build(3) len, of c' "InRequest now" d] show ?thesis
      by (simp add: set_pc_def building_def)
  next
    case (ctx_ends err)
    then show ?thesis by (simp add: building_for_def)
  next
    case (limiter_returns i now k answer)
    with no show ?thesis by simp
  next
    case (acquire i q)
    with same [of i c' "Acquired"] show ?thesis by (simp add: moves)
  next
    case (skip_check i err now)
    with same [of i c' "Skipped"] show ?thesis by (simp add: moves)
  next
    case (start i)
    with same [of i c' "Started"] show ?thesis by (simp add: moves)
  next
    case (request_returns i now elapsed answer)
    with same [of i c' "Checked (checkOne_done (cs_targets c ! i) now elapsed answer)"] show ?thesis by (simp add: moves)
  next
    case (finish i r)
    with same [of i c' "Reported r"] show ?thesis by (simp add: moves)
  next
    case (store_result i r)
    with same [of i c' "Written r"] show ?thesis by (simp add: moves)
  next
    case (release i r q)
    with same [of i c' "Released r"] show ?thesis by (simp add: moves)
  next
    case (wg_done_ran i r)
    with same [of i c' "Finished (Some r)"] show ?thesis by (simp add: moves)
  next
    case (wg_done_skipped i)
    with same [of i c' "Finished None"] show ?thesis by (simp add: moves)
  qed
qed

section \<open>What a step does to the bucket of a key\<close>

lemma bucket_at_close_keys:
  assumes "manager_ok m"
  shows "bucket_at (close_keys K m) d =
     (if d \<in> K then map_option closed_bucket (bucket_at m d) else bucket_at m d)"
proof (cases "buckets m d")
  case None
  then show ?thesis by (simp add: bucket_at_def)
next
  case (Some a)
  have "a \<in> ran (buckets m |` K) \<longleftrightarrow> (\<exists>k \<in> K. buckets m k = Some a)"
    unfolding ran_def restrict_map_def by auto
  also have "\<dots> \<longleftrightarrow> d \<in> K"
    using Some manager_ok_inj [OF assms Some] by blast
  finally have "a \<in> ran (buckets m |` K) \<longleftrightarrow> d \<in> K" .
  with Some show ?thesis by (simp add: bucket_at_def close_keys_def)
qed

lemma bucket_at_key: "buckets m k = Some a \<Longrightarrow> bucket_at m k = bucket_store m a"
  by (simp add: bucket_at_def)

lemma bucket_at_None_iff: "manager_ok m \<Longrightarrow> bucket_at m k = None \<longleftrightarrow> buckets m k = None"
  using manager_ok_key(2) [of m k] by (cases "buckets m k") (auto simp: bucket_at_def)

lemma fire_key:
  assumes "manager_ok m" and "buckets m k = Some a" and "fire_at m a now = Some m'"
  obtains b where "bucket_at m k = Some b" and "ticker_due (refill_ticker b) now"
    and "bucket_at m' k = Some (b\<lparr>refill_ticker := ticker_fire (refill_ticker b) now\<rparr>)"
  using assms by (auto simp: fire_at_def bucket_at_key bucket_at_store split: option.splits if_splits)

lemma refill_key:
  assumes "manager_ok m" and "buckets m k = Some a" and "refill_at m a c = Some m'"
  obtains b b' where "bucket_at m k = Some b" and "Bucket_refill b c = Some b'" and "bucket_at m' k = Some b'"
  using assms by (auto simp: refill_at_def bucket_at_key bucket_at_store split: option.splits)

lemma wait_blocks_key:
  assumes "Manager_Wait m ctx k now c = Inr (m', None)"
  obtains a where "Manager_bucketFor m k now = Inr (m', a)"
  using assms by (auto simp: Manager_Wait_def split: sum.splits option.splits)

lemma wait_returns_key:
  assumes "manager_ok m" and "Manager_Wait m ctx k now c = Inr (m', Some r)"
  obtains m1 a b b' where "Manager_bucketFor m k now = Inr (m1, a)" and "bucket_at m1 k = Some b"
    and "Bucket_Wait b ctx c = Some (b', r)" and "bucket_at m' k = Some b'"
    and "\<And>d. d \<noteq> k \<Longrightarrow> bucket_at m' d = bucket_at m1 d"
    and "manager_ok m'" and "ratePerSecond m' = ratePerSecond m"
proof -
  from assms(2) obtain m1 a where m1: "Manager_bucketFor m k now = Inr (m1, a)"
    and w: "wait_at m1 a ctx c = Some (m', r)"
    by (auto simp: Manager_Wait_def split: sum.splits option.splits)
  note sp = bucketFor_spec [OF assms(1) m1]
  from w obtain b b' where b: "bucket_store m1 a = Some b" "Bucket_Wait b ctx c = Some (b', r)"
    and m': "m' = m1\<lparr>bucket_store := (bucket_store m1)(a \<mapsto> b')\<rparr>"
    by (auto simp: wait_at_def split: option.splits)
  note rp = replaces_spec [OF sp(1) wait_at_replaces [OF sp(1,2) w]]
  show thesis
    by (rule that [OF m1 _ b(2)]) (use b sp(1-3) rp(1,3) in \<open>simp_all add: m' bucket_at_key bucket_at_store\<close>)
qed

lemma fresh_bucket:
  assumes "manager_ok m" and "Manager_bucketFor m k now = Inr (m1, a)" and "bucket_at m d = None"
    and "bucket_at m1 d = Some b"
  shows "d = k \<and> NewBucket (ratePerSecond m) now = Inr b"
proof -
  have dk: "d = k"
  proof (rule ccontr)
    assume "d \<noteq> k"
    with bucketFor_spec(5) [OF assms(1,2), of d] assms(3,4) show False by simp
  qed
  with bucket_at_None_iff [OF assms(1), of k] assms(3) have "buckets m k = None" by simp
  from bucketFor_fresh [OF assms(1) this assms(2)] obtain b' where
    b': "NewBucket (ratePerSecond m) now = Inr b'" and
    m1: "m1 = m\<lparr>buckets := (buckets m)(k \<mapsto> a), bucket_store := (bucket_store m)(a \<mapsto> b'),
           next_address := Suc a\<rparr>" .
  have "bucket_at m1 k = Some b'" by (simp add: m1 bucket_at_def)
  with assms(4) dk b' show ?thesis by simp
qed

lemma bucketFor_keeps:
  assumes "manager_ok m" and "Manager_bucketFor m k now = Inr (m1, a)" and "bucket_at m d \<noteq> None"
  shows "bucket_at m1 d = bucket_at m d"
proof (cases "d = k")
  case True
  with assms(3) have "buckets m k \<noteq> None" using bucket_at_None_iff [OF assms(1)] by simp
  with bucketFor_spec(6) [OF assms(1,2)] show ?thesis by simp
qed (use bucketFor_spec(5) [OF assms(1,2)] in simp)

section \<open>The invariant\<close>

definition accounted :: "(string \<Rightarrow> nat) \<Rightarrow> (string \<Rightarrow> nat) \<Rightarrow> check_sys \<Rightarrow> bool" where
  "accounted g n c \<longleftrightarrow> (\<forall>d. g d = n d + building_for d c)"

definition live_inv :: "pool \<Rightarrow> i64 \<Rightarrow> live_checks \<Rightarrow> bool" where
  "live_inv p rps x \<longleftrightarrow> pool_idle p \<and> pl_limiter p \<and>
     check_inv p (cs_targets (lk_check x)) (lk_check x) \<and>
     manager_ok (lk_limiter x) \<and> ratePerSecond (lk_limiter x) = rps \<and>
     accounted (lk_granted x) (lk_sent x) (lk_check x) \<and>
     (\<forall>d. bucket_at (lk_limiter x) d = None \<longrightarrow> lk_granted x d = 0)"

lemma building_fresh: "Check_init p ts s \<Longrightarrow> building_for d s = 0"
  by (auto simp: Check_init_def building_for_def building_def count_of_zero dest: set_zip_rightD)

lemma building_done: "Check_done s \<Longrightarrow> building_for d s = 0"
  unfolding Check_done_def building_for_def building_def count_of_zero
  by (auto dest!: set_zip_rightD)

lemma live_init_inv:
  assumes "live_init p rps t0 x" and "pool_idle p" and "pl_limiter p"
  shows "live_inv p rps x"
proof -
  from assms(1) obtain ts where c: "Check_init p ts (lk_check x)" and
    x: "lk_limiter x = NewManager rps" "lk_granted x = (\<lambda>_. 0)" "lk_sent x = (\<lambda>_. 0)"
    by (auto simp: live_init_def)
  have "cs_targets (lk_check x) = ts" using c by (simp add: Check_init_def)
  with check_inv_init [OF c assms(2)] building_fresh [OF c] assms(2,3) x show ?thesis
    by (simp add: live_inv_def accounted_def) (simp add: NewManager_def)
qed

lemma idle_again:
  assumes "check_inv p ts s" and "Check_done s" and "pool_idle p"
  shows "cs_pool s = p"
proof -
  have "count_of holds_slot (cs_pc s) = 0"
    using assms(2) by (auto simp: Check_done_def count_of_zero)
  with check_inv_sem [OF assms(1)] have "ch_buf (sem (cs_pool s)) = []" by simp
  with check_inv_sem(2,3) [OF assms(1)] assms(3) have "sem (cs_pool s) = sem p"
    by (simp add: pool_idle_def)
  with check_inv_sem(1) [OF assms(1)] show ?thesis by (metis pool.surjective pool.update_convs(6))
qed

lemma live_inv_limiter:
  assumes "live_inv p rps x" and "manager_ok m" and "ratePerSecond m = rps"
    and "\<And>d. bucket_at (lk_limiter x) d \<noteq> None \<Longrightarrow> bucket_at m d \<noteq> None"
  shows "live_inv p rps (x\<lparr>lk_limiter := m\<rparr>)"
proof -
  have "lk_granted x d = 0" if "bucket_at m d = None" for d
  proof (cases "bucket_at (lk_limiter x) d")
    case None
    with assms(1) show ?thesis by (simp add: live_inv_def)
  next
    case (Some b)
    with assms(4) [of d] that show ?thesis by simp
  qed
  with assms(1-3) show ?thesis by (simp add: live_inv_def)
qed

lemma live_inv_manager: "live_inv p rps x \<Longrightarrow> manager_ok (lk_limiter x) \<and> ratePerSecond (lk_limiter x) = rps"
  by (simp add: live_inv_def)

lemma live_inv_replaced:
  assumes "live_inv p rps x" and "replaces (lk_limiter x) k m"
  shows "live_inv p rps (x\<lparr>lk_limiter := m\<rparr>)"
proof -
  have ok: "manager_ok (lk_limiter x)" "ratePerSecond (lk_limiter x) = rps"
    using assms(1) by (simp_all add: live_inv_def)
  note rp = replaces_spec [OF ok(1) assms(2)]
  show ?thesis
  proof (rule live_inv_limiter [OF assms(1)])
    show "bucket_at m d \<noteq> None" if "bucket_at (lk_limiter x) d \<noteq> None" for d
      using that rp(4) [of d] rp(5) by (cases "d = k") simp_all
  qed (use rp ok in simp_all)
qed

lemma live_inv_looked_up:
  assumes "live_inv p rps x" and "Manager_bucketFor (lk_limiter x) k now = Inr (m, a)"
  shows "live_inv p rps (x\<lparr>lk_limiter := m\<rparr>)"
proof -
  have ok: "manager_ok (lk_limiter x)" "ratePerSecond (lk_limiter x) = rps"
    using assms(1) by (simp_all add: live_inv_def)
  note sp = bucketFor_spec [OF ok(1) assms(2)]
  show ?thesis
    by (rule live_inv_limiter [OF assms(1) sp(1)])
      (simp_all add: sp(3) ok(2) bucketFor_keeps [OF ok(1) assms(2)])
qed

lemma live_inv_step:
  assumes step: "lstep x e y" and inv: "live_inv p rps x"
  shows "live_inv p rps y"
  using step
proof (cases rule: lstep.cases)
  case (l_time n)
  with inv show ?thesis by (simp add: live_inv_def)
next
  case (l_fire k a m)
  have "replaces (lk_limiter x) k m"
    using fire_at_replaces l_fire(3,4) live_inv_manager [OF inv] by blast
  from live_inv_replaced [OF inv this] show ?thesis by (simp add: l_fire(2))
next
  case (l_refill k a c m)
  have "replaces (lk_limiter x) k m"
    using refill_at_replaces l_refill(3,4) live_inv_manager [OF inv] by blast
  from live_inv_replaced [OF inv this] show ?thesis by (simp add: l_refill(2))
next
  case (l_blocks i now k ctx c m)
  from wait_blocks_key [OF l_blocks(5)] obtain a where
    "Manager_bucketFor (lk_limiter x) k (lk_clock x) = Inr (m, a)" .
  with l_blocks live_inv_looked_up [OF inv] show ?thesis by simp
next
  case (l_returns i now k ctx c m r s)
  have ok: "manager_ok (lk_limiter x)" using inv by (simp add: live_inv_def)
  from wait_returns_key [OF ok l_returns(5)] obtain m1 a b b' where
    m1: "Manager_bucketFor (lk_limiter x) k (lk_clock x) = Inr (m1, a)" and
    m: "bucket_at m k = Some b'" "\<And>d. d \<noteq> k \<Longrightarrow> bucket_at m d = bucket_at m1 d" "manager_ok m"
      "ratePerSecond m = ratePerSecond (lk_limiter x)" by metis
  note inv1 = live_inv_looked_up [OF inv m1]
  from inv have ci: "check_inv p (cs_targets (lk_check x)) (lk_check x)" by (simp add: live_inv_def)
  note ci' = check_inv_step [OF l_returns(6) ci]
  then have ts: "cs_targets s = cs_targets (lk_check x)" by (simp add: check_inv_def)
  note bw = building_wait [OF l_returns(6) ci l_returns(4)]
  have zero: "lk_granted y d = 0" if "bucket_at m d = None" for d
    using that m(1,2) inv1 l_returns(2) by (cases "d = k") (auto simp: live_inv_def bump_def)
  show ?thesis
    using inv m(3,4) ci' bw zero by (simp add: live_inv_def accounted_def l_returns(2) ts bump_def)
next
  case (l_check e s)
  from inv have ci: "check_inv p (cs_targets (lk_check x)) (lk_check x)" and l: "pl_limiter p"
    by (simp_all add: live_inv_def)
  note ci' = check_inv_step [OF l_check(3) ci]
  then have ts: "cs_targets s = cs_targets (lk_check x)" by (simp add: check_inv_def)
  have "lk_sent y d + building_for d s = lk_sent x d + building_for d (lk_check x)" for d
    using building_other [OF l_check(3) ci l l_check(4), of d]
    by (auto simp: l_check(2) note_request_def bump_def split: option.splits)
  then have "accounted (lk_granted x) (lk_sent y) s \<longleftrightarrow> accounted (lk_granted x) (lk_sent x) (lk_check x)"
    by (simp add: accounted_def)
  with inv ci' show ?thesis by (simp add: live_inv_def l_check(2) ts)
next
  case (l_round ts s)
  from inv have ci: "check_inv p (cs_targets (lk_check x)) (lk_check x)" and idle: "pool_idle p"
    by (simp_all add: live_inv_def)
  have s: "Check_init p ts s" using l_round(4) idle_again [OF ci l_round(3) idle] by simp
  then have "cs_targets s = ts" by (simp add: Check_init_def)
  moreover have "accounted g n s \<longleftrightarrow> accounted g n (lk_check x)" for g n
    by (simp add: accounted_def building_fresh [OF s] building_done [OF l_round(3)])
  ultimately show ?thesis
    using check_inv_init [OF s idle] inv by (simp add: live_inv_def l_round(2))
next
  case (l_close order m)
  have ok: "manager_ok (lk_limiter x)" using inv by (simp add: live_inv_def)
  have m: "m = close_keys (set order) (lk_limiter x)"
    using l_close(3) close_each_eq [OF ok] by (simp add: Manager_Close_def)
  show ?thesis unfolding l_close(2)
    using inv close_keys_ok [OF ok, of "set order"]
    by (intro live_inv_limiter [OF inv]) (simp_all add: m bucket_at_close_keys [OF ok] live_inv_def)
qed

interpretation live_system: invariant_system
  "\<lambda>x. live_init p rps t0 x \<and> pool_idle p \<and> pl_limiter p" lstep "live_inv p rps" for p rps t0
  by unfold_locales (auto intro: live_init_inv live_inv_step)

end
