(* ===== verification/Limited_Rate.thy ===== *)
theory Limited_Rate
  imports Limited_Checks
begin

text \<open>
  How many requests one domain receives: the bucket of a domain is followed
  through the combined system of pool and limiter, so that what \<open>Bucket_Rate\<close>
  proves of one bucket carries over to the requests of all rounds.
\<close>

section \<open>Following one bucket through the system\<close>

text \<open>
  A state of the bucket system follows the bucket of a domain. Caller 0 stands
  for whichever goroutine waits next; it is never left inside a call.
\<close>

definition follows_key :: "string \<Rightarrow> live_checks \<Rightarrow> bsys \<Rightarrow> bool" where
  "follows_key d x s \<longleftrightarrow> bucket_at (lk_limiter x) d = Some (bk s) \<and> clock s = lk_clock x \<and>
     granted s = lk_granted x d \<and> waiter_of s 0 \<noteq> InWait"

lemma follows_stutter:
  assumes "follows_key d x s" and "bucket_at (lk_limiter y) d = bucket_at (lk_limiter x) d"
    and "lk_clock y = lk_clock x" and "lk_granted y d = lk_granted x d"
  shows "\<exists>es t. run bstep s es t \<and> follows_key d y t"
  using assms by (intro exI [of _ "[]"] exI [of _ s]) (simp add: follows_key_def)

lemma follows_step:
  assumes "bstep s e t" and "follows_key d y t"
  shows "\<exists>es t. run bstep s es t \<and> follows_key d y t"
  using assms by (blast intro: run_single)

text \<open>A wait that returns is a call and its return in the bucket system.\<close>

lemma follows_wait:
  assumes "follows_key d x s" and "Bucket_Wait (bk s) ctx c = Some (b', r)"
    and "bucket_at (lk_limiter y) d = Some b'" and "lk_clock y = lk_clock x"
    and "lk_granted y d = lk_granted x d + (if r = None then 1 else 0)"
  shows "\<exists>es t. run bstep s es t \<and> follows_key d y t"
proof -
  let ?u = "s\<lparr>waiter_of := (waiter_of s)(0 := InWait), ctx_of := (ctx_of s)(0 := ctx)\<rparr>"
  let ?t = "?u\<lparr>bk := b', waiter_of := (waiter_of ?u)(0 := Returned r),
      granted := granted ?u + (if r = None then 1 else 0)\<rparr>"
  have "bstep s (EnterWait 0 ctx) ?u" using assms(1) by (simp add: bstep_enter_iff follows_key_def)
  moreover have "bstep ?u (WaitStep 0 c) ?t" by (rule bstep.wait) (simp_all add: assms(2))
  ultimately have "run bstep s [EnterWait 0 ctx, WaitStep 0 c] ?t" by (auto simp: run_Cons_iff)
  moreover have "follows_key d y ?t" using assms by (simp add: follows_key_def)
  ultimately show ?thesis by blast
qed

lemma follows_forward:
  assumes step: "lstep x e y" and inv: "live_inv p rps x" and f: "follows_key d x s"
  shows "\<exists>es t. run bstep s es t \<and> follows_key d y t"
  using step
proof (cases rule: lstep.cases)
  case (l_time n)
  have "bstep s (Advance n) (s\<lparr>clock := clock s + n\<rparr>)" by simp
  then show ?thesis by (rule follows_step) (use f l_time in \<open>simp add: follows_key_def\<close>)
next
  case (l_fire k a m)
  note ok = live_inv_manager [OF inv, THEN conjunct1]
  show ?thesis
  proof (cases "d = k")
    case True
    from fire_key [OF ok l_fire(3,4)] obtain b where b: "bucket_at (lk_limiter x) k = Some b"
      "ticker_due (refill_ticker b) (lk_clock x)"
      "bucket_at m k = Some (b\<lparr>refill_ticker := ticker_fire (refill_ticker b) (lk_clock x)\<rparr>)" .
    let ?t = "s\<lparr>bk := (bk s)\<lparr>refill_ticker := ticker_fire (refill_ticker (bk s)) (clock s)\<rparr>, fired := Suc (fired s)\<rparr>"
    have "bstep s Fire ?t" using f b True by (intro bstep.fire) (simp add: follows_key_def)
    then show ?thesis by (rule follows_step) (use f b True l_fire in \<open>simp add: follows_key_def\<close>)
  next
    case False
    with replaces_spec(4) [OF ok fire_at_replaces [OF ok l_fire(3,4)], of d] f l_fire(2) show ?thesis
      by (intro follows_stutter [OF f]) simp_all
  qed
next
  case (l_refill k a c m)
  note ok = live_inv_manager [OF inv, THEN conjunct1]
  show ?thesis
  proof (cases "d = k")
    case True
    from refill_key [OF ok l_refill(3,4)] obtain b b' where b: "bucket_at (lk_limiter x) k = Some b"
      "Bucket_refill b c = Some b'" "bucket_at m k = Some b'" .
    have "bstep s (Refill c) (s\<lparr>bk := b'\<rparr>)" using f b True by (intro bstep.refill) (simp add: follows_key_def)
    then show ?thesis by (rule follows_step) (use f b True l_refill in \<open>simp add: follows_key_def\<close>)
  next
    case False
    with replaces_spec(4) [OF ok refill_at_replaces [OF ok l_refill(3,4)], of d] l_refill(2) show ?thesis
      by (intro follows_stutter [OF f]) simp_all
  qed
next
  case (l_blocks i now k ctx c m)
  from wait_blocks_key [OF l_blocks(5)] obtain a where
    "Manager_bucketFor (lk_limiter x) k (lk_clock x) = Inr (m, a)" .
  with bucketFor_keeps [of "lk_limiter x" k _ m a d] live_inv_manager [OF inv] f show ?thesis
    by (intro follows_stutter [OF f]) (simp_all add: l_blocks(2) follows_key_def)
next
  case (l_returns i now k ctx c m r u)
  note ok = live_inv_manager [OF inv, THEN conjunct1]
  from wait_returns_key [OF ok l_returns(5)] obtain m1 a b b' where
    m1: "Manager_bucketFor (lk_limiter x) k (lk_clock x) = Inr (m1, a)" "bucket_at m1 k = Some b"
      "Bucket_Wait b ctx c = Some (b', r)" and
    m: "bucket_at m k = Some b'" "\<And>d. d \<noteq> k \<Longrightarrow> bucket_at m d = bucket_at m1 d" by metis
  have same: "bucket_at m1 d = bucket_at (lk_limiter x) d"
    using bucketFor_keeps [OF ok m1(1), of d] f by (simp add: follows_key_def)
  show ?thesis
  proof (cases "d = k")
    case True
    with m1 same f have "Bucket_Wait (bk s) ctx c = Some (b', r)" by (simp add: follows_key_def)
    from follows_wait [OF f this] m(1) True show ?thesis by (simp add: l_returns(2) bump_def)
  next
    case False
    with m(2) same show ?thesis by (intro follows_stutter [OF f]) (simp_all add: l_returns(2) bump_def)
  qed
next
  case (l_close order m)
  note ok = live_inv_manager [OF inv, THEN conjunct1]
  have m: "m = close_keys (set order) (lk_limiter x)"
    using l_close(3) close_each_eq [OF ok] by (simp add: Manager_Close_def)
  show ?thesis
  proof (cases "d \<in> set order")
    case True
    obtain a where "buckets (lk_limiter x) d = Some a"
      using f bucket_at_None_iff [OF ok, of d] by (auto simp: follows_key_def)
    with manager_ok_key(2) [OF ok this] f have "bucket_ok (bk s)" by (auto simp: follows_key_def bucket_at_key)
    then have "bstep s CallClose (s\<lparr>bk := closed_bucket (bk s)\<rparr>)"
      by (intro bstep.close) (rule closed_bucket_spec)
    then show ?thesis
      by (rule follows_step) (use f True in \<open>simp add: follows_key_def l_close(2) m bucket_at_close_keys [OF ok]\<close>)
  next
    case False
    then show ?thesis
      by (intro follows_stutter [OF f]) (simp_all add: l_close(2) m bucket_at_close_keys [OF ok])
  qed
qed (use follows_stutter [OF f] in simp_all)

interpretation domain_bucket: forward_simulation lstep bstep "live_inv p rps" "follows_key d" for p rps d
  by unfold_locales (auto intro: live_inv_step follows_forward)

text \<open>
  Every bucket of the limiter has a beginning: it was created, not before the
  time \<open>t0\<close> the system is looked at from, and has run by its own rules since.
\<close>

definition born_after :: "i64 \<Rightarrow> time \<Rightarrow> string \<Rightarrow> live_checks \<Rightarrow> bool" where
  "born_after rps t0 d x \<longleftrightarrow> t0 \<le> lk_clock x \<and>
     (bucket_at (lk_limiter x) d \<noteq> None \<longrightarrow>
       (\<exists>t1 s0 es s. t0 \<le> t1 \<and> binit rps t1 s0 \<and> run bstep s0 es s \<and> follows_key d x s))"

lemma lookup_creates:
  assumes inv: "live_inv p rps x" and m: "Manager_bucketFor (lk_limiter x) k (lk_clock x) = Inr (m, a)"
    and none: "bucket_at (lk_limiter x) d = None" and some: "bucket_at m d = Some b"
  shows "\<exists>s. binit rps (lk_clock x) s \<and> bk s = b \<and> follows_key d (x\<lparr>lk_limiter := m\<rparr>) s"
proof -
  let ?s = "\<lparr>bk = b, clock = lk_clock x, ctx_of = \<lambda>_. None, waiter_of = \<lambda>_. Idle, fired = 0, granted = 0\<rparr>"
  from fresh_bucket [OF _ m none some] live_inv_manager [OF inv]
  have "NewBucket rps (lk_clock x) = Inr b" by simp
  then have "binit rps (lk_clock x) ?s" by (simp add: binit_def)
  moreover have "follows_key d (x\<lparr>lk_limiter := m\<rparr>) ?s"
    using none some inv by (simp add: follows_key_def live_inv_def)
  ultimately show ?thesis by (intro exI [of _ ?s]) simp
qed

lemma born_first:
  assumes step: "lstep x e y" and inv: "live_inv p rps x"
    and none: "bucket_at (lk_limiter x) d = None" and some: "bucket_at (lk_limiter y) d \<noteq> None"
  shows "\<exists>s0 es s. binit rps (lk_clock x) s0 \<and> run bstep s0 es s \<and> follows_key d y s"
  using step
proof (cases rule: lstep.cases)
  case (l_blocks i now k ctx c m)
  from wait_blocks_key [OF l_blocks(5)] obtain a where
    "Manager_bucketFor (lk_limiter x) k (lk_clock x) = Inr (m, a)" .
  with lookup_creates [OF inv this none] some l_blocks(2) obtain s where
    "binit rps (lk_clock x) s" "follows_key d y s" by auto
  then show ?thesis using run_nil [of bstep s] by blast
next
  case (l_returns i now k ctx c m r u)
  note ok = live_inv_manager [OF inv, THEN conjunct1]
  from wait_returns_key [OF ok l_returns(5)] obtain m1 a b b' where
    m1: "Manager_bucketFor (lk_limiter x) k (lk_clock x) = Inr (m1, a)" "bucket_at m1 k = Some b"
      "Bucket_Wait b ctx c = Some (b', r)" and
    m: "bucket_at m k = Some b'" "\<And>d. d \<noteq> k \<Longrightarrow> bucket_at m d = bucket_at m1 d" by metis
  have dk: "d = k"
  proof (rule ccontr)
    assume "d \<noteq> k"
    with m(2) bucketFor_spec(5) [OF ok m1(1), of d] none some show False by (simp add: l_returns(2))
  qed
  with lookup_creates [OF inv m1(1) none] m1(2) obtain s0 where
    s0: "binit rps (lk_clock x) s0" "bk s0 = b" "follows_key d (x\<lparr>lk_limiter := m1\<rparr>) s0" by blast
  have "\<exists>es s. run bstep s0 es s \<and> follows_key d y s"
  proof (rule follows_wait [OF s0(3)])
    show "Bucket_Wait (bk s0) ctx c = Some (b', r)" using m1(3) s0(2) by simp
  qed (use m(1) dk in \<open>simp_all add: l_returns(2) bump_def\<close>)
  with s0(1) show ?thesis by blast
next
  case (l_fire k a m)
  note ok = live_inv_manager [OF inv, THEN conjunct1]
  from replaces_spec(4) [OF ok fire_at_replaces [OF ok l_fire(3,4)], of d] bucket_at_key [OF l_fire(3)]
    manager_ok_key(2) [OF ok l_fire(3)] none some l_fire(2) show ?thesis by (cases "d = k") auto
next
  case (l_refill k a c m)
  note ok = live_inv_manager [OF inv, THEN conjunct1]
  from replaces_spec(4) [OF ok refill_at_replaces [OF ok l_refill(3,4)], of d] bucket_at_key [OF l_refill(3)]
    manager_ok_key(2) [OF ok l_refill(3)] none some l_refill(2) show ?thesis by (cases "d = k") auto
next
  case (l_close order m)
  note ok = live_inv_manager [OF inv, THEN conjunct1]
  have "m = close_keys (set order) (lk_limiter x)"
    using l_close(3) close_each_eq [OF ok] by (simp add: Manager_Close_def)
  with none some show ?thesis by (simp add: l_close(2) bucket_at_close_keys [OF ok] split: if_splits)
qed (use none some in simp_all)

lemma lstep_clock: "lstep x e y \<Longrightarrow> lk_clock x \<le> lk_clock y"
  by (erule lstep.cases) simp_all

lemma born_step:
  assumes step: "lstep x e y" and inv: "live_inv p rps x" and born: "born_after rps t0 d x"
  shows "born_after rps t0 d y"
proof (cases "bucket_at (lk_limiter x) d")
  case None
  from born have "t0 \<le> lk_clock x" by (simp add: born_after_def)
  with born_first [OF step inv None] lstep_clock [OF step] show ?thesis
    unfolding born_after_def by (meson order.trans)
next
  case (Some b)
  with born obtain t1 s0 es s where s: "t0 \<le> t1" "binit rps t1 s0" "run bstep s0 es s" "follows_key d x s"
    by (auto simp: born_after_def)
  from follows_forward [OF step inv s(4)] obtain fs t where "run bstep s fs t" "follows_key d y t" by blast
  with s run_append [OF s(3)] lstep_clock [OF step] born show ?thesis
    unfolding born_after_def by (meson order.trans)
qed

lemma born_run:
  assumes "run lstep x es y" and "live_inv p rps x" and "born_after rps t0 d x"
  shows "live_inv p rps y \<and> born_after rps t0 d y"
  using assms(1) by (rule run_preserves) (use assms(2,3) live_inv_step born_step in blast)+

section \<open>The rate of requests\<close>

lemma granted_since:
  assumes "run bstep s0 es s" and "binit rps t1 s0" and "t0 \<le> t1"
  shows "granted s * nat (1000000000 div sint (clamped rps)) \<le> clock s - t0"
  using bucket_no_initial_burst [OF assms(2,1)] assms(3) by linarith

lemma granted_window:
  assumes inv: "live_inv p rps x" and born: "born_after rps t0 d x" and xy: "run lstep x fs y"
  shows "lk_granted y d \<le> lk_granted x d + nat (sint (clamped rps)) + 3
           + (lk_clock y - lk_clock x) div nat (1000000000 div sint (clamped rps))"
proof (cases "bucket_at (lk_limiter x) d")
  case (Some b)
  with born obtain t1 s0 es s where s: "binit rps t1 s0" "run bstep s0 es s" "follows_key d x s"
    by (auto simp: born_after_def)
  from domain_bucket.run_followed [OF xy inv s(3)] obtain gs t where
    t: "run bstep s gs t" "follows_key d y t" by blast
  from grants_in_window [OF s(1,2) t(1)] s(3) t(2) show ?thesis by (simp add: follows_key_def)
next
  case None
  have "born_after rps (lk_clock x) d x" using None by (simp add: born_after_def)
  from born_run [OF xy inv this] have y: "live_inv p rps y" "born_after rps (lk_clock x) d y" by simp_all
  show ?thesis
  proof (cases "bucket_at (lk_limiter y) d")
    case None
    with y(1) show ?thesis by (simp add: live_inv_def)
  next
    case (Some b)
    with y(2) obtain t1 s0 es s where s: "lk_clock x \<le> t1" "binit rps t1 s0" "run bstep s0 es s"
      "follows_key d y s" by (auto simp: born_after_def)
    from grants_in_window [OF s(2) run_nil s(3)] s(1,2,4)
    have "lk_granted y d \<le> nat (sint (clamped rps)) + 3
        + (lk_clock y - t1) div nat (1000000000 div sint (clamped rps))"
      by (simp add: follows_key_def binit_def)
    also have "\<dots> \<le> nat (sint (clamped rps)) + 3
        + (lk_clock y - lk_clock x) div nat (1000000000 div sint (clamped rps))"
      using s(1) by (simp add: div_le_mono)
    finally show ?thesis by simp
  qed
qed

lemma sent_granted:
  assumes "live_inv p rps x"
  shows "lk_sent x d \<le> lk_granted x d" and "lk_granted x d \<le> lk_sent x d + ch_cap (sem p)"
proof -
  from assms have acc: "lk_granted x d = lk_sent x d + building_for d (lk_check x)"
    and ci: "check_inv p (cs_targets (lk_check x)) (lk_check x)"
    by (simp_all add: live_inv_def accounted_def)
  then show "lk_sent x d \<le> lk_granted x d" by simp
  have "building_for d (lk_check x) \<le> ch_cap (sem p)"
    using building_for_le [of d "lk_check x"] check_inv_sem(2,4,5) [OF ci] by simp
  with acc show "lk_granted x d \<le> lk_sent x d + ch_cap (sem p)" by simp
qed

text \<open>
  C1. Requests per domain, across the pool and the limiter. Run any number of rounds
  over any targets, with every interleaving of the workers, the clock, the
  tickers and the refill goroutines of all buckets. Between two states the checks
  send at most this many requests to one domain: one full bucket, one per refill
  period of the elapsed time, three at the edges of the window, and one for each
  worker that already had its token. Since the start, the requests times the
  period never exceed the elapsed time, whatever the number of workers and targets.
\<close>

theorem requests_per_domain:
  assumes "live_init p rps t0 x0" and "pool_idle p" and "pl_limiter p"
    and "run lstep x0 es x" and "run lstep x fs y"
  shows "lk_sent y d \<le> lk_sent x d + nat (sint (clamped rps)) + 3 + ch_cap (sem p)
           + (lk_clock y - lk_clock x) div nat (1000000000 div sint (clamped rps)) \<and>
     lk_sent y d * nat (1000000000 div sint (clamped rps)) \<le> lk_clock y - t0"
proof (intro conjI)
  have inv0: "live_inv p rps x0" by (rule live_init_inv [OF assms(1-3)])
  have "born_after rps t0 d x0"
    using assms(1) by (simp add: born_after_def live_init_def bucket_at_def NewManager_def)
  note inv = born_run [OF assms(4) inv0 this]
  note inv' = born_run [OF assms(5) inv [THEN conjunct1] inv [THEN conjunct2]]
  show "lk_sent y d \<le> lk_sent x d + nat (sint (clamped rps)) + 3 + ch_cap (sem p)
      + (lk_clock y - lk_clock x) div nat (1000000000 div sint (clamped rps))"
    using granted_window [OF inv [THEN conjunct1] inv [THEN conjunct2] assms(5)]
      sent_granted [OF inv [THEN conjunct1], of d] sent_granted [OF inv' [THEN conjunct1], of d]
    by linarith
  show "lk_sent y d * nat (1000000000 div sint (clamped rps)) \<le> lk_clock y - t0"
  proof (cases "bucket_at (lk_limiter y) d")
    case None
    then have "lk_granted y d = 0" using inv' by (simp add: live_inv_def)
    with sent_granted(1) [OF inv' [THEN conjunct1], of d] show ?thesis by simp
  next
    case (Some b)
    with inv' obtain t1 s0 es s where s: "t0 \<le> t1" "binit rps t1 s0" "run bstep s0 es s"
      "follows_key d y s" by (auto simp: born_after_def)
    have "lk_sent y d * nat (1000000000 div sint (clamped rps)) \<le>
        lk_granted y d * nat (1000000000 div sint (clamped rps))"
      using sent_granted(1) [OF inv' [THEN conjunct1]] by simp
    also have "\<dots> \<le> lk_clock y - t0"
      using granted_since [OF s(3,2,1)] s(4) by (simp add: follows_key_def)
    finally show ?thesis .
  qed
qed

text \<open>
  An example: the two targets of \<open>demo_start\<close>, one worker and one request per
  second. The first request goes out with the first tick.
\<close>

definition demo_limiter :: "bool \<Rightarrow> time \<Rightarrow> unit list \<Rightarrow> manager" where
  "demo_limiter tick next toks =
     \<lparr>ratePerSecond = 1, buckets = [''a'' \<mapsto> 0],
      bucket_store = [0 \<mapsto> \<lparr>tokens = \<lparr>ch_cap = 1, ch_buf = toks, ch_closed = False\<rparr>,
        refill_ticker = \<lparr>tk_period = 1000000000, tk_next = next, tk_pending = tick, tk_stopped = False\<rparr>,
        closeOnce = False, done_ch = make_chan 0, refilling = True\<rparr>],
      next_address = 1\<rparr>"

definition demo_live :: live_checks where
  "demo_live = \<lparr>lk_check = demo_start, lk_limiter = NewManager 1, lk_clock = 0,
     lk_granted = (\<lambda>_. 0), lk_sent = (\<lambda>_. 0)\<rparr>"

lemma demo_live_init: "live_init demo_pool 1 0 demo_live"
  using demo_init by (auto simp: live_init_def demo_live_def)

lemma demo_limiter_steps:
  "Manager_Wait (NewManager 1) None ''a'' 0 WaitToken = Inr (demo_limiter False 1000000000 [], None)"
  "fire_at (demo_limiter False 1000000000 []) 0 1000000000 = Some (demo_limiter True 2000000000 [])"
  "refill_at (demo_limiter True 2000000000 []) 0 RefillTick = Some (demo_limiter False 2000000000 [()])"
  "Manager_Wait (demo_limiter False 2000000000 [()]) None ''a'' 1000000000 WaitToken =
     Inr (demo_limiter False 2000000000 [], Some None)"
  by (simp_all add: Manager_Wait_def Manager_bucketFor_def NewManager_def NewBucket_eq clamped_def make_chan_def
      demo_limiter_def wait_at_def Bucket_Wait.simps recv_first_def recv_def Let_def fire_at_def ticker_due_def
      ticker_fire_def refill_at_def Bucket_refill.simps ticker_take_def send_or_drop_def try_send_def)

lemma live_of_checks:
  "run pstep c es s \<Longrightarrow> \<forall>e \<in> set es. \<forall>i r. e \<noteq> LimiterReturns i r \<and> e \<noteq> BuildReq i \<Longrightarrow>
     run lstep (x\<lparr>lk_check := c\<rparr>) (map LCheck es) (x\<lparr>lk_check := s\<rparr>)"
proof (induction rule: run.induct)
  case (run_nil s)
  then show ?case by simp
next
  case (run_cons s e t es u)
  have "starts_request t e = None" using run_cons.prems by (cases e) auto
  with run_cons.hyps(1) run_cons.prems lstep.l_check [of "x\<lparr>lk_check := s\<rparr>" e t]
  have "lstep (x\<lparr>lk_check := s\<rparr>) (LCheck e) (x\<lparr>lk_check := t\<rparr>)"
    by (simp add: note_request_def)
  with run_cons show ?case by (auto intro: run.run_cons)
qed

lemma demo_request: "\<exists>es y. run lstep demo_live es y \<and> lk_sent y ''a'' = 1 \<and> lk_clock y = 1000000000"
proof -
  obtain s where s: "run pstep demo_start [Acquire 0, StartCheck 0, Domain 0 7] s"
    "cs_pc s = [InLimiter 7 ''a'', Spawned]" using demo_blocked by blast
  have t0: "cs_targets s ! 0 = \<lparr>ID = ''1'', URL = ''http://a/''\<rparr>"
    using check_reachable_inv [OF demo_init demo_idle s(1)] by (simp add: check_inv_def demo_targets_def)
  have dom: "domainOf ''http://a/'' = Inr ''a''" by code_simp
  then have host: "host_of (cs_targets s ! 0) = ''a''" by (simp add: t0 host_of_def)
  have req: "after_build (cs_targets s ! 0) 7 = InRequest 7"
    using dom build_after_domain [of "cs_targets s ! 0" 7 "''a''" 7]
    by (simp add: t0 after_build_def checkOne_domain_def)
  let ?x = "demo_live\<lparr>lk_check := s\<rparr>"
  let ?l = "demo_live\<lparr>lk_clock := 1000000000\<rparr>"
  let ?u = "set_pc 0 (Building 7) s" and ?v = "set_pc 0 (InRequest 7) s"
  have 0: "run lstep demo_live (map LCheck [Acquire 0, StartCheck 0, Domain 0 7]) ?x"
    using live_of_checks [OF s(1), of demo_live] by (simp add: demo_live_def)
  have 1: "lstep ?x (LWait 0 None WaitToken) (?x\<lparr>lk_limiter := demo_limiter False 1000000000 []\<rparr>)"
    using lstep.l_blocks [of 0 ?x 7 "''a''" None WaitToken "demo_limiter False 1000000000 []"]
    by (simp add: s(2) demo_live_def demo_limiter_steps)
  let ?x2 = "?l\<lparr>lk_check := s, lk_limiter := demo_limiter False 1000000000 []\<rparr>"
  have 2: "lstep (?x\<lparr>lk_limiter := demo_limiter False 1000000000 []\<rparr>) (LTime 1000000000) ?x2"
    using lstep.l_time [of "?x\<lparr>lk_limiter := demo_limiter False 1000000000 []\<rparr>" 1000000000]
    by (simp add: demo_live_def)
  have key: "buckets (demo_limiter b n us) ''a'' = Some 0" for b n us by (simp add: demo_limiter_def)
  let ?x3 = "?l\<lparr>lk_check := s, lk_limiter := demo_limiter True 2000000000 []\<rparr>"
  have 3: "lstep ?x2 (LFire ''a'') ?x3"
    using lstep.l_fire [of ?x2 "''a''" 0 "demo_limiter True 2000000000 []"] by (simp add: key demo_limiter_steps)
  let ?x4 = "?l\<lparr>lk_check := s, lk_limiter := demo_limiter False 2000000000 [()]\<rparr>"
  have 4: "lstep ?x3 (LRefill ''a'' RefillTick) ?x4"
    using lstep.l_refill [of ?x3 "''a''" 0 RefillTick "demo_limiter False 2000000000 [()]"]
    by (simp add: key demo_limiter_steps)
  let ?x5 = "?l\<lparr>lk_check := ?u, lk_limiter := demo_limiter False 2000000000 [],
      lk_granted := bump ''a'' (\<lambda>_. 0)\<rparr>"
  have p: "pstep s (LimiterReturns 0 None) ?u"
    using pstep.limiter_returns [of 0 s 7 "''a''" None] by (simp add: s(2) after_wait_def checkOne_waited_def)
  have 5: "lstep ?x4 (LWait 0 None WaitToken) ?x5"
    using lstep.l_returns [of 0 ?x4 7 "''a''" None WaitToken "demo_limiter False 2000000000 []" None ?u] p
    by (simp add: s(2) demo_limiter_steps demo_live_def)
  have q: "pstep ?u (BuildReq 0) ?v"
    using pstep.build [of 0 ?u 7] req by (simp add: s(2) set_pc_def)
  let ?x6 = "?x5\<lparr>lk_check := ?v, lk_sent := bump ''a'' (\<lambda>_. 0)\<rparr>"
  have 6: "lstep ?x5 (LCheck (BuildReq 0)) ?x6"
    using lstep.l_check [of ?x5 "BuildReq 0" ?v] q
    by (simp add: set_pc_def s(2) host note_request_def demo_live_def)
  have "run lstep ?x [LWait 0 None WaitToken, LTime 1000000000, LFire ''a'', LRefill ''a'' RefillTick,
      LWait 0 None WaitToken, LCheck (BuildReq 0)] ?x6"
    by (rule run.run_cons, rule 1, rule run.run_cons, rule 2, rule run.run_cons, rule 3,
        rule run.run_cons, rule 4, rule run.run_cons, rule 5, rule run.run_cons, rule 6, rule run.run_nil)
  from run_append [OF 0 this] show ?thesis by (intro exI conjI) (auto simp: bump_def)
qed

theorem requests_per_domain_witness:
  "\<exists>es y. run lstep demo_live es y \<and> lk_sent y ''a'' = 1 \<and> lk_sent y ''a'' * 1000000000 \<le> lk_clock y"
proof -
  obtain es y where y: "run lstep demo_live es y" "lk_sent y ''a'' = 1" using demo_request by blast
  from requests_per_domain [OF demo_live_init demo_idle demo_pool_simps(3) y(1) run_nil, of "''a''"]
  have "lk_sent y ''a'' * 1000000000 \<le> lk_clock y" by (simp add: clamped_def)
  with y show ?thesis by blast
qed

end
