(* ===== verification/Limited_Round.thy ===== *)
theory Limited_Round
  imports Limited_Rate
begin

text \<open>
  One round of \<open>Check\<close> over its limiter: a target can be up only if a request was sent
  for it, so the bound on the requests to a domain bounds how many targets of one
  domain a round can find up, whatever their servers answer.
\<close>

section \<open>Requests and results\<close>

text \<open>A goroutine whose check is or may still be a success has sent its request.\<close>

fun asked :: "goroutine \<Rightarrow> bool" where
  "asked (InRequest now) = True"
| "asked (Checked r) = (\<not> Failed r)"
| "asked (Reported r) = (\<not> Failed r)"
| "asked (Written r) = (\<not> Failed r)"
| "asked (Released r) = (\<not> Failed r)"
| "asked (Finished (Some r)) = (\<not> Failed r)"
| "asked g = False"

definition asked_for :: "string \<Rightarrow> check_sys \<Rightarrow> nat" where
  "asked_for d c = count_of (\<lambda>(t, g). asked g \<and> host_of t = d) (zip (cs_targets c) (cs_pc c))"

lemma asked_for_update:
  assumes "i < length (cs_pc c)" and "length (cs_targets c) = length (cs_pc c)"
    and "cs_pc c' = (cs_pc c)[i := g]" and "cs_targets c' = cs_targets c"
  shows "asked_for d c' + bit (asked (pc_at c i) \<and> host_of (cs_targets c ! i) = d) =
     asked_for d c + bit (asked g \<and> host_of (cs_targets c ! i) = d)"
proof -
  have "zip (cs_targets c') (cs_pc c') = (zip (cs_targets c) (cs_pc c))[i := (cs_targets c ! i, g)]"
    using zip_update [of "cs_targets c" i "cs_targets c ! i" "cs_pc c" g] assms by simp
  with count_of_update [of i "zip (cs_targets c) (cs_pc c)" "\<lambda>(t, g). asked g \<and> host_of t = d" "(cs_targets c ! i, g)"] assms(1,2)
  show ?thesis by (simp add: asked_for_def)
qed

lemma failed_result_failed [simp]: "Failed (failed_result t dur e now)"
  by (simp add: failed_result_def Failed_def)

lemma not_asked_after: "\<not> asked (after_domain l t now)" "\<not> asked (after_wait t now r)"
  by (auto simp: after_domain_def after_wait_def checkOne_domain_def checkOne_waited_def
      split: sum.split option.split)

lemma asked_step:
  assumes step: "pstep c e c'" and len: "length (cs_targets c) = length (cs_pc c)"
  shows "asked_for d c' \<le> asked_for d c + (if starts_request c' e = Some d then 1 else 0)"
proof -
  note upd = asked_for_update [OF _ len] and moves = set_pc_def set_sem_def write_result_def call_metrics_views
  from step show ?thesis
  proof (cases rule: pstep.cases)
    case (build i now)
    note u = upd [OF build(3), of c' "after_build (cs_targets c ! i) now" d]
    have "asked (after_build (cs_targets c ! i) now) \<Longrightarrow> \<exists>m. after_build (cs_targets c ! i) now = InRequest m"
      by (auto simp: after_build_def checkOne_build_def split: sum.splits)
    with build u show ?thesis by (auto simp: set_pc_def split: if_splits)
  next
    case (domain i now)
    with upd [of i c' "after_domain (pl_limiter (cs_pool c)) (cs_targets c ! i) now" d] not_asked_after
    show ?thesis by (simp add: set_pc_def)
  next
    case (limiter_returns i now k answer)
    with upd [of i c' "after_wait (cs_targets c ! i) now answer" d] not_asked_after
    show ?thesis by (simp add: set_pc_def)
  next
    case (ctx_ends err)
    then show ?thesis by (simp add: asked_for_def)
  next
    case (acquire i q)
    with upd [of i c' "Acquired" d] show ?thesis by (simp add: moves)
  next
    case (skip_check i err now)
    with upd [of i c' "Skipped" d] show ?thesis by (simp add: moves)
  next
    case (start i)
    with upd [of i c' "Started" d] show ?thesis by (simp add: moves)
  next
    case (request_returns i now elapsed answer)
    with upd [of i c' "Checked (checkOne_done (cs_targets c ! i) now elapsed answer)" d] show ?thesis
      by (simp add: moves split: if_splits)
  next
    case (finish i r)
    with upd [of i c' "Reported r" d] show ?thesis by (simp add: moves)
  next
    case (store_result i r)
    with upd [of i c' "Written r" d] show ?thesis by (simp add: moves)
  next
    case (release i r q)
    with upd [of i c' "Released r" d] show ?thesis by (simp add: moves)
  next
    case (wg_done_ran i r)
    with upd [of i c' "Finished (Some r)" d] show ?thesis by (simp add: moves)
  next
    case (wg_done_skipped i)
    with upd [of i c' "Finished None" d] show ?thesis by (simp add: moves)
  qed
qed

text \<open>Within one round no more targets can be up than requests were sent since its beginning.\<close>

lemma round_step:
  assumes step: "lstep x e y" and "e \<noteq> LRound" and inv: "live_inv p rps x"
    and "n + asked_for d (lk_check x) \<le> lk_sent x d"
  shows "n + asked_for d (lk_check y) \<le> lk_sent y d \<and> cs_targets (lk_check y) = cs_targets (lk_check x)"
proof -
  have ci: "check_inv p (cs_targets (lk_check x)) (lk_check x)" using inv by (simp add: live_inv_def)
  then have len: "length (cs_targets (lk_check x)) = length (cs_pc (lk_check x))" by (simp add: check_inv_def)
  from step show ?thesis
  proof (cases rule: lstep.cases)
    case (l_check f s)
    have "cs_targets s = cs_targets (lk_check x)" using check_inv_step [OF l_check(3) ci] by (simp add: check_inv_def)
    with asked_step [OF l_check(3) len, of d] assms(4) l_check(2) show ?thesis
      by (auto simp: note_request_def bump_def split: option.splits if_splits)
  next
    case (l_returns i now k ctx c m r s)
    have "cs_targets s = cs_targets (lk_check x)" using check_inv_step [OF l_returns(6) ci] by (simp add: check_inv_def)
    with asked_step [OF l_returns(6) len, of d] assms(4) l_returns(2) show ?thesis by simp
  qed (use assms(2,4) in simp_all)
qed

lemma round_run:
  assumes "run lstep x es y" and "LRound \<notin> set es" and "live_inv p rps x"
    and "n + asked_for d (lk_check x) \<le> lk_sent x d"
  shows "n + asked_for d (lk_check y) \<le> lk_sent y d \<and> cs_targets (lk_check y) = cs_targets (lk_check x)"
proof -
  let ?P = "\<lambda>y. live_inv p rps y \<and> n + asked_for d (lk_check y) \<le> lk_sent y d \<and>
    cs_targets (lk_check y) = cs_targets (lk_check x)"
  have keep: "?P t" if "lstep s e t" "?P s" "e \<in> set es" for s e t
  proof -
    have "e \<noteq> LRound" using that(3) assms(2) by blast
    with round_step [OF that(1) this] live_inv_step [OF that(1)] that(2) show ?thesis by metis
  qed
  have "?P y" by (rule run_preserves_all [OF assms(1), where P = ?P]) (use assms(3,4) keep in blast)+
  then show ?thesis by blast
qed

lemma count_of_all2: "list_all2 (\<lambda>x y. P x \<longrightarrow> Q y) xs ys \<Longrightarrow> count_of P xs \<le> count_of Q ys"
  by (induction rule: list_all2_induct) auto

lemma split_counts: "\<forall>x \<in> set xs. Q x \<Longrightarrow> length xs = count_of P xs + count_of (\<lambda>x. \<not> P x \<and> Q x) xs"
  by (induction xs) auto

lemma round_results:
  assumes inv: "check_inv p ts c" and fin: "Check_done c"
  shows "map Target (cs_results c) = ts"
    and "count_of (\<lambda>r. \<not> Failed r \<and> host_of (Target r) = d) (cs_results c) \<le> asked_for d c"
proof -
  have len: "cs_targets c = ts" "length (cs_pc c) = length ts" "length (cs_results c) = length ts"
    using inv by (simp_all add: check_inv_def)
  have each: "Target (cs_results c ! i) = ts ! i \<and> (\<not> Failed (cs_results c ! i) \<longrightarrow> asked (pc_at c i))" if "i < length ts" for i
  proof -
    from that len fin obtain r where r: "pc_at c i = Finished r" unfolding Check_done_def by (metis nth_mem)
    have "gor_ok (pl_limiter p) (cs_ctx c) (ts ! i) (pc_at c i) (cs_results c ! i)"
      using inv that by (simp add: check_inv_def)
    then have "(\<exists>a. r = Some (cs_results c ! i) \<and> cs_results c ! i = fst (checkOne (pl_limiter p) (ts ! i) a)) \<or>
        (\<exists>e now. cs_results c ! i = failed_result (ts ! i) 0 (CtxE e) now)"
      using r by (cases r) auto
    moreover have "Target (failed_result t0 z e m) = t0" for t0 z e m by (simp add: failed_result_def)
    ultimately show ?thesis using r checkOne_target by auto
  qed
  show "map Target (cs_results c) = ts" using len each by (intro nth_equalityI) simp_all
  have "list_all2 (\<lambda>r (t, g). \<not> Failed r \<and> host_of (Target r) = d \<longrightarrow> asked g \<and> host_of t = d)
      (cs_results c) (zip (cs_targets c) (cs_pc c))"
    using len each by (auto simp: list_all2_conv_all_nth)
  then have "list_all2 (\<lambda>r y. \<not> Failed r \<and> host_of (Target r) = d \<longrightarrow> (\<lambda>(t, g). asked g \<and> host_of t = d) y)
      (cs_results c) (zip (cs_targets c) (cs_pc c))"
    by (rule list_all2_mono) auto
  from count_of_all2 [OF this] show "count_of (\<lambda>r. \<not> Failed r \<and> host_of (Target r) = d) (cs_results c) \<le> asked_for d c"
    unfolding asked_for_def .
qed

lemma sent_fresh:
  assumes "live_inv p rps x" and "Check_init q ts (lk_check x)"
  shows "lk_granted x d = lk_sent x d" and "asked_for d (lk_check x) = 0"
proof -
  show "lk_granted x d = lk_sent x d"
    using assms(1) building_fresh [OF assms(2)] by (simp add: live_inv_def accounted_def)
  show "asked_for d (lk_check x) = 0"
    using assms(2) by (auto simp: Check_init_def asked_for_def count_of_zero dest: set_zip_rightD)
qed

section \<open>Properties\<close>


text \<open>An example: six targets of one host, one request per second, and no time for any of them.\<close>

definition crowd :: "target list" where
  "crowd = replicate 6 \<lparr>ID = ''1'', URL = ''http://a/''\<rparr>"

definition crowd_check :: "goroutine list \<Rightarrow> result list \<Rightarrow> check_sys" where
  "crowd_check gs rs = \<lparr>cs_pool = demo_pool, cs_targets = crowd, cs_ctx = Some Canceled, cs_pc = gs, cs_results = rs, cs_calls = []\<rparr>"

definition crowd_live :: "check_sys \<Rightarrow> live_checks" where
  "crowd_live c = \<lparr>lk_check = c, lk_limiter = NewManager 1, lk_clock = 0, lk_granted = (\<lambda>_. 0), lk_sent = (\<lambda>_. 0)\<rparr>"

inductive_simps pstep_wg_iff: "pstep s (WgDone i) t"

lemma crowd_step:
  "pstep c (SkipCheck i 0) c' \<Longrightarrow> lstep (crowd_live c) (LCheck (SkipCheck i 0)) (crowd_live c')"
  "pstep c (WgDone i) c' \<Longrightarrow> lstep (crowd_live c) (LCheck (WgDone i)) (crowd_live c')"
  using lstep.l_check [of "crowd_live c" "SkipCheck i 0" c'] lstep.l_check [of "crowd_live c" "WgDone i" c']
  by (simp_all add: crowd_live_def note_request_def)

lemma crowd_one:
  assumes "i < length gs" and "length rs = length gs" and "gs ! i = Spawned"
  shows "run lstep (crowd_live (crowd_check gs rs)) [LCheck (SkipCheck i 0), LCheck (WgDone i)]
     (crowd_live (crowd_check (gs[i := Finished None]) (rs[i := failed_result (crowd ! i) 0 (CtxE Canceled) 0])))"
proof -
  let ?rs = "rs[i := failed_result (crowd ! i) 0 (CtxE Canceled) 0]"
  have "pstep (crowd_check gs rs) (SkipCheck i 0) (crowd_check (gs[i := Skipped]) ?rs)"
    using assms by (simp add: pstep_skip_iff crowd_check_def set_pc_def write_result_def)
  moreover have "pstep (crowd_check (gs[i := Skipped]) ?rs) (WgDone i) (crowd_check (gs[i := Finished None]) ?rs)"
    using assms by (simp add: pstep_wg_iff crowd_check_def set_pc_def)
  ultimately show ?thesis by (auto simp: run_Cons_iff intro: crowd_step)
qed

lemma crowd_run:
  "k \<le> 6 \<Longrightarrow> \<exists>fs gs rs. run lstep (crowd_live (crowd_check (replicate 6 Spawned) (replicate 6 zero_result))) fs
       (crowd_live (crowd_check gs rs)) \<and> LRound \<notin> set fs \<and> length gs = 6 \<and> length rs = 6 \<and>
     (\<forall>i < 6. gs ! i = (if i < k then Finished None else Spawned))"
proof (induction k)
  case 0
  show ?case by (intro exI [of _ "[]"] exI conjI) (rule run_nil, simp_all)
next
  case (Suc k)
  then obtain fs gs rs where IH: "run lstep (crowd_live (crowd_check (replicate 6 Spawned) (replicate 6 zero_result))) fs
       (crowd_live (crowd_check gs rs))" "LRound \<notin> set fs" "length gs = 6" "length rs = 6"
     "\<forall>i < 6. gs ! i = (if i < k then Finished None else Spawned)" by auto
  have "run lstep (crowd_live (crowd_check gs rs)) [LCheck (SkipCheck k 0), LCheck (WgDone k)]
     (crowd_live (crowd_check (gs[k := Finished None]) (rs[k := failed_result (crowd ! k) 0 (CtxE Canceled) 0])))"
    by (rule crowd_one) (use IH(3-5) Suc.prems in simp_all)
  from run_append [OF IH(1) this] IH(2-5) Suc.prems show ?case
    by (intro exI [of _ "fs @ [LCheck (SkipCheck k 0), LCheck (WgDone k)]"] exI [of _ "gs[k := Finished None]"]
        exI [of _ "rs[k := failed_result (crowd ! k) 0 (CtxE Canceled) 0]"])
      (auto simp: nth_list_update less_Suc_eq)
qed


end
