(* ===== verification/Live_System.thy ===== *)
theory Live_System
  imports Pool_Tick Go_Transitions
begin

text \<open>
  The dashboard as it runs: requests that create and delete targets, and the rounds
  of the monitor, interleaved at their store calls and their publications. The
  handlers and \<open>tick\<close> are sequential functions in \<open>Handlers\<close> and \<open>Pool_Tick\<close>; here
  each is cut where another goroutine can come in between, and the last section
  shows that a request or a round that is left alone does what those functions do.
\<close>

section \<open>State\<close>

text \<open>A request, and a round of the monitor, by what it does next.\<close>

datatype request =
    CreateReq string          \<comment> \<open>accepted by validation, before \<open>store.CreateTarget\<close>\<close>
  | CreateStored target       \<comment> \<open>before \<open>PublishTargetAdded\<close>\<close>
  | DeleteReq string
  | DeleteStored string       \<comment> \<open>before \<open>PublishTargetRemoved\<close>\<close>
  | Answered nat              \<comment> \<open>with this status\<close>

datatype monitor_pc =
    MonIdle
  | MonChecking "target list"
  | MonResults "result list" "target list"          \<comment> \<open>the results still to publish\<close>
  | MonRecord result "result list" "target list"    \<comment> \<open>published, before \<open>RecordCheck\<close>\<close>
  | MonStats "target list"
  | MonPubStats stats "target list"

text \<open>
  \<open>ls_shown\<close> lists the publications in the order of the calls of \<open>hub.Publish\<close>, by
  event name and view; \<open>ls_used\<close> the ids the database has given out.
\<close>

record live_sys =
  ls_tables :: tables
  ls_used :: "string list"
  ls_shown :: "(string \<times> view) list"
  ls_reqs :: "request list"
  ls_mon :: monitor_pc

definition show_view :: "string \<Rightarrow> view \<Rightarrow> live_sys \<Rightarrow> live_sys" where
  "show_view name v s = s\<lparr>ls_shown := ls_shown s @ [(name, v)]\<rparr>"

definition set_req :: "nat \<Rightarrow> request \<Rightarrow> live_sys \<Rightarrow> live_sys" where
  "set_req i r s = s\<lparr>ls_reqs := (ls_reqs s)[i := r]\<rparr>"

definition set_mon :: "monitor_pc \<Rightarrow> live_sys \<Rightarrow> live_sys" where
  "set_mon m s = s\<lparr>ls_mon := m\<rparr>"

definition set_tables :: "tables \<Rightarrow> live_sys \<Rightarrow> live_sys" where
  "set_tables tb s = s\<lparr>ls_tables := tb\<rparr>"

lemmas live_setters = show_view_def set_req_def set_mon_def set_tables_def

section \<open>The parts of the handlers between two calls\<close>

definition create_arrives :: "bool \<Rightarrow> string \<Rightarrow> request" where
  "create_arrives form_ok form_url =
     (if \<not> form_ok then Answered StatusBadRequest
      else (case validateTargetURL form_url of Inl _ \<Rightarrow> Answered StatusBadRequest | Inr raw \<Rightarrow> CreateReq raw))"

definition create_stored :: "store_err + target \<Rightarrow> request" where
  "create_stored r =
     (case r of
        Inl e \<Rightarrow> Answered (if e = ErrTargetExists then StatusConflict else StatusInternalServerError)
      | Inr t \<Rightarrow> CreateStored t)"

definition delete_arrives :: "string \<Rightarrow> request" where
  "delete_arrives tid = (if tid = [] then Answered StatusBadRequest else DeleteReq tid)"

definition delete_stored :: "string \<Rightarrow> store_err option \<Rightarrow> request" where
  "delete_stored tid r =
     (case r of
        Some e \<Rightarrow> Answered (if e = ErrTargetNotFound then StatusNotFound else StatusInternalServerError)
      | None \<Rightarrow> DeleteStored tid)"

definition new_ids :: "store_err + target \<Rightarrow> string list" where
  "new_ids r = (case r of Inl _ \<Rightarrow> [] | Inr t \<Rightarrow> [ID t])"

definition listed_next :: "store_err + target list \<Rightarrow> monitor_pc" where
  "listed_next r = (case r of Inl _ \<Rightarrow> MonIdle | Inr ts \<Rightarrow> MonChecking ts)"

definition stats_next :: "store_err + stats \<Rightarrow> target list \<Rightarrow> monitor_pc" where
  "stats_next r ts = (case r of Inl _ \<Rightarrow> MonStats ts | Inr st \<Rightarrow> MonPubStats st ts)"

definition stats_view :: "stats \<Rightarrow> view" where
  "stats_view st = StatsView (TargetID st) (TotalChecks st) (Failures st) (P50LatencyMS st) (P99LatencyMS st)"

section \<open>The step relation\<close>

datatype sys_event =
    PostArrives bool string | PostStores nat "pg_err option" string time | PostPublishes nat
  | DeleteArrives string | DeleteStores nat "pg_err option" | DeletePublishes nat
  | RoundLists "list_fault option" | RoundChecks "result list" | RoundPublishes
  | RoundRecords "pg_err option" | RoundStats "pg_err option" time | RoundPubStats | RoundEnds

text \<open>
  The fixed arguments are the text of errors, how a text is read as a UUID, and the
  percentile aggregate. A new id was never given out before, which is what
  \<open>gen_random_uuid()\<close> is there for. The deletions followed here name an id as the pages
  do, in the spelling of the database; \<open>Handlers\<close> has what other spellings come to.
\<close>

inductive sys_step ::
    "(string \<Rightarrow> string) \<Rightarrow> (string \<Rightarrow> string option) \<Rightarrow> (nat \<Rightarrow> int list \<Rightarrow> int) \<Rightarrow> live_sys \<Rightarrow> sys_event \<Rightarrow> live_sys \<Rightarrow> bool"
  for quote uuid_in percentile where
  post_arrives: "sys_step quote uuid_in percentile s (PostArrives form_ok form_url)
     (s\<lparr>ls_reqs := ls_reqs s @ [create_arrives form_ok form_url]\<rparr>)"
| post_stores: "i < length (ls_reqs s) \<Longrightarrow> ls_reqs s ! i = CreateReq raw \<Longrightarrow> newid \<notin> set (ls_used s) \<Longrightarrow>
     CreateTarget fault newid now raw (ls_tables s) = (r, tb) \<Longrightarrow>
     sys_step quote uuid_in percentile s (PostStores i fault newid now)
       (set_req i (create_stored r) (set_tables tb (s\<lparr>ls_used := new_ids r @ ls_used s\<rparr>)))"
| post_publishes: "i < length (ls_reqs s) \<Longrightarrow> ls_reqs s ! i = CreateStored t \<Longrightarrow>
     sys_step quote uuid_in percentile s (PostPublishes i)
       (set_req i (Answered StatusOK) (show_view ''target_added'' (AddedView t) s))"
| delete_arrives: "sys_step quote uuid_in percentile s (DeleteArrives tid)
     (s\<lparr>ls_reqs := ls_reqs s @ [delete_arrives tid]\<rparr>)"
| delete_stores: "i < length (ls_reqs s) \<Longrightarrow> ls_reqs s ! i = DeleteReq tid \<Longrightarrow> uuid_in tid \<in> {None, Some tid} \<Longrightarrow>
     DeleteTarget uuid_in fault tid (ls_tables s) = (r, tb) \<Longrightarrow>
     sys_step quote uuid_in percentile s (DeleteStores i fault)
       (set_req i (delete_stored tid r) (set_tables tb s))"
| delete_publishes: "i < length (ls_reqs s) \<Longrightarrow> ls_reqs s ! i = DeleteStored tid \<Longrightarrow>
     sys_step quote uuid_in percentile s (DeletePublishes i)
       (set_req i (Answered StatusOK) (show_view ''target_removed'' (RemovedView tid) s))"
| round_lists: "ls_mon s = MonIdle \<Longrightarrow> ListTargets fault (ls_tables s) = l \<Longrightarrow>
     sys_step quote uuid_in percentile s (RoundLists fault) (set_mon (listed_next l) s)"
| round_checks: "ls_mon s = MonChecking ts \<Longrightarrow> map Target rs = ts \<Longrightarrow>
     sys_step quote uuid_in percentile s (RoundChecks rs) (set_mon (MonResults rs ts) s)"
| round_publishes: "ls_mon s = MonResults (r # rs) ts \<Longrightarrow>
     sys_step quote uuid_in percentile s RoundPublishes
       (set_mon (MonRecord r rs ts) (show_view ''check'' (StatusView (checkStatusFromResult quote r)) s))"
| round_records: "ls_mon s = MonRecord r rs ts \<Longrightarrow>
     RecordCheck fault (ID (Target r)) (StatusCode r) (sint (Milliseconds (Duration r))) (err_msg quote r)
       (CheckedAt r) (ls_tables s) = (e, tb) \<Longrightarrow>
     sys_step quote uuid_in percentile s (RoundRecords fault) (set_mon (MonResults rs ts) (set_tables tb s))"
| round_stats: "ls_mon s = MonResults [] ts' \<or> ls_mon s = MonStats ts' \<Longrightarrow> ts' = t # ts \<Longrightarrow>
     RecentStats percentile fault now (ID t) (ls_tables s) = st \<Longrightarrow>
     sys_step quote uuid_in percentile s (RoundStats fault now) (set_mon (stats_next st ts) s)"
| round_pub_stats: "ls_mon s = MonPubStats st ts \<Longrightarrow>
     sys_step quote uuid_in percentile s RoundPubStats (set_mon (MonStats ts) (show_view ''stats'' (stats_view st) s))"
| round_ends: "ls_mon s = MonResults [] [] \<or> ls_mon s = MonStats [] \<Longrightarrow>
     sys_step quote uuid_in percentile s RoundEnds (set_mon MonIdle s)"

inductive_cases sys_step_cases: "sys_step quote uuid_in percentile s e t"

text \<open>At the start there is a sound database whose ids have been given out, and nothing else.\<close>

definition sys_init :: "tables \<Rightarrow> live_sys \<Rightarrow> bool" where
  "sys_init tb s \<longleftrightarrow> tables_ok tb \<and> ls_tables s = tb \<and> set (target_ids tb) \<subseteq> set (ls_used s) \<and>
     ls_shown s = [] \<and> ls_reqs s = [] \<and> ls_mon s = MonIdle"

section \<open>The account of the announcements\<close>

text \<open>
  For each id: how often its row was announced or withdrawn, and how many requests
  still owe an announcement for a change they have made.
\<close>

fun shows_added :: "string \<Rightarrow> string \<times> view \<Rightarrow> bool" where
  "shows_added x (n, AddedView t) = (ID t = x)"
| "shows_added x (n, v) = False"

fun shows_removed :: "string \<Rightarrow> string \<times> view \<Rightarrow> bool" where
  "shows_removed x (n, RemovedView tid) = (tid = x)"
| "shows_removed x (n, v) = False"

fun owes_added :: "string \<Rightarrow> request \<Rightarrow> bool" where
  "owes_added x (CreateStored t) = (ID t = x)"
| "owes_added x r = False"

fun owes_removed :: "string \<Rightarrow> request \<Rightarrow> bool" where
  "owes_removed x (DeleteStored tid) = (tid = x)"
| "owes_removed x r = False"

definition n_rows :: "string \<Rightarrow> tables \<Rightarrow> nat" where
  "n_rows x tb = count_of (\<lambda>y. y = x) (target_ids tb)"

definition ever_added :: "string \<Rightarrow> live_sys \<Rightarrow> nat" where
  "ever_added x s = count_of (shows_added x) (ls_shown s) + count_of (owes_added x) (ls_reqs s)"

definition ever_removed :: "string \<Rightarrow> live_sys \<Rightarrow> nat" where
  "ever_removed x s = count_of (shows_removed x) (ls_shown s) + count_of (owes_removed x) (ls_reqs s)"

definition account_ok :: "nat \<Rightarrow> nat \<Rightarrow> bool \<Rightarrow> nat \<Rightarrow> nat \<Rightarrow> bool" where
  "account_ok n0 n used a r \<longleftrightarrow> n0 + a = n + r \<and> n0 + a \<le> (if used then 1 else 0)"

definition sys_inv :: "tables \<Rightarrow> live_sys \<Rightarrow> bool" where
  "sys_inv tb0 s \<longleftrightarrow> tables_ok (ls_tables s) \<and> set (target_ids (ls_tables s)) \<subseteq> set (ls_used s) \<and>
     (\<forall>x. account_ok (n_rows x tb0) (n_rows x (ls_tables s)) (x \<in> set (ls_used s)) (ever_added x s) (ever_removed x s))"

lemma sys_inv_account: "sys_inv tb0 s \<Longrightarrow>
    account_ok (n_rows x tb0) (n_rows x (ls_tables s)) (x \<in> set (ls_used s)) (ever_added x s) (ever_removed x s)"
  by (simp add: sys_inv_def)

lemma n_rows_ok: "tables_ok tb \<Longrightarrow> n_rows x tb = (if x \<in> set (target_ids tb) then 1 else 0)"
  using delete_count [of tb x] by (simp add: n_rows_def tables_ok_def)

lemma Create_effect:
  assumes "CreateTarget fault newid now raw tb = (r, tb')"
  shows "case r of
      Inl e \<Rightarrow> tb' = tb
    | Inr t \<Rightarrow> ID t = newid \<and> target_ids tb' = target_ids tb @ [newid]"
  using assms
  by (auto simp: CreateTarget_def sql_insert_target_def target_ids_def Let_def split: option.splits sum.splits if_splits)

lemma ids_without: "map (ID \<circ> fst) (filter (\<lambda>(t, _). ID t \<noteq> tid) xs) = filter (\<lambda>y. y \<noteq> tid) (map (ID \<circ> fst) xs)"
  by (induction xs) auto

lemma Delete_effect:
  assumes "DeleteTarget uuid_in fault tid tb = (r, tb')" and "tables_ok tb" and "uuid_in tid \<in> {None, Some tid}"
  shows "case r of
      Some e \<Rightarrow> target_ids tb' = target_ids tb
    | None \<Rightarrow> n_rows tid tb = 1 \<and> target_ids tb' = filter (\<lambda>y. y \<noteq> tid) (target_ids tb)"
proof (cases "fault \<noteq> None \<or> uuid_in tid = None")
  case True
  then show ?thesis
  proof (cases fault)
    case None
    with True assms(1) show ?thesis by (auto simp: DeleteTarget_def sql_delete_target_def)
  next
    case (Some e)
    with assms(1) show ?thesis by (auto simp: DeleteTarget_def)
  qed
next
  case False
  let ?tb = "tb\<lparr>tb_targets := filter (\<lambda>(t, _). ID t \<noteq> tid) (tb_targets tb),
       tb_checks := filter (\<lambda>c. row_target c \<noteq> tid) (tb_checks tb)\<rparr>"
  have ids: "target_ids ?tb = filter (\<lambda>y. y \<noteq> tid) (target_ids tb)"
    by (simp add: target_ids_def ids_without)
  from False assms(1,3) have r: "r = (if n_rows tid tb = 0 then Some ErrTargetNotFound else None)" "tb' = ?tb"
    by (auto simp: DeleteTarget_def sql_delete_target_def n_rows_def split: if_splits)
  show ?thesis
  proof (cases "n_rows tid tb = 0")
    case True
    then have "filter (\<lambda>y. y \<noteq> tid) (target_ids tb) = target_ids tb"
      using n_rows_ok [OF assms(2)] by (auto simp: filter_id_conv split: if_splits)
    with True r ids show ?thesis by simp
  next
    case False
    with r ids n_rows_ok [OF assms(2), of tid] show ?thesis by (simp split: if_splits)
  qed
qed

lemma Record_effect: "RecordCheck fault t c ms msg at tb = (e, tb') \<Longrightarrow> target_ids tb' = target_ids tb"
  by (auto simp: RecordCheck_def sql_insert_check_def Let_def split: option.splits sum.splits if_splits)

lemma sys_views [simp]:
  "ls_tables (set_req i r s) = ls_tables s" "ls_tables (set_mon m s) = ls_tables s"
  "ls_tables (show_view n v s) = ls_tables s" "ls_tables (set_tables tb s) = tb"
  "ls_used (set_req i r s) = ls_used s" "ls_used (set_mon m s) = ls_used s"
  "ls_used (show_view n v s) = ls_used s" "ls_used (set_tables tb s) = ls_used s"
  "ls_shown (set_req i r s) = ls_shown s" "ls_shown (set_mon m s) = ls_shown s"
  "ls_shown (show_view n v s) = ls_shown s @ [(n, v)]" "ls_shown (set_tables tb s) = ls_shown s"
  "ls_reqs (set_req i r s) = (ls_reqs s)[i := r]" "ls_reqs (set_mon m s) = ls_reqs s"
  "ls_reqs (show_view n v s) = ls_reqs s" "ls_reqs (set_tables tb s) = ls_reqs s"
  "ls_mon (set_req i r s) = ls_mon s" "ls_mon (set_mon m s) = m"
  "ls_mon (show_view n v s) = ls_mon s" "ls_mon (set_tables tb s) = ls_mon s"
  by (simp_all add: live_setters)

lemma n_rows_cong: "target_ids tb' = target_ids tb \<Longrightarrow> n_rows x tb' = n_rows x tb"
  by (simp add: n_rows_def)

text \<open>A step that changes neither ids nor announcements keeps the invariant.\<close>

lemma sys_inv_frame:
  assumes "sys_inv tb0 s" and "tables_ok (ls_tables t)" and "target_ids (ls_tables t) = target_ids (ls_tables s)"
    and "ls_used t = ls_used s" and "\<And>x. ever_added x t = ever_added x s" and "\<And>x. ever_removed x t = ever_removed x s"
  shows "sys_inv tb0 t"
  using assms n_rows_cong [OF assms(3)] by (simp add: sys_inv_def)

lemma ever_update:
  assumes "i < length (ls_reqs s)" and "ls_reqs t = (ls_reqs s)[i := r]" and "ls_shown t = ls_shown s @ vs"
  shows "ever_added x t + (if owes_added x (ls_reqs s ! i) then 1 else 0) =
      ever_added x s + (if owes_added x r then 1 else 0) + count_of (shows_added x) vs"
    and "ever_removed x t + (if owes_removed x (ls_reqs s ! i) then 1 else 0) =
      ever_removed x s + (if owes_removed x r then 1 else 0) + count_of (shows_removed x) vs"
  using count_of_update [OF assms(1), of "owes_added x" r] count_of_update [OF assms(1), of "owes_removed x" r]
  by (simp_all add: ever_added_def ever_removed_def assms(2,3))

lemma arrival_owes_nothing:
  "\<not> owes_added x (create_arrives ok url)" "\<not> owes_removed x (create_arrives ok url)"
  "\<not> owes_added x (delete_arrives tid)" "\<not> owes_removed x (delete_arrives tid)"
  by (simp_all add: create_arrives_def delete_arrives_def split: sum.split)

lemma sys_inv_step:
  assumes step: "sys_step quote uuid_in percentile s e t" and inv: "sys_inv tb0 s"
  shows "sys_inv tb0 t"
  using step
proof (cases rule: sys_step.cases)
  case (post_arrives form_ok form_url)
  with inv arrival_owes_nothing show ?thesis
    by (intro sys_inv_frame [OF inv]) (simp_all add: ever_added_def ever_removed_def sys_inv_def)
next
  case (post_stores i raw newid fault now r tb)
  note c = Create_effect [OF post_stores(6)]
  have ok: "tables_ok tb" using CreateTarget_ok [of "ls_tables s" fault newid now raw] post_stores(6) inv
    by (simp add: sys_inv_def)
  note u = ever_update [OF post_stores(3), of t "create_stored r" "[]"]
  show ?thesis
  proof (cases r)
    case (Inl err)
    with c ok inv u post_stores show ?thesis
      by (intro sys_inv_frame [OF inv]) (simp_all add: new_ids_def create_stored_def)
  next
    case (Inr x)
    with c have x: "ID x = newid" "target_ids tb = target_ids (ls_tables s) @ [newid]" by simp_all
    have rows: "n_rows y tb = n_rows y (ls_tables s) + (if newid = y then 1 else 0)" for y
      by (simp add: n_rows_def x(2))
    have "ever_added y t = ever_added y s + (if newid = y then 1 else 0)" "ever_removed y t = ever_removed y s" for y
      using u [of y] post_stores(2,4) Inr x(1) by (simp_all add: create_stored_def split: if_splits)
    moreover have "account_ok (n_rows y tb0) (n_rows y (ls_tables s) + (if newid = y then 1 else 0))
        (y \<in> set (newid # ls_used s)) (ever_added y s + (if newid = y then 1 else 0)) (ever_removed y s)" for y
      using sys_inv_account [OF inv, of y] post_stores(5) by (auto simp: account_ok_def split: if_splits)
    ultimately show ?thesis
      using inv ok post_stores(2) Inr x by (auto simp: sys_inv_def new_ids_def rows)
  qed
next
  case (post_publishes i x)
  note u = ever_update [OF post_publishes(3), of t "Answered StatusOK" "[(''target_added'', AddedView x)]"]
  from post_publishes u inv show ?thesis
    by (intro sys_inv_frame [OF inv]) (simp_all add: sys_inv_def split: if_splits)
next
  case (delete_arrives tid)
  with inv arrival_owes_nothing show ?thesis
    by (intro sys_inv_frame [OF inv]) (simp_all add: ever_added_def ever_removed_def sys_inv_def)
next
  case (delete_stores i tid fault r tb)
  have oks: "tables_ok (ls_tables s)" using inv by (simp add: sys_inv_def)
  note d = Delete_effect [OF delete_stores(6) oks delete_stores(5)]
  have ok: "tables_ok tb" using DeleteTarget_ok [OF oks, of uuid_in fault tid] delete_stores(6) by simp
  note u = ever_update [OF delete_stores(3), of t "delete_stored tid r" "[]"]
  show ?thesis
  proof (cases r)
    case (Some err)
    with d ok inv u delete_stores show ?thesis
      by (intro sys_inv_frame [OF inv]) (simp_all add: delete_stored_def)
  next
    case None
    with d have d': "n_rows tid (ls_tables s) = 1" "target_ids tb = filter (\<lambda>y. y \<noteq> tid) (target_ids (ls_tables s))"
      by simp_all
    have rows: "n_rows y tb + (if tid = y then 1 else 0) = n_rows y (ls_tables s)" for y
      using d'(1) n_rows_ok [OF ok, of y] n_rows_ok [OF oks, of y] by (auto simp: d'(2) split: if_splits)
    have e: "ever_added y t = ever_added y s" "ever_removed y t = ever_removed y s + (if tid = y then 1 else 0)" for y
      using u [of y] delete_stores(2,4) None by (simp_all add: delete_stored_def split: if_splits)
    have "account_ok (n_rows y tb0) (n_rows y tb) (y \<in> set (ls_used s)) (ever_added y s) (ever_removed y t)" for y
      using sys_inv_account [OF inv, of y] rows [of y] e(2) [of y] by (simp add: account_ok_def)
    moreover have "set (target_ids tb) \<subseteq> set (ls_used s)" using inv by (auto simp: d'(2) sys_inv_def)
    ultimately show ?thesis using inv ok e(1) delete_stores(2) by (simp add: sys_inv_def)
  qed
next
  case (delete_publishes i tid)
  note u = ever_update [OF delete_publishes(3), of t "Answered StatusOK" "[(''target_removed'', RemovedView tid)]"]
  from delete_publishes u inv show ?thesis
    by (intro sys_inv_frame [OF inv]) (simp_all add: sys_inv_def split: if_splits)
next
  case (round_records r rs ts fault err tb)
  have "tables_ok tb"
    using RecordCheck_ok [of "ls_tables s" fault "ID (Target r)" "StatusCode r" "sint (Milliseconds (Duration r))"
        "err_msg quote r" "CheckedAt r"] round_records(4) inv
    by (simp add: sys_inv_def)
  with Record_effect [OF round_records(4)] round_records show ?thesis
    by (intro sys_inv_frame [OF inv]) (simp_all add: ever_added_def ever_removed_def)
qed (use inv in \<open>intro sys_inv_frame [OF inv], simp_all add: ever_added_def ever_removed_def sys_inv_def stats_view_def\<close>)

lemma sys_init_inv: "sys_init tb0 s \<Longrightarrow> sys_inv tb0 s"
  by (auto simp: sys_init_def sys_inv_def account_ok_def ever_added_def ever_removed_def n_rows_ok)

interpretation dashboard: invariant_system "sys_init tb0" "sys_step quote uuid_in percentile" "sys_inv tb0"
  for tb0 quote uuid_in percentile
  by unfold_locales (auto intro: sys_init_inv sys_inv_step)

section \<open>What the tabs are told\<close>

text \<open>No request is between its change of the database and its publication.\<close>

fun owes :: "request \<Rightarrow> bool" where
  "owes (CreateStored t) = True"
| "owes (DeleteStored tid) = True"
| "owes r = False"

definition no_debts :: "live_sys \<Rightarrow> bool" where
  "no_debts s \<longleftrightarrow> \<not> list_ex owes (ls_reqs s)"

lemma no_debts_owes:
  assumes "no_debts s"
  shows "count_of (owes_added x) (ls_reqs s) = 0" and "count_of (owes_removed x) (ls_reqs s) = 0"
proof -
  have "\<not> owes r \<Longrightarrow> \<not> owes_added x r \<and> \<not> owes_removed x r" for r by (cases r) simp_all
  with assms show "count_of (owes_added x) (ls_reqs s) = 0" "count_of (owes_removed x) (ls_reqs s) = 0"
    by (auto simp: no_debts_def count_of_zero list_ex_iff)
qed

lemma count_of_ex: "(0 < count_of P xs) \<longleftrightarrow> list_ex P xs"
  by (simp add: count_of_def list_ex_iff filter_empty_conv)

end
