(* ===== verification/Live_Runs.thy ===== *)
theory Live_Runs
  imports Live_System
begin

text \<open>
  Properties of the interleaved dashboard: the account of the announcements, two
  orders of events that overlapping requests and rounds can produce, and the
  agreement of an undisturbed request or round with the sequential functions.
\<close>

section \<open>The account\<close>


section \<open>Steps, as equations\<close>

inductive_simps post_arrives_iff: "sys_step quote uuid_in percentile s (PostArrives form_ok form_url) t"
inductive_simps post_stores_iff: "sys_step quote uuid_in percentile s (PostStores i fault newid now) t"
inductive_simps post_publishes_iff: "sys_step quote uuid_in percentile s (PostPublishes i) t"
inductive_simps delete_arrives_iff: "sys_step quote uuid_in percentile s (DeleteArrives tid) t"
inductive_simps delete_stores_iff: "sys_step quote uuid_in percentile s (DeleteStores i fault) t"
inductive_simps delete_publishes_iff: "sys_step quote uuid_in percentile s (DeletePublishes i) t"
inductive_simps round_lists_iff: "sys_step quote uuid_in percentile s (RoundLists fault) t"
inductive_simps round_checks_iff: "sys_step quote uuid_in percentile s (RoundChecks rs) t"
inductive_simps round_publishes_iff: "sys_step quote uuid_in percentile s RoundPublishes t"
inductive_simps round_records_iff: "sys_step quote uuid_in percentile s (RoundRecords fault) t"
inductive_simps round_stats_iff: "sys_step quote uuid_in percentile s (RoundStats fault now) t"
inductive_simps round_pub_stats_iff: "sys_step quote uuid_in percentile s RoundPubStats t"
inductive_simps round_ends_iff: "sys_step quote uuid_in percentile s RoundEnds t"

lemmas sys_iffs =
  post_arrives_iff post_stores_iff post_publishes_iff delete_arrives_iff delete_stores_iff delete_publishes_iff
  round_lists_iff round_checks_iff round_publishes_iff round_records_iff round_stats_iff round_pub_stats_iff
  round_ends_iff

section \<open>Orders that can happen\<close>

definition empty_dashboard :: live_sys where
  "empty_dashboard = \<lparr>ls_tables = InitSQL, ls_used = [], ls_shown = [], ls_reqs = [], ls_mon = MonIdle\<rparr>"

lemma empty_dashboard_init: "sys_init InitSQL empty_dashboard"
  by (simp add: sys_init_def empty_dashboard_def) (simp add: InitSQL_def target_ids_def)

lemma demo_url: "create_arrives True ''http://a/'' = CreateReq ''http://a/''"
proof -
  have "validateTargetURL ''http://a/'' = Inr ''http://a/''" by code_simp
  then show ?thesis by (simp add: create_arrives_def)
qed

definition demo_target :: target where
  "demo_target = \<lparr>ID = ''1'', URL = ''http://a/''\<rparr>"

lemma swapped_run:
  "\<exists>s. run (sys_step quote Some percentile) empty_dashboard
       [PostArrives True ''http://a/'', PostStores 0 None ''1'' 0, DeleteArrives ''1'', DeleteStores 1 None,
        DeletePublishes 1, PostPublishes 0] s \<and>
     no_debts s \<and> target_ids (ls_tables s) = [] \<and>
     ls_shown s = [(''target_removed'', RemovedView ''1''), (''target_added'', AddedView demo_target)]"
  by (simp add: run_Cons_iff sys_iffs demo_url empty_dashboard_def InitSQL_def CreateTarget_def sql_insert_target_def
      DeleteTarget_def sql_delete_target_def target_ids_def target_urls_def create_stored_def delete_arrives_def
      delete_stored_def new_ids_def live_setters no_debts_def demo_target_def Let_def)

lemma early_check_run:
  assumes "Target r = demo_target"
  shows "\<exists>s. run (sys_step quote uuid_in percentile) empty_dashboard
       [PostArrives True ''http://a/'', PostStores 0 None ''1'' 0, RoundLists None, RoundChecks [r],
        RoundPublishes, PostPublishes 0] s \<and>
     ls_shown s = [(''check'', StatusView (checkStatusFromResult quote r)), (''target_added'', AddedView demo_target)]"
  using assms
  by (simp add: run_Cons_iff sys_iffs demo_url empty_dashboard_def InitSQL_def CreateTarget_def sql_insert_target_def
      target_ids_def target_urls_def create_stored_def new_ids_def live_setters ListTargets_def listed_next_def
      demo_target_def Let_def)


text \<open>
  C31. The order of the announcements is not the order of the changes. Both happen on an
  empty dashboard: a target is deleted while its creation is about to be announced,
  so that every tab is told to remove the row and then to append it, although the
  target is gone; and a round checks a new target and publishes the result before
  the row it belongs to has been announced, so that the tabs drop the result.
\<close>

theorem announcements_may_swap:
  "\<exists>es s fs t. run (sys_step quote Some percentile) empty_dashboard es s \<and> no_debts s \<and>
     target_ids (ls_tables s) = [] \<and>
     map fst (ls_shown s) = [''target_removed'', ''target_added''] \<and> snd (ls_shown s ! 0) = RemovedView (ID demo_target) \<and>
     snd (ls_shown s ! 1) = AddedView demo_target \<and>
     run (sys_step quote Some percentile) empty_dashboard fs t \<and>
     map fst (ls_shown t) = [''check'', ''target_added''] \<and> snd (ls_shown t ! 1) = AddedView demo_target"
proof -
  let ?r = "failed_result demo_target 0 (CtxE Canceled) 0"
  obtain es s where s: "run (sys_step quote Some percentile) empty_dashboard es s" "no_debts s"
    "target_ids (ls_tables s) = []"
    "ls_shown s = [(''target_removed'', RemovedView ''1''), (''target_added'', AddedView demo_target)]"
    using swapped_run by blast
  obtain fs t where t: "run (sys_step quote Some percentile) empty_dashboard fs t"
    "ls_shown t = [(''check'', StatusView (checkStatusFromResult quote ?r)), (''target_added'', AddedView demo_target)]"
    using early_check_run [of ?r quote Some percentile] by auto
  from s t show ?thesis
    by (intro exI [of _ es] exI [of _ s] exI [of _ fs] exI [of _ t]) (simp add: demo_target_def)
qed

section \<open>Undisturbed requests and rounds\<close>

definition rendered :: "renderer \<Rightarrow> (string \<times> view) list \<Rightarrow> event list" where
  "rendered render vs = concat (map (\<lambda>(n, v). publish_view render False n v) vs)"

lemma rendered_append [simp]: "rendered render (vs @ ws) = rendered render vs @ rendered render ws"
  by (simp add: rendered_def)

lemma rendered_Nil [simp]: "rendered render [] = []"
  by (simp add: rendered_def)

lemma rendered_one [simp]: "rendered render [(n, v)] = publish_view render False n v"
  by (simp add: rendered_def)

text \<open>A state of the system and one of the sequential round say the same.\<close>

definition agrees :: "renderer \<Rightarrow> live_sys \<Rightarrow> live \<Rightarrow> bool" where
  "agrees render s w \<longleftrightarrow> ls_tables s = lv_tables w \<and> rendered render (ls_shown s) = lv_events w"

lemma sys_run_cons: "sys_step quote uuid_in percentile s e t \<Longrightarrow> run (sys_step quote uuid_in percentile) t es u \<Longrightarrow>
    run (sys_step quote uuid_in percentile) s (e # es) u"
  by (rule run_cons)

lemma round_results_alone:
  assumes "ls_mon s = MonResults rs ts" and "agrees render s w"
  shows "\<exists>es t. run (sys_step quote uuid_in percentile) s es t \<and> ls_mon t = MonResults [] ts \<and>
     agrees render t (record_results quote True (live_ops quote render percentile faults now outcome) rs w) \<and>
     ls_reqs t = ls_reqs s"
  using assms
proof (induction rs arbitrary: s w)
  case Nil
  then show ?case by (intro exI [of _ "[]"] exI [of _ s]) simp
next
  case (Cons r rs)
  let ?ops = "live_ops quote render percentile faults now outcome"
  let ?w1 = "op_pub_check ?ops r w"
  let ?s1 = "set_mon (MonRecord r rs ts) (show_view ''check'' (StatusView (checkStatusFromResult quote r)) s)"
  obtain e tb where rec: "RecordCheck (faults (lv_calls w)) (ID (Target r)) (StatusCode r)
      (sint (Milliseconds (Duration r))) (err_msg quote r) (CheckedAt r) (lv_tables w) = (e, tb)" by force
  let ?w2 = "count_call (?w1\<lparr>lv_tables := tb\<rparr>)"
  let ?s2 = "set_mon (MonResults rs ts) (set_tables tb ?s1)"
  have w: "record_results quote True ?ops (r # rs) w = record_results quote True ?ops rs ?w2"
    using rec by (simp add: live_ops_def Let_def)
  have "sys_step quote uuid_in percentile s RoundPublishes ?s1" using Cons.prems(1) by (simp add: round_publishes_iff)
  moreover have "sys_step quote uuid_in percentile ?s1 (RoundRecords (faults (lv_calls w))) ?s2"
    by (rule sys_step.round_records) (use rec Cons.prems(2) in \<open>simp_all add: agrees_def\<close>)
  moreover have "agrees render ?s2 ?w2"
    using Cons.prems(2) by (simp add: agrees_def PublishCheck_def count_call_def)
  with Cons.IH [of ?s2 ?w2] obtain es t where "run (sys_step quote uuid_in percentile) ?s2 es t"
    "ls_mon t = MonResults [] ts" "agrees render t (record_results quote True ?ops rs ?w2)" "ls_reqs t = ls_reqs s"
    by auto
  ultimately show ?case unfolding w by (blast intro: sys_run_cons)
qed

lemma round_stats_alone:
  assumes "ls_mon s = MonResults [] ts \<or> ls_mon s = MonStats ts" and "agrees render s w"
  shows "\<exists>es t. run (sys_step quote uuid_in percentile) s es t \<and> ls_mon t = MonIdle \<and>
     agrees render t (publish_all_stats (live_ops quote render percentile faults now outcome) ts w) \<and>
     ls_reqs t = ls_reqs s"
  using assms
proof (induction ts arbitrary: s w)
  case Nil
  then have "sys_step quote uuid_in percentile s RoundEnds (set_mon MonIdle s)" by (simp add: round_ends_iff)
  then have "run (sys_step quote uuid_in percentile) s [RoundEnds] (set_mon MonIdle s)" by (rule run_single)
  then show ?case
    using Nil by (intro exI [of _ "[RoundEnds]"] exI [of _ "set_mon MonIdle s"]) (simp add: agrees_def)
next
  case (Cons x ts)
  let ?ops = "live_ops quote render percentile faults now outcome"
  define st where "st = RecentStats percentile (faults (lv_calls w)) now (ID x) (ls_tables s)"
  let ?s1 = "set_mon (stats_next st ts) s"
  have op: "op_stats ?ops (ID x) w = (st, count_call w)"
    using Cons.prems(2) by (simp add: live_ops_def st_def agrees_def)
  have one: "sys_step quote uuid_in percentile s (RoundStats (faults (lv_calls w)) now) ?s1"
    by (rule sys_step.round_stats [OF Cons.prems(1) refl]) (simp add: st_def)
  show ?case
  proof (cases st)
    case (Inl e)
    have "agrees render ?s1 (count_call w)" using Cons.prems(2) by (simp add: agrees_def count_call_def)
    with Cons.IH [of ?s1 "count_call w"] Inl obtain es t where "run (sys_step quote uuid_in percentile) ?s1 es t"
      "ls_mon t = MonIdle" "agrees render t (publish_all_stats ?ops ts (count_call w))" "ls_reqs t = ls_reqs s"
      by (auto simp: stats_next_def)
    with sys_run_cons [OF one] op Inl show ?thesis
      by (intro exI [of _ "RoundStats (faults (lv_calls w)) now # es"] exI [of _ t]) simp
  next
    case (Inr y)
    let ?s2 = "set_mon (MonStats ts) (show_view ''stats'' (stats_view y) ?s1)"
    let ?w2 = "op_pub_stats ?ops (TargetID y) (TotalChecks y) (Failures y) (P50LatencyMS y) (P99LatencyMS y) (count_call w)"
    have two: "sys_step quote uuid_in percentile ?s1 RoundPubStats ?s2"
      by (rule sys_step.round_pub_stats) (simp add: Inr stats_next_def)
    have "agrees render ?s2 ?w2"
      using Cons.prems(2) by (simp add: agrees_def count_call_def PublishStats_def stats_view_def)
    with Cons.IH [of ?s2 ?w2] obtain es t where "run (sys_step quote uuid_in percentile) ?s2 es t"
      "ls_mon t = MonIdle" "agrees render t (publish_all_stats ?ops ts ?w2)" "ls_reqs t = ls_reqs s"
      by auto
    with sys_run_cons [OF one sys_run_cons [OF two]] op Inr show ?thesis
      by (intro exI [of _ "RoundStats (faults (lv_calls w)) now # RoundPubStats # es"] exI [of _ t]) simp
  qed
qed

lemma round_alone:
  assumes "ls_mon s = MonIdle" and "agrees render s w" and "\<And>ts. map Target (outcome ts) = ts"
  shows "\<exists>es t. run (sys_step quote uuid_in percentile) s es t \<and> ls_mon t = MonIdle \<and> ls_reqs t = ls_reqs s \<and>
     agrees render t (tick quote True True (live_ops quote render percentile faults now outcome) w)"
proof -
  let ?ops = "live_ops quote render percentile faults now outcome"
  define l where "l = ListTargets (map_option QueryFails (faults (lv_calls w))) (ls_tables s)"
  let ?s1 = "set_mon (listed_next l) s"
  have op: "op_list ?ops w = (l, count_call w)" using assms(2) by (simp add: l_def agrees_def)
  have one: "sys_step quote uuid_in percentile s (RoundLists (map_option QueryFails (faults (lv_calls w)))) ?s1"
    by (rule sys_step.round_lists [OF assms(1)]) (simp add: l_def)
  show ?thesis
  proof (cases l)
    case (Inl e)
    with op assms(2) show ?thesis
      by (intro exI [of _ "[RoundLists (map_option QueryFails (faults (lv_calls w)))]"] exI [of _ ?s1])
        (simp add: sys_run_cons [OF one] tick_def listed_next_def agrees_def count_call_def)
  next
    case (Inr ts)
    let ?s2 = "set_mon (MonResults (outcome ts) ts) ?s1"
    have two: "sys_step quote uuid_in percentile ?s1 (RoundChecks (outcome ts)) ?s2"
      by (rule sys_step.round_checks) (simp_all add: Inr listed_next_def assms(3))
    have a2: "agrees render ?s2 (count_call w)" using assms(2) by (simp add: agrees_def count_call_def)
    from round_results_alone [OF _ a2, of "outcome ts" ts quote uuid_in percentile faults now outcome] obtain es u where
      u: "run (sys_step quote uuid_in percentile) ?s2 es u" "ls_mon u = MonResults [] ts"
      "agrees render u (record_results quote True ?ops (outcome ts) (count_call w))" "ls_reqs u = ls_reqs s" by auto
    from round_stats_alone [OF _ u(3), of ts quote uuid_in percentile faults now outcome] u(2) obtain fs t where
      t: "run (sys_step quote uuid_in percentile) u fs t" "ls_mon t = MonIdle"
      "agrees render t (publish_all_stats ?ops ts (record_results quote True ?ops (outcome ts) (count_call w)))"
      "ls_reqs t = ls_reqs u" by auto
    have "tick quote True True ?ops w = publish_all_stats ?ops ts (record_results quote True ?ops (outcome ts) (count_call w))"
      using op Inr by (simp add: tick_def Let_def)
    with t u(4) sys_run_cons [OF one sys_run_cons [OF two run_append [OF u(1) t(1)]]] show ?thesis by metis
  qed
qed

lemma create_alone:
  assumes "ls_mon s = MonIdle" and "newid \<notin> set (ls_used s)"
    and "HandleCreateTarget render False (CreateTarget fault newid now') form_ok form_url new_response (ls_tables s)
       = (resp, tb, evs)"
  shows "\<exists>es t. run (sys_step quote uuid_in percentile) s es t \<and> ls_mon t = MonIdle \<and>
     ls_reqs t = ls_reqs s @ [Answered (final_status resp)] \<and> ls_tables t = tb \<and>
     rendered render (ls_shown t) = rendered render (ls_shown s) @ evs"
proof -
  let ?s3 = "s\<lparr>ls_reqs := ls_reqs s @ [create_arrives form_ok form_url]\<rparr>" and ?i = "length (ls_reqs s)"
  have arrive: "sys_step quote uuid_in percentile s (PostArrives form_ok form_url) ?s3" by (rule sys_step.post_arrives)
  show ?thesis
  proof (cases "if form_ok then validateTargetURL form_url else Inl []")
    case (Inl msg)
    with assms(3) have "final_status resp = StatusBadRequest" "tb = ls_tables s" "evs = []"
      by (auto simp: HandleCreateTarget_def split: if_splits)
    moreover have "create_arrives form_ok form_url = Answered StatusBadRequest"
      using Inl by (simp add: create_arrives_def split: if_splits)
    ultimately show ?thesis
      using assms(1) by (intro exI [of _ "[PostArrives form_ok form_url]"] exI [of _ ?s3])
        (simp add: sys_run_cons [OF arrive])
  next
    case (Inr raw)
    then have v: "form_ok" "validateTargetURL form_url = Inr raw" by (simp_all split: if_splits)
    obtain r tb1 where c: "CreateTarget fault newid now' raw (ls_tables s) = (r, tb1)" by force
    let ?s4 = "set_req ?i (create_stored r) (set_tables tb1 (?s3\<lparr>ls_used := new_ids r @ ls_used s\<rparr>))"
    have store: "sys_step quote uuid_in percentile ?s3 (PostStores ?i fault newid now') ?s4"
      using sys_step.post_stores [of ?i ?s3 raw newid fault now' r tb1] c assms(2)
      by (simp add: create_arrives_def v)
    have tb: "tb = tb1" using assms(3) c v by (auto simp: HandleCreateTarget_def split: sum.splits if_splits)
    show ?thesis
    proof (cases r)
      case (Inl e)
      with assms(3) c v have "final_status resp = (if e = ErrTargetExists then StatusConflict else StatusInternalServerError)"
        "evs = []" by (auto simp: HandleCreateTarget_def split: if_splits)
      with Inl tb assms(1) show ?thesis
        by (intro exI [of _ "[PostArrives form_ok form_url, PostStores ?i fault newid now']"] exI [of _ ?s4])
          (simp add: sys_run_cons [OF arrive] sys_run_cons [OF store] create_stored_def live_setters)
    next
      case (Inr x)
      let ?s5 = "set_req ?i (Answered StatusOK) (show_view ''target_added'' (AddedView x) ?s4)"
      have pub: "sys_step quote uuid_in percentile ?s4 (PostPublishes ?i) ?s5"
        by (rule sys_step.post_publishes) (simp_all add: Inr create_stored_def)
      from Inr assms(3) c v have "final_status resp = StatusOK" "evs = publish_view render False ''target_added'' (AddedView x)"
        by (auto simp: HandleCreateTarget_def PublishTargetAdded_def)
      with tb assms(1) show ?thesis
        by (intro exI [of _ "[PostArrives form_ok form_url, PostStores ?i fault newid now', PostPublishes ?i]"] exI [of _ ?s5])
          (simp add: sys_run_cons [OF arrive] sys_run_cons [OF store] sys_run_cons [OF pub])
    qed
  qed
qed



end
