(* ===== verification/Tab_View.thy ===== *)
theory Tab_View
  imports Live_Runs
begin

text \<open>
  The rows a browser tab shows: the page of \<open>HandleIndex\<close> lists the targets when it is
  rendered, and from its subscription on the tab appends the row of every
  \<open>target_added\<close> event and removes the row of every \<open>target_removed\<close> event, in the
  order of the publications. (What can be lost between hub and tab is the subject of
  \<open>Sse_Stream\<close>; here nothing is.)
\<close>

section \<open>Rows\<close>

fun apply_view :: "string \<times> view \<Rightarrow> string list \<Rightarrow> string list" where
  "apply_view (n, AddedView t) rows = rows @ [ID t]"
| "apply_view (n, RemovedView tid) rows = filter (\<lambda>x. x \<noteq> tid) rows"
| "apply_view (n, v) rows = rows"

definition tab_rows :: "store_err + target list \<Rightarrow> (string \<times> view) list \<Rightarrow> string list" where
  "tab_rows page evs = fold apply_view evs (case page of Inl _ \<Rightarrow> [] | Inr ts \<Rightarrow> map ID ts)"

text \<open>An id is withdrawn before it is announced.\<close>

fun swapped :: "string \<Rightarrow> (string \<times> view) list \<Rightarrow> bool" where
  "swapped x [] = False"
| "swapped x (e # es) \<longleftrightarrow> shows_removed x e \<and> list_ex (shows_added x) es \<or> swapped x es"

lemma apply_view_member:
  "x \<in> set (apply_view e rows) \<longleftrightarrow> shows_added x e \<or> x \<in> set rows \<and> \<not> shows_removed x e"
  by (cases "(e, rows)" rule: apply_view.cases) auto

lemma no_both: "shows_added x e \<Longrightarrow> \<not> shows_removed x e"
  by (cases "(x, e)" rule: shows_added.cases) simp_all

lemma fold_rows:
  "(if x \<in> set rows then 1 else 0) + count_of (shows_added x) evs \<le> 1 \<Longrightarrow> \<not> swapped x evs \<Longrightarrow>
     x \<in> set (fold apply_view evs rows) \<longleftrightarrow>
       (x \<in> set rows \<or> list_ex (shows_added x) evs) \<and> \<not> list_ex (shows_removed x) evs"
proof (induction evs arbitrary: rows)
  case (Cons e evs)
  have member: "x \<in> set (apply_view e rows) \<longleftrightarrow> shows_added x e \<or> x \<in> set rows \<and> \<not> shows_removed x e"
    by (rule apply_view_member)
  have "(if x \<in> set (apply_view e rows) then 1 else 0) + count_of (shows_added x) evs \<le> 1"
    using Cons.prems(1) member by (auto split: if_splits)
  from Cons.IH [OF this] Cons.prems(2) have
    "x \<in> set (fold apply_view (e # evs) rows) \<longleftrightarrow>
      (x \<in> set (apply_view e rows) \<or> list_ex (shows_added x) evs) \<and> \<not> list_ex (shows_removed x) evs"
    by simp
  also have "\<dots> \<longleftrightarrow> (x \<in> set rows \<or> list_ex (shows_added x) (e # evs)) \<and> \<not> list_ex (shows_removed x) (e # evs)"
    using member no_both [of x e] Cons.prems(2) by auto
  finally show ?case .
qed simp

section \<open>A quiet connection\<close>

lemma shown_grows:
  assumes "sys_step quote uuid_in percentile s e t"
  shows "\<exists>vs. ls_shown t = ls_shown s @ vs"
  using assms by (cases rule: sys_step.cases) simp_all

lemma shown_run:
  assumes "run (sys_step quote uuid_in percentile) s es t"
  shows "ls_shown t = ls_shown s @ drop (length (ls_shown s)) (ls_shown t)"
proof -
  have "\<exists>vs. ls_shown t = ls_shown s @ vs"
    using assms
  proof (induction rule: run.induct)
    case (run_cons s e t es u)
    from shown_grows [OF run_cons.hyps(1)] run_cons.IH show ?case by auto
  qed simp
  then show ?thesis by auto
qed

lemma listed_ids: "ListTargets None tb = Inr ts \<Longrightarrow> set (map ID ts) = set (target_ids tb)"
  by (clarsimp simp: ListTargets_def target_ids_def image_comp)

text \<open>
  A tab that connects in a quiet moment stays right. Render the page and subscribe
  while no request owes an announcement, then let requests and rounds interleave in
  any order and with any faults. Whenever again none is owed, the tab shows the row
  of an id exactly when the id is stored, for every id whose withdrawal was not
  published before its announcement.
\<close>

lemma tab_shows_targets:
  assumes "sys_init tb0 s0" and "run (sys_step quote uuid_in percentile) s0 es s" and "no_debts s"
    and "ListTargets None (ls_tables s) = Inr page"
    and "run (sys_step quote uuid_in percentile) s fs t" and "no_debts t"
    and "\<not> swapped x (drop (length (ls_shown s)) (ls_shown t))"
  shows "x \<in> set (tab_rows (Inr page) (drop (length (ls_shown s)) (ls_shown t))) \<longleftrightarrow> x \<in> set (target_ids (ls_tables t))"
proof -
  let ?new = "drop (length (ls_shown s)) (ls_shown t)"
  define a r where "a = count_of (shows_added x) ?new" and "r = count_of (shows_removed x) ?new"
  have inv: "sys_inv tb0 s" "sys_inv tb0 t"
    using dashboard.inv_reachable [OF assms(1)] assms(2) run_append [OF assms(2,5)] by blast+
  then have ok: "tables_ok (ls_tables s)" "tables_ok (ls_tables t)" by (simp_all add: sys_inv_def)
  have "count_of (shows_added x) (ls_shown t) = count_of (shows_added x) (ls_shown s) + a"
    "count_of (shows_removed x) (ls_shown t) = count_of (shows_removed x) (ls_shown s) + r"
    using shown_run [OF assms(5)] by (metis a_def count_of_append, metis r_def count_of_append)
  then have acc: "n_rows x (ls_tables s) + a = n_rows x (ls_tables t) + r" "n_rows x (ls_tables s) + a \<le> 1"
    using sys_inv_account [OF inv(1), of x] sys_inv_account [OF inv(2), of x]
      no_debts_owes [OF assms(3), of x] no_debts_owes [OF assms(6), of x]
    by (auto simp: account_ok_def ever_added_def ever_removed_def split: if_splits)
  have page: "set (map ID page) = set (target_ids (ls_tables s))" by (rule listed_ids [OF assms(4)])
  have "x \<in> set (tab_rows (Inr page) ?new) \<longleftrightarrow> (x \<in> set (map ID page) \<or> 0 < a) \<and> \<not> 0 < r"
    using fold_rows [of x "map ID page" ?new] acc(2) assms(7) n_rows_ok [OF ok(1), of x]
    unfolding tab_rows_def page [symmetric] a_def r_def count_of_ex by (simp split: if_splits)
  also have "\<dots> \<longleftrightarrow> x \<in> set (target_ids (ls_tables t))"
    using acc n_rows_ok [OF ok(1), of x] n_rows_ok [OF ok(2), of x] page by (auto split: if_splits)
  finally show ?thesis .
qed

section \<open>A connection that is not quiet\<close>

lemma missed_run:
  assumes "Target r = demo_target"
  shows "\<exists>s t. run (sys_step quote uuid_in percentile) empty_dashboard
         [PostArrives True ''http://a/'', PostStores 0 None ''1'' 0, PostPublishes 0] s \<and>
       run (sys_step quote uuid_in percentile) s [RoundLists None, RoundChecks [r], RoundPublishes] t \<and>
       no_debts s \<and> no_debts t \<and> target_ids (ls_tables t) = [''1''] \<and>
       drop (length (ls_shown s)) (ls_shown t) = [(''check'', StatusView (checkStatusFromResult quote r))]"
  using assms
  by (simp add: run_Cons_iff sys_iffs demo_url empty_dashboard_def InitSQL_def CreateTarget_def sql_insert_target_def
      target_ids_def target_urls_def create_stored_def new_ids_def live_setters ListTargets_def listed_next_def
      no_debts_def demo_target_def Let_def)

lemma doubled_run:
  "\<exists>s t. run (sys_step quote uuid_in percentile) empty_dashboard
         [PostArrives True ''http://a/'', PostStores 0 None ''1'' 0] s \<and>
       run (sys_step quote uuid_in percentile) s [PostPublishes 0] t \<and>
       ListTargets None (ls_tables s) = Inr [demo_target] \<and> no_debts t \<and> target_ids (ls_tables t) = [''1''] \<and>
       drop (length (ls_shown s)) (ls_shown t) = [(''target_added'', AddedView demo_target)]"
  by (simp add: run_Cons_iff sys_iffs demo_url empty_dashboard_def InitSQL_def CreateTarget_def sql_insert_target_def
      target_ids_def target_urls_def create_stored_def new_ids_def live_setters ListTargets_def
      no_debts_def demo_target_def Let_def)

text \<open>
  C33. Page and stream are read at two moments, and nothing joins them. A target created
  after the page was rendered and announced before the tab subscribed is stored and
  checked, and its check reaches the tab, which has no row for it; a target stored
  before the page was rendered and announced after the tab subscribed gets two rows.
\<close>

theorem page_and_stream_race:
  "\<exists>es s fs t us u vs v.
     run (sys_step quote uuid_in percentile) empty_dashboard es s \<and> run (sys_step quote uuid_in percentile) s fs t \<and>
     no_debts s \<and> no_debts t \<and> ListTargets None (ls_tables empty_dashboard) = Inr [] \<and>
     target_ids (ls_tables t) = [''1''] \<and> map fst (drop (length (ls_shown s)) (ls_shown t)) = [''check''] \<and>
     tab_rows (ListTargets None (ls_tables empty_dashboard)) (drop (length (ls_shown s)) (ls_shown t)) = [] \<and>
     run (sys_step quote uuid_in percentile) empty_dashboard us u \<and> run (sys_step quote uuid_in percentile) u vs v \<and>
     no_debts v \<and> target_ids (ls_tables v) = [''1''] \<and>
     tab_rows (ListTargets None (ls_tables u)) (drop (length (ls_shown u)) (ls_shown v)) = [''1'', ''1'']"
proof -
  let ?r = "failed_result demo_target 0 (CtxE Canceled) 0"
  obtain es s fs t where s: "run (sys_step quote uuid_in percentile) empty_dashboard es s"
      "run (sys_step quote uuid_in percentile) s fs t"
      "no_debts s" "no_debts t" "target_ids (ls_tables t) = [''1'']"
      "drop (length (ls_shown s)) (ls_shown t) = [(''check'', StatusView (checkStatusFromResult quote ?r))]"
    using missed_run [of ?r quote uuid_in percentile] by auto
  obtain us u vs v where u: "run (sys_step quote uuid_in percentile) empty_dashboard us u"
      "run (sys_step quote uuid_in percentile) u vs v"
      "ListTargets None (ls_tables u) = Inr [demo_target]" "no_debts v" "target_ids (ls_tables v) = [''1'']"
      "drop (length (ls_shown u)) (ls_shown v) = [(''target_added'', AddedView demo_target)]"
    using doubled_run [of quote uuid_in percentile] by auto
  have "ListTargets None (ls_tables empty_dashboard) = Inr []"
    by (simp add: empty_dashboard_def InitSQL_def ListTargets_def)
  with s u show ?thesis
    by (intro exI [of _ es] exI [of _ s] exI [of _ fs] exI [of _ t] exI [of _ us] exI [of _ u] exI [of _ vs]
        exI [of _ v]) (simp add: tab_rows_def demo_target_def)
qed

section \<open>A deletion that names its target in another spelling\<close>

text \<open>
  C35. The handler publishes the text of the path, not the id it stands for. The type
  \<open>UUID\<close> reads several spellings of an id (upper case, braces, without hyphens). A
  deletion that uses one of another form than the database gives back is answered 200
  and removes the target, but the event withdraws a row that no tab has, so every
  open tab keeps the row of the deleted target.
\<close>

theorem other_spelling_keeps_row:
  assumes "tables_ok tb" and "uuid_in path_id = Some u" and "path_id \<noteq> u" and "path_id \<noteq> []"
    and "u \<in> set (target_ids tb)" and "snd (render (RemovedView path_id))"
  shows "\<exists>w tb'. HandleDeleteTarget render False (DeleteTarget uuid_in None) path_id new_response tb =
       (w, tb', [\<lparr>Name = ''target_removed'', Data = fst (render (RemovedView path_id))\<rparr>]) \<and>
     final_status w = StatusOK \<and> u \<notin> set (target_ids tb') \<and>
     (u \<in> set (tab_rows page [(''target_removed'', RemovedView path_id)]) \<longleftrightarrow> u \<in> set (tab_rows page []))"
proof -
  let ?tb = "tb\<lparr>tb_targets := filter (\<lambda>(t, _). ID t \<noteq> u) (tb_targets tb),
       tb_checks := filter (\<lambda>c. row_target c \<noteq> u) (tb_checks tb)\<rparr>"
  have "count_of (\<lambda>x. x = u) (target_ids tb) = 1"
    using delete_count [of tb u] assms(1,5) by (simp add: tables_ok_def)
  then have "DeleteTarget uuid_in None path_id tb = (None, ?tb)"
    by (simp add: DeleteTarget_def sql_delete_target_def assms(2))
  moreover have "target_ids ?tb = filter (\<lambda>y. y \<noteq> u) (target_ids tb)"
    by (simp add: target_ids_def ids_without)
  ultimately show ?thesis
    using assms(3,4,6)
    by (simp add: HandleDeleteTarget_def PublishTargetRemoved_def publish_view_def split_def tab_rows_def)
qed

theorem other_spelling_keeps_row_witness:
  "\<exists>w tb'. HandleDeleteTarget (\<lambda>_. ([], True)) False (DeleteTarget (\<lambda>s. Some (to_lower s)) None) ''A0''
       new_response \<lparr>tb_targets = [(\<lparr>ID = ''a0'', URL = ''http://a/''\<rparr>, 0)], tb_checks = []\<rparr> =
       (w, tb', [\<lparr>Name = ''target_removed'', Data = []\<rparr>]) \<and>
     final_status w = StatusOK \<and> target_ids tb' = [] \<and>
     tab_rows (Inr [\<lparr>ID = ''a0'', URL = ''http://a/''\<rparr>]) [(''target_removed'', RemovedView ''A0'')] = [''a0'']"
proof -
  let ?tb = "\<lparr>tb_targets = [(\<lparr>ID = ''a0'', URL = ''http://a/''\<rparr>, 0)], tb_checks = []\<rparr>"
  have ok: "tables_ok ?tb" by (simp add: tables_ok_def target_ids_def target_urls_def)
  have l: "Some (to_lower ''A0'') = Some ''a0''" by code_simp
  have m: "''a0'' \<in> set (target_ids ?tb)" by (simp add: target_ids_def)
  have "snd ((\<lambda>_. ([], True)) (RemovedView ''A0''))" by simp
  note kept = other_spelling_keeps_row [where uuid_in = "\<lambda>s. Some (to_lower s)" and page = "Inr []", OF ok l _ _ m this]
  from kept
  obtain w tb' where h: "HandleDeleteTarget (\<lambda>_. ([], True)) False (DeleteTarget (\<lambda>s. Some (to_lower s)) None) ''A0''
       new_response ?tb = (w, tb', [\<lparr>Name = ''target_removed'', Data = []\<rparr>])" "final_status w = StatusOK" by fastforce
  have "snd (DeleteTarget (\<lambda>s. Some (to_lower s)) None ''A0'' ?tb) = \<lparr>tb_targets = [], tb_checks = []\<rparr>" by code_simp
  with h(1) have "tb' = \<lparr>tb_targets = [], tb_checks = []\<rparr>"
    by (auto simp: HandleDeleteTarget_def split: prod.splits option.splits if_splits)
  with h show ?thesis by (simp add: target_ids_def tab_rows_def)
qed

end
