(* ===== verification/Dashboard.thy ===== *)
theory Dashboard
  imports Tab_View Sse_Stream
begin

text \<open>
  The dashboard end to end: requests and rounds (\<open>Live_System\<close>) whose publications
  go through the hub to the open tabs (\<open>Sse_Stream\<close>), as one step relation. The two
  systems move together where \<open>hub.Publish\<close> is called and on their own otherwise.
  The last section follows a target from the table of the database to the bytes of
  the event stream and back to the rows a browser builds from them.
\<close>

section \<open>The composed system\<close>

record dash =
  d_sys :: live_sys
  d_stream :: stream_sys

datatype dash_event =
    AppEv sys_event "chan_ref list"  \<comment> \<open>with the order in which \<open>Publish\<close> meets the clients\<close>
  | TabEv sevent

fun published :: "sevent \<Rightarrow> event list" where
  "published (PublishEv order ev) = [ev]"
| "published e = []"

definition new_views :: "live_sys \<Rightarrow> live_sys \<Rightarrow> (string \<times> view) list" where
  "new_views s t = drop (length (ls_shown s)) (ls_shown t)"

text \<open>A view that the template engine fails to render is logged and not published.\<close>

inductive dstep ::
    "(string \<Rightarrow> string) \<Rightarrow> (string \<Rightarrow> string option) \<Rightarrow> (nat \<Rightarrow> int list \<Rightarrow> int) \<Rightarrow> renderer \<Rightarrow> dash \<Rightarrow> dash_event \<Rightarrow> dash \<Rightarrow> bool"
  for quote uuid_in percentile render where
  app: "sys_step quote uuid_in percentile (d_sys s) e t \<Longrightarrow>
     run sstep (d_stream s) (map (PublishEv order) (rendered render (new_views (d_sys s) t))) u \<Longrightarrow>
     dstep quote uuid_in percentile render s (AppEv e order) \<lparr>d_sys = t, d_stream = u\<rparr>"
| tab: "sstep (d_stream s) e u \<Longrightarrow> published e = [] \<Longrightarrow>
     dstep quote uuid_in percentile render s (TabEv e) (s\<lparr>d_stream := u\<rparr>)"

definition dash_init :: "tables \<Rightarrow> dash \<Rightarrow> bool" where
  "dash_init tb s \<longleftrightarrow> sys_init tb (d_sys s) \<and> d_stream s = stream_init"

definition dash_inv :: "tables \<Rightarrow> dash \<Rightarrow> bool" where
  "dash_inv tb s \<longleftrightarrow> sys_inv tb (d_sys s) \<and> stream_inv (d_stream s)"

lemma stream_inv_run: "run sstep s es t \<Longrightarrow> stream_inv s \<Longrightarrow> stream_inv t"
  by (erule run_preserves) (auto intro: stream_inv_step)

lemma dash_init_inv: "dash_init tb s \<Longrightarrow> dash_inv tb s"
  by (simp add: dash_init_def dash_inv_def sys_init_inv stream_inv_init)

lemma dash_inv_step:
  assumes "dstep quote uuid_in percentile render s e t" and "dash_inv tb s"
  shows "dash_inv tb t"
  using assms(1)
proof (cases rule: dstep.cases)
  case (app e t' order u)
  with assms(2) show ?thesis
    using sys_inv_step [OF app(3), of tb] stream_inv_run [OF app(4)] by (simp add: dash_inv_def)
next
  case (tab e u)
  with assms(2) show ?thesis using stream_inv_step [OF tab(3)] by (simp add: dash_inv_def)
qed

interpretation composed: invariant_system
    "dash_init tb" "dstep quote uuid_in percentile render" "dash_inv tb"
  for tb quote uuid_in percentile render
  by unfold_locales (auto intro: dash_init_inv dash_inv_step)

text \<open>Each part of the composed system is a run of that part alone.\<close>

lemma dash_follows_sys:
  assumes "dstep quote uuid_in percentile render s e t"
  shows "\<exists>fs. run (sys_step quote uuid_in percentile) (d_sys s) fs (d_sys t)"
  using assms by (cases rule: dstep.cases) (auto intro: run_single run_nil)

lemma dash_follows_stream:
  assumes "dstep quote uuid_in percentile render s e t"
  shows "\<exists>fs. run sstep (d_stream s) fs (d_stream t)"
  using assms by (cases rule: dstep.cases) (auto intro: run_single)

interpretation app_part: forward_simulation
    "dstep quote uuid_in percentile render" "sys_step quote uuid_in percentile" "\<lambda>s. True" "\<lambda>s a. a = d_sys s"
  for quote uuid_in percentile render
  by unfold_locales (auto intro: dash_follows_sys)

interpretation stream_part: forward_simulation
    "dstep quote uuid_in percentile render" sstep "\<lambda>s. True" "\<lambda>s a. a = d_stream s"
  for quote uuid_in percentile render
  by unfold_locales (auto intro: dash_follows_stream)

section \<open>What an open tab has been offered\<close>

lemma tab_step:
  assumes "sstep s e t" and inv: "stream_inv s" and tab: "st_tabs s ch = Some tab"
  shows "\<exists>tab'. st_tabs t ch = Some tab' \<and>
     (tab_at tab' \<noteq> Gone \<longrightarrow> tab_at tab \<noteq> Gone \<and> tab_seen tab' = tab_seen tab @ published e)"
  using assms(1)
proof (cases rule: sstep.cases)
  case (connect c w)
  then have "c \<noteq> ch" using tab inv by (auto simp: stream_inv_def)
  with connect tab show ?thesis by simp
next
  case (publish order ev heap')
  from stream_inv_tab [OF inv tab] obtain c where "st_heap s ch = Some c" .
  with publish tab inv show ?thesis by (auto simp: note_publish_def note_offer_def stream_inv_def)
qed (use tab in auto)

lemma tab_run:
  "run sstep s es t \<Longrightarrow> stream_inv s \<Longrightarrow> st_tabs s ch = Some tab \<Longrightarrow>
     \<exists>tab'. st_tabs t ch = Some tab' \<and>
       (tab_at tab' \<noteq> Gone \<longrightarrow> tab_at tab \<noteq> Gone \<and> tab_seen tab' = tab_seen tab @ concat (map published es))"
proof (induction arbitrary: tab rule: run.induct)
  case (run_nil s)
  then show ?case by simp
next
  case (run_cons s e t es u)
  from tab_step [OF run_cons.hyps(1) run_cons.prems] obtain tab1 where
    1: "st_tabs t ch = Some tab1" "tab_at tab1 \<noteq> Gone \<Longrightarrow> tab_at tab \<noteq> Gone \<and> tab_seen tab1 = tab_seen tab @ published e"
    by blast
  from run_cons.IH [OF stream_inv_step [OF run_cons.hyps(1) run_cons.prems(1)] 1(1)] 1(2) show ?case by auto
qed

lemma published_all [simp]: "concat (map (published \<circ> PublishEv order) evs) = evs"
  by (induction evs) simp_all

text \<open>
  As long as a tab is open it has been offered what was published since its
  subscription, when \<open>k\<close> views had been published.
\<close>

definition offered_since :: "renderer \<Rightarrow> nat \<Rightarrow> chan_ref \<Rightarrow> dash \<Rightarrow> bool" where
  "offered_since render k ch s \<longleftrightarrow> k \<le> length (ls_shown (d_sys s)) \<and>
     (\<exists>tab. st_tabs (d_stream s) ch = Some tab \<and>
       (tab_at tab \<noteq> Gone \<longrightarrow> tab_seen tab = rendered render (drop k (ls_shown (d_sys s)))))"

lemma offered_step:
  assumes step: "dstep quote uuid_in percentile render s e t" and dash: "dash_inv tb s"
    and off: "offered_since render k ch s"
  shows "offered_since render k ch t"
proof -
  have inv: "stream_inv (d_stream s)" using dash by (simp add: dash_inv_def)
  from off obtain tab where k: "k \<le> length (ls_shown (d_sys s))" and tab: "st_tabs (d_stream s) ch = Some tab"
    and seen: "tab_at tab \<noteq> Gone \<Longrightarrow> tab_seen tab = rendered render (drop k (ls_shown (d_sys s)))"
    by (auto simp: offered_since_def)
  from step show ?thesis
  proof (cases rule: dstep.cases)
    case (app e t' order u)
    from shown_grows [OF app(3)] obtain vs where vs: "ls_shown t' = ls_shown (d_sys s) @ vs" by blast
    then have "new_views (d_sys s) t' = vs" by (simp add: new_views_def)
    with tab_run [OF app(4) inv tab] seen k vs app(2) show ?thesis by (auto simp: offered_since_def)
  next
    case (tab e u)
    with tab_step [OF tab(3) inv \<open>st_tabs (d_stream s) ch = Some tab\<close>] seen k show ?thesis
      by (auto simp: offered_since_def)
  qed
qed

lemma offered_run:
  assumes "run (dstep quote uuid_in percentile render) s es t" and "dash_inv tb s" and "offered_since render k ch s"
  shows "offered_since render k ch t"
proof -
  have "dash_inv tb t \<and> offered_since render k ch t"
    by (rule run_preserves [OF assms(1)])
      (use assms(2,3) in \<open>auto intro: dash_inv_step offered_step\<close>)
  then show ?thesis by simp
qed

lemma offered_connect:
  assumes "dstep quote uuid_in percentile render s (TabEv (Connect ch)) t"
  shows "d_sys t = d_sys s \<and> offered_since render (length (ls_shown (d_sys s))) ch t"
  using assms
proof (cases rule: dstep.cases)
  case (tab u)
  from tab(2) show ?thesis
    by (cases rule: sstep.cases) (use tab(1) in \<open>auto simp: offered_since_def new_tab_def rendered_def\<close>)
qed

section \<open>From the table to the browser and back\<close>

text \<open>
  A tab that is open at its \<open>select\<close> and was never too slow drains its buffer, and
  its browser has then read all that was published since it subscribed.
\<close>

lemma turns_lift:
  "run sstep (d_stream s) (replicate n (TabTurn ch b)) u \<Longrightarrow>
     run (dstep quote uuid_in percentile render) s (replicate n (TabEv (TabTurn ch b))) (s\<lparr>d_stream := u\<rparr>)"
proof (induction n arbitrary: s)
  case (Suc n)
  then obtain v where v: "sstep (d_stream s) (TabTurn ch b) v" "run sstep v (replicate n (TabTurn ch b)) u"
    by (auto simp: run_Cons_iff)
  have 1: "dstep quote uuid_in percentile render s (TabEv (TabTurn ch b)) (s\<lparr>d_stream := v\<rparr>)"
    using v(1) by (rule dstep.tab) simp
  have 2: "run (dstep quote uuid_in percentile render) (s\<lparr>d_stream := v\<rparr>) (replicate n (TabEv (TabTurn ch b)))
      (s\<lparr>d_stream := u\<rparr>)"
    using Suc.IH [of "s\<lparr>d_stream := v\<rparr>"] v(2) by simp
  show ?case unfolding replicate_Suc by (rule run_cons) (rule 1, rule 2)
qed simp

lemma drained:
  assumes inv: "dash_inv tb s" and off: "offered_since render k ch s"
    and tab: "st_tabs (d_stream s) ch = Some tab" "tab_at tab = Streaming" "tab_missed tab = 0"
    and ok: "\<forall>e \<in> set (rendered render (drop k (ls_shown (d_sys s)))). sendable e"
  shows "\<exists>u tab'. run (dstep quote uuid_in percentile render) s
       (replicate (length (tab_wait tab)) (TabEv (TabTurn ch (FrameC True)))) u \<and>
     d_sys u = d_sys s \<and> st_tabs (d_stream u) ch = Some tab' \<and>
     read_stream (rw_body (tab_w tab')) = map (\<lambda>e. (Name e, Data e)) (rendered render (drop k (ls_shown (d_sys s))))"
proof -
  have sinv: "stream_inv (d_stream s)" using inv by (simp add: dash_inv_def)
  from empty_buffer [OF sinv tab(1,2)] obtain v tab' where
    v: "run sstep (d_stream s) (replicate (length (tab_wait tab)) (TabTurn ch (FrameC True))) v"
    "st_tabs v ch = Some tab'" "chunk_events (tab_chunks tab') = chunk_events (tab_chunks tab) @ tab_wait tab"
    by blast
  from stream_inv_tab [OF sinv tab(1)] obtain c where "tab_ok c tab" .
  then have "subseq (chunk_events (tab_chunks tab) @ tab_wait tab) (tab_seen tab)"
    "length (chunk_events (tab_chunks tab) @ tab_wait tab) = length (tab_seen tab)"
    using tab(2,3) by (auto simp: tab_ok_def)
  then have "chunk_events (tab_chunks tab) @ tab_wait tab = tab_seen tab" by (rule subseq_same_length)
  also have "\<dots> = rendered render (drop k (ls_shown (d_sys s)))"
    using off tab(1,2) by (simp add: offered_since_def)
  finally have all: "chunk_events (tab_chunks tab') = rendered render (drop k (ls_shown (d_sys s)))"
    using v(3) by simp
  from stream_inv_tab [OF stream_inv_run [OF v(1) sinv] v(2)] obtain c' where "tab_ok c' tab'" .
  with all ok frame_stream_reads [of "tab_chunks tab'"] have
    "read_stream (rw_body (tab_w tab')) = map (\<lambda>e. (Name e, Data e)) (rendered render (drop k (ls_shown (d_sys s))))"
    by (simp add: tab_ok_def)
  with turns_lift [OF v(1)] v(2) show ?thesis
    by (intro exI [of _ "s\<lparr>d_stream := v\<rparr>"] exI [of _ tab'] conjI) simp_all
qed

text \<open>What the browser does with a message, and what the templates have to provide for it.\<close>

datatype row_op = AddRow string | DropRow string | KeepRows

fun row_change :: "view \<Rightarrow> row_op" where
  "row_change (AddedView t) = AddRow (ID t)"
| "row_change (RemovedView tid) = DropRow tid"
| "row_change v = KeepRows"

fun apply_row :: "row_op \<Rightarrow> string list \<Rightarrow> string list" where
  "apply_row (AddRow x) rows = rows @ [x]"
| "apply_row (DropRow x) rows = filter (\<lambda>y. y \<noteq> x) rows"
| "apply_row KeepRows rows = rows"

definition browser_rows :: "(string \<times> string \<Rightarrow> row_op) \<Rightarrow> string list \<Rightarrow> string \<Rightarrow> string list" where
  "browser_rows decode rows body = fold (\<lambda>m. apply_row (decode m)) (read_stream body) rows"

definition shows_as :: "renderer \<Rightarrow> (string \<times> string \<Rightarrow> row_op) \<Rightarrow> string \<times> view \<Rightarrow> bool" where
  "shows_as render decode e \<longleftrightarrow> snd (render (snd e)) \<and> sendable \<lparr>Name = fst e, Data = fst (render (snd e))\<rparr> \<and>
     decode (fst e, fst (render (snd e))) = row_change (snd e)"

lemma apply_row_view: "apply_row (row_change (snd e)) rows = apply_view e rows"
  by (cases "(e, rows)" rule: apply_view.cases) simp_all

lemma rendered_shows_as:
  "\<forall>e \<in> set vs. shows_as render decode e \<Longrightarrow>
     rendered render vs = map (\<lambda>e. \<lparr>Name = fst e, Data = fst (render (snd e))\<rparr>) vs"
  by (induction vs) (auto simp: rendered_def shows_as_def publish_view_def split: prod.splits)

lemma decoded_rows:
  "\<forall>e \<in> set vs. shows_as render decode e \<Longrightarrow>
     fold (\<lambda>m. apply_row (decode m)) (map (\<lambda>e. (fst e, fst (render (snd e)))) vs) rows = fold apply_view vs rows"
  by (induction vs arbitrary: rows) (simp_all add: shows_as_def apply_row_view)

text \<open>
  The open page shows the database, whatever the templates are. Start the dashboard on any sound database,
  let a page be rendered and its stream be subscribed while no request owes an
  announcement, and let requests, rounds, faults, other tabs, slow writes and
  disconnections interleave as they like. Whenever again no announcement is owed,
  a tab for which nothing was dropped needs no more turns than frames wait in its
  channel, and the rows its browser then has, computed from the listed targets and
  the bytes of the response alone, contain an id exactly when the database does, for
  every id whose withdrawal was not published before its announcement. The
  templates are assumed to render what was published, without carriage returns,
  such that the browser can tell which row to append or to remove.
\<close>

theorem browser_shows_database:
  assumes "dash_init tb0 s0" and "run (dstep quote uuid_in percentile render) s0 es s" and "no_debts (d_sys s)"
    and "ListTargets None (ls_tables (d_sys s)) = Inr page"
    and "run (dstep quote uuid_in percentile render) s (TabEv (Connect ch) # fs) t" and "no_debts (d_sys t)"
    and "st_tabs (d_stream t) ch = Some tab" and "tab_at tab = Streaming" and "tab_missed tab = 0"
    and "\<forall>e \<in> set (new_views (d_sys s) (d_sys t)). shows_as render decode e"
    and "\<not> swapped x (new_views (d_sys s) (d_sys t))"
  shows "\<exists>u tab'. run (dstep quote uuid_in percentile render) t
       (replicate (length (tab_wait tab)) (TabEv (TabTurn ch (FrameC True)))) u \<and>
     d_sys u = d_sys t \<and> st_tabs (d_stream u) ch = Some tab' \<and>
     (x \<in> set (browser_rows decode (map ID page) (rw_body (tab_w tab'))) \<longleftrightarrow> x \<in> set (target_ids (ls_tables (d_sys u))))"
proof -
  let ?new = "new_views (d_sys s) (d_sys t)"
  have inv: "dash_inv tb0 s" by (rule composed.inv_reachable [OF assms(1,2)])
  from assms(5) obtain s1 where s1: "dstep quote uuid_in percentile render s (TabEv (Connect ch)) s1"
    "run (dstep quote uuid_in percentile render) s1 fs t" by (auto simp: run_Cons_iff)
  have inv1: "dash_inv tb0 s1" by (rule dash_inv_step [OF s1(1) inv])
  have inv2: "dash_inv tb0 t" using composed.inv_run [OF s1(2) inv1] .
  have off: "offered_since render (length (ls_shown (d_sys s))) ch t"
    using offered_run [OF s1(2) inv1] offered_connect [OF s1(1)] by blast
  have views: "rendered render ?new = map (\<lambda>e. \<lparr>Name = fst e, Data = fst (render (snd e))\<rparr>) ?new"
    by (rule rendered_shows_as [OF assms(10)])
  have "\<forall>e \<in> set (rendered render ?new). sendable e"
    unfolding views using assms(10) by (auto simp: shows_as_def)
  from drained [OF inv2 off assms(7-9) this [unfolded new_views_def]] obtain u tab' where
    u: "run (dstep quote uuid_in percentile render) t (replicate (length (tab_wait tab)) (TabEv (TabTurn ch (FrameC True)))) u"
    "d_sys u = d_sys t" "st_tabs (d_stream u) ch = Some tab'"
    "read_stream (rw_body (tab_w tab')) = map (\<lambda>e. (Name e, Data e)) (rendered render ?new)"
    unfolding new_views_def by blast
  have rows: "browser_rows decode (map ID page) (rw_body (tab_w tab')) = tab_rows (Inr page) ?new"
    using decoded_rows [OF assms(10), of "map ID page"]
    by (simp add: browser_rows_def u(4) views tab_rows_def comp_def)
  obtain gs where gs: "run (sys_step quote uuid_in percentile) (d_sys s0) gs (d_sys s)"
    using app_part.run_followed [OF assms(2)] by blast
  obtain hs where hs: "run (sys_step quote uuid_in percentile) (d_sys s) hs (d_sys t)"
    using app_part.run_followed [OF assms(5)] by blast
  have "sys_init tb0 (d_sys s0)" using assms(1) by (simp add: dash_init_def)
  from tab_shows_targets [OF this gs assms(3,4) hs assms(6)] assms(11)
  have "x \<in> set (tab_rows (Inr page) ?new) \<longleftrightarrow> x \<in> set (target_ids (ls_tables (d_sys t)))"
    by (simp add: new_views_def)
  with rows u(1-3) show ?thesis by (intro exI [of _ u] exI [of _ tab']) simp
qed

section \<open>A tab, a creation and its row\<close>

definition demo_render :: renderer where
  "demo_render v = (case v of AddedView t \<Rightarrow> (ID t, True) | _ \<Rightarrow> ([], True))"

definition demo_decode :: "string \<times> string \<Rightarrow> row_op" where
  "demo_decode m = (if fst m = ''target_added'' then AddRow (snd m) else KeepRows)"

lemma created_steps:
  "\<exists>s1 s2 s3. sys_step quote uuid_in percentile empty_dashboard (PostArrives True ''http://a/'') s1 \<and>
     sys_step quote uuid_in percentile s1 (PostStores 0 None ''1'' 0) s2 \<and>
     sys_step quote uuid_in percentile s2 (PostPublishes 0) s3 \<and>
     ls_shown s1 = [] \<and> ls_shown s2 = [] \<and> ls_shown s3 = [(''target_added'', AddedView demo_target)] \<and> no_debts s3 \<and>
     target_ids (ls_tables s3) = [''1'']"
  by (simp add: sys_iffs demo_url empty_dashboard_def InitSQL_def CreateTarget_def sql_insert_target_def
      target_ids_def target_urls_def create_stored_def new_ids_def live_setters no_debts_def demo_target_def Let_def)

definition quiet_dash :: dash where
  "quiet_dash = \<lparr>d_sys = empty_dashboard, d_stream = stream_init\<rparr>"

lemma created_dash:
  assumes "snd (render (AddedView demo_target))"
  shows "\<exists>t tab. run (dstep quote uuid_in percentile render) quiet_dash
       [TabEv (Connect 0), AppEv (PostArrives True ''http://a/'') [], AppEv (PostStores 0 None ''1'' 0) [],
        AppEv (PostPublishes 0) [0]] t \<and>
     no_debts (d_sys t) \<and> ls_shown (d_sys t) = [(''target_added'', AddedView demo_target)] \<and>
     st_tabs (d_stream t) 0 = Some tab \<and> tab_at tab = Streaming \<and> tab_missed tab = 0 \<and> target_ids (ls_tables (d_sys t)) = [''1'']"
proof -
  let ?D = "dstep quote uuid_in percentile render"
    and ?ev = "\<lparr>Name = ''target_added'', Data = fst (render (AddedView demo_target))\<rparr>"
  obtain v0 v tab where v: "sstep stream_init (Connect 0) v0" "sstep v0 (PublishEv [0] ?ev) v"
    "st_tabs v 0 = Some tab" "tab_at tab = Streaming" "tab_wait tab = [?ev]" "tab_missed tab = 0"
    using one_tab [of ?ev] by blast
  obtain s1 s2 s3 where s: "sys_step quote uuid_in percentile empty_dashboard (PostArrives True ''http://a/'') s1"
    "sys_step quote uuid_in percentile s1 (PostStores 0 None ''1'' 0) s2"
    "sys_step quote uuid_in percentile s2 (PostPublishes 0) s3"
    "ls_shown s1 = []" "ls_shown s2 = []" "ls_shown s3 = [(''target_added'', AddedView demo_target)]" "no_debts s3"
    "target_ids (ls_tables s3) = [''1'']"
    using created_steps [of quote uuid_in percentile] by blast
  have e: "ls_shown empty_dashboard = []" by (simp add: empty_dashboard_def)
  have "?D quiet_dash (TabEv (Connect 0)) (quiet_dash\<lparr>d_stream := v0\<rparr>)"
    by (rule dstep.tab) (simp_all add: quiet_dash_def v(1))
  moreover have "?D (quiet_dash\<lparr>d_stream := v0\<rparr>) (AppEv (PostArrives True ''http://a/'') []) \<lparr>d_sys = s1, d_stream = v0\<rparr>"
    by (rule dstep.app) (simp_all add: quiet_dash_def s(1,4) e new_views_def)
  moreover have "?D \<lparr>d_sys = s1, d_stream = v0\<rparr> (AppEv (PostStores 0 None ''1'' 0) []) \<lparr>d_sys = s2, d_stream = v0\<rparr>"
    by (rule dstep.app) (simp_all add: s(2,4,5) new_views_def)
  moreover have "?D \<lparr>d_sys = s2, d_stream = v0\<rparr> (AppEv (PostPublishes 0) [0]) \<lparr>d_sys = s3, d_stream = v\<rparr>"
    by (rule dstep.app)
      (use assms in \<open>simp_all add: s(3,5,6) new_views_def publish_view_def split_def v(2) run_Cons_iff\<close>)
  ultimately have "run ?D quiet_dash [TabEv (Connect 0), AppEv (PostArrives True ''http://a/'') [],
      AppEv (PostStores 0 None ''1'' 0) [], AppEv (PostPublishes 0) [0]] \<lparr>d_sys = s3, d_stream = v\<rparr>"
    unfolding run_Cons_iff by (metis run_nil)
  with v s show ?thesis by (intro exI [of _ "\<lparr>d_sys = s3, d_stream = v\<rparr>"] exI [of _ tab]) simp
qed

theorem browser_shows_database_witness:
  "\<exists>es u tab. run (dstep (\<lambda>x. x) Some (\<lambda>_ _. 0) demo_render) quiet_dash es u \<and>
     st_tabs (d_stream u) 0 = Some tab \<and> ''1'' \<in> set (target_ids (ls_tables (d_sys u))) \<and>
     ''1'' \<in> set (browser_rows demo_decode [] (rw_body (tab_w tab)))"
proof -
  let ?D = "dstep (\<lambda>x. x) Some (\<lambda>_ _. 0) demo_render"
  obtain fs t tab where t: "run ?D quiet_dash (TabEv (Connect 0) # fs) t" "no_debts (d_sys t)"
    "ls_shown (d_sys t) = [(''target_added'', AddedView demo_target)]" "st_tabs (d_stream t) 0 = Some tab"
    "tab_at tab = Streaming" "tab_missed tab = 0" "target_ids (ls_tables (d_sys t)) = [''1'']"
    using created_dash [of demo_render "\<lambda>x. x" Some "\<lambda>_ _. 0"] by (auto simp: demo_render_def)
  have q: "dash_init InitSQL quiet_dash" "no_debts (d_sys quiet_dash)"
    "ListTargets None (ls_tables (d_sys quiet_dash)) = Inr []" "ls_shown (d_sys quiet_dash) = []"
    using empty_dashboard_init
    by (simp_all add: dash_init_def quiet_dash_def no_debts_def empty_dashboard_def InitSQL_def ListTargets_def)
  have views: "new_views (d_sys quiet_dash) (d_sys t) = [(''target_added'', AddedView demo_target)]"
    by (simp add: new_views_def q(4) t(3))
  have "\<forall>e \<in> set (new_views (d_sys quiet_dash) (d_sys t)). shows_as demo_render demo_decode e"
    "\<not> swapped ''1'' (new_views (d_sys quiet_dash) (d_sys t))"
    by (simp_all add: views shows_as_def demo_render_def demo_decode_def demo_target_def sendable_def)
  from browser_shows_database [OF q(1) run_nil q(2,3) t(1,2,4-6) this] obtain u tab' where
    u: "run ?D t (replicate (length (tab_wait tab)) (TabEv (TabTurn 0 (FrameC True)))) u" "d_sys u = d_sys t"
    "st_tabs (d_stream u) 0 = Some tab'"
    "''1'' \<in> set (browser_rows demo_decode [] (rw_body (tab_w tab'))) \<longleftrightarrow> ''1'' \<in> set (target_ids (ls_tables (d_sys u)))"
    by auto
  with t(7) run_append [OF t(1) u(1)] show ?thesis
    by (intro exI [of _ "(TabEv (Connect 0) # fs) @ replicate (length (tab_wait tab)) (TabEv (TabTurn 0 (FrameC True)))"]
      exI [of _ u] exI [of _ tab']) simp
qed

end
