(* ===== verification/Html.thy ===== *)
theory Html
  imports Go_Strings
begin

text \<open>
  Text in mark-up: the escaper of Go's \<open>html/template\<close>, and a reference reader of HTML
  written from the tokenization rules of the HTML standard, as far as pages of the
  program need it: start tags with quoted or empty attributes, end tags, text,
  character references and declarations. What it does not read (unquoted and
  single-quoted values, comments) ends in a state of its own and yields no more tokens.
\<close>

section \<open>Escaping\<close>

text \<open>
  The replacement table that both \<open>htmlEscaper\<close> (for text) and \<open>attrEscaper\<close> (for
  quoted attributes) use. Bytes of multi-byte characters are copied.
\<close>

definition html_replacement :: "char \<Rightarrow> string" where
  "html_replacement c =
     (if c = CHR 0x00 then [CHR 0xEF, CHR 0xBF, CHR 0xBD]
      else if c = CHR 0x22 then ''&#34;''
      else if c = CHR ''&'' then ''&amp;''
      else if c = CHR 0x27 then ''&#39;''
      else if c = CHR ''+'' then ''&#43;''
      else if c = CHR ''<'' then ''&lt;''
      else if c = CHR ''>'' then ''&gt;''
      else [c])"

definition html_escape :: "string \<Rightarrow> string" where
  "html_escape s = concat (map html_replacement s)"

lemma html_escape_simps [simp]:
  "html_escape [] = []" "html_escape (c # s) = html_replacement c @ html_escape s"
  by (simp_all add: html_escape_def)

lemma replacement_safe: "CHR ''<'' \<notin> set (html_replacement c)" "CHR 0x22 \<notin> set (html_replacement c)"
  "CHR 0x0D \<in> set (html_replacement c) \<Longrightarrow> c = CHR 0x0D"
  by (auto simp: html_replacement_def split: if_splits)

lemma escape_safe: "CHR ''<'' \<notin> set (html_escape s)" "CHR 0x22 \<notin> set (html_escape s)"
  "CHR 0x0D \<in> set (html_escape s) \<Longrightarrow> CHR 0x0D \<in> set s"
  by (induction s) (auto simp: replacement_safe(1,2) dest: replacement_safe(3))

section \<open>Character references\<close>

definition named_ref :: "string \<Rightarrow> string option" where
  "named_ref n = map_of
     [(''amp'', ''&''), (''lt'', ''<''), (''gt'', ''>''), (''quot'', [CHR 0x22]),
      (''#34'', [CHR 0x22]), (''#39'', [CHR 0x27]), (''#43'', ''+'')] n"

lemma after_ref_shorter [termination_simp]: "length (dropWhile P s) - Suc 0 < Suc (length s)"
  using length_dropWhile_le [of P s] by linarith

fun decode_refs :: "string \<Rightarrow> string" where
  "decode_refs [] = []"
| "decode_refs (c # s) =
     (if c = CHR ''&''
      then (case named_ref (takeWhile (\<lambda>d. d \<noteq> CHR '';'') s) of
              Some v \<Rightarrow> v @ decode_refs (drop 1 (dropWhile (\<lambda>d. d \<noteq> CHR '';'') s))
            | None \<Rightarrow> c # decode_refs s)
      else c # decode_refs s)"

declare decode_refs.simps(2) [simp del]

lemma decode_plain: "CHR ''&'' \<notin> set s \<Longrightarrow> decode_refs (s @ t) = s @ decode_refs t"
  by (induction s) (auto simp: decode_refs.simps(2))

lemma decode_replacement: "CHR 0x00 \<noteq> c \<Longrightarrow> decode_refs (html_replacement c @ s) = c # decode_refs s"
  by (simp add: html_replacement_def decode_refs.simps(2) named_ref_def)

lemma decode_escape: "CHR 0x00 \<notin> set v \<Longrightarrow> decode_refs (html_escape v @ s) = v @ decode_refs s"
  by (induction v) (simp_all add: decode_replacement)

lemma decode_escape_only: "CHR 0x00 \<notin> set v \<Longrightarrow> decode_refs (html_escape v) = v"
  using decode_escape [of v "[]"] by simp

section \<open>Tokens\<close>

text \<open>
  Values are strings for the reader of a document, and lists of pieces for the reader
  of a template below; \<open>'r\<close> is a value that is still being read.
\<close>

datatype 'v html_token = Open string "(string \<times> 'v) list" | Close string | Chars 'v

datatype ('r, 'v) html_state =
    InText 'r
  | TagOpen
  | Declaration
  | EndName string
  | TagName string
  | InTag string "(string \<times> 'v) list"
  | AttrName string "(string \<times> 'v) list" string
  | BeforeValue string "(string \<times> 'v) list" string
  | Quoted string "(string \<times> 'v) list" string 'r
  | Unread

definition html_space :: "char \<Rightarrow> bool" where
  "html_space c \<longleftrightarrow> c = CHR '' '' \<or> c = CHR 0x0A \<or> c = CHR 0x09 \<or> c = CHR 0x0C"

text \<open>\<open>none\<close> is the empty value, \<open>snoc\<close> adds a character, and \<open>done\<close> ends a value.\<close>

fun html_step ::
    "'r \<Rightarrow> ('r \<Rightarrow> char \<Rightarrow> 'r) \<Rightarrow> ('r \<Rightarrow> 'v) \<Rightarrow> ('r, 'v) html_state \<Rightarrow> char \<Rightarrow> 'v html_token list \<times> ('r, 'v) html_state" where
  "html_step none snoc fin (InText r) c = (if c = CHR ''<'' then ([Chars (fin r)], TagOpen) else ([], InText (snoc r c)))"
| "html_step none snoc fin TagOpen c =
     ([], if c = CHR ''/'' then EndName [] else if c = CHR ''!'' then Declaration else TagName [c])"
| "html_step none snoc fin Declaration c =
     ([], if c = CHR ''>'' then InText none else if c = CHR ''-'' then Unread else Declaration)"
| "html_step none snoc fin (EndName n) c = (if c = CHR ''>'' then ([Close n], InText none) else ([], EndName (n @ [c])))"
| "html_step none snoc fin (TagName n) c =
     (if c = CHR ''>'' then ([Open n []], InText none)
      else ([], if html_space c then InTag n [] else TagName (n @ [c])))"
| "html_step none snoc fin (InTag n as) c =
     (if c = CHR ''>'' then ([Open n as], InText none)
      else ([], if html_space c then InTag n as else AttrName n as [c]))"
| "html_step none snoc fin (AttrName n as a) c =
     (if c = CHR ''>'' then ([Open n (as @ [(a, fin none)])], InText none)
      else ([], if c = CHR ''='' then BeforeValue n as a
                else if html_space c then InTag n (as @ [(a, fin none)])
                else AttrName n as (a @ [c])))"
| "html_step none snoc fin (BeforeValue n as a) c = ([], if c = CHR 0x22 then Quoted n as a none else Unread)"
| "html_step none snoc fin (Quoted n as a r) c =
     ([], if c = CHR 0x22 then InTag n (as @ [(a, fin r)]) else Quoted n as a (snoc r c))"
| "html_step none snoc fin Unread c = ([], Unread)"

fun html_run ::
    "'r \<Rightarrow> ('r \<Rightarrow> char \<Rightarrow> 'r) \<Rightarrow> ('r \<Rightarrow> 'v) \<Rightarrow> ('r, 'v) html_state \<Rightarrow> string \<Rightarrow> 'v html_token list \<times> ('r, 'v) html_state" where
  "html_run none snoc fin st [] = ([], st)"
| "html_run none snoc fin st (c # s) =
     (case html_step none snoc fin st c of (out, st') \<Rightarrow>
        case html_run none snoc fin st' s of (out', st'') \<Rightarrow> (out @ out', st''))"

abbreviation read_html :: "(string, string) html_state \<Rightarrow> string \<Rightarrow> string html_token list \<times> (string, string) html_state" where
  "read_html \<equiv> html_run [] (\<lambda>r c. r @ [c]) decode_refs"

text \<open>The tokens of a document, without the text that only lays it out.\<close>

fun blank :: "string html_token \<Rightarrow> bool" where
  "blank (Chars s) \<longleftrightarrow> list_all html_space s"
| "blank t \<longleftrightarrow> False"

definition content :: "string html_token list \<Rightarrow> string html_token list" where
  "content = filter (\<lambda>t. \<not> blank t)"

fun last_text :: "('v, 'v) html_state \<Rightarrow> 'v html_token list" where
  "last_text (InText r) = [Chars r]"
| "last_text st = []"

definition html_tokens :: "string \<Rightarrow> string html_token list" where
  "html_tokens s = (case read_html (InText []) s of (out, st) \<Rightarrow>
     content (out @ (case st of InText r \<Rightarrow> [Chars (decode_refs r)] | _ \<Rightarrow> [])))"

lemma html_run_append:
  "html_run none snoc fin st (s @ t) =
     (case html_run none snoc fin st s of (out, st') \<Rightarrow>
        case html_run none snoc fin st' t of (out', st'') \<Rightarrow> (out @ out', st''))"
  by (induction s arbitrary: st) (auto split: prod.splits)

text \<open>An escaped value never leaves the text or the attribute it stands in.\<close>

lemma run_value_text: "CHR ''<'' \<notin> set v \<Longrightarrow> read_html (InText r) v = ([], InText (r @ v))"
  by (induction v arbitrary: r) auto

lemma run_value_quoted: "CHR 0x22 \<notin> set v \<Longrightarrow> read_html (Quoted n as a r) v = ([], Quoted n as a (r @ v))"
  by (induction v arbitrary: r) auto

lemma run_escaped:
  "read_html (InText r) (html_escape v) = ([], InText (r @ html_escape v))"
  "read_html (Quoted n as a r) (html_escape v) = ([], Quoted n as a (r @ html_escape v))"
  by (simp_all add: run_value_text run_value_quoted escape_safe)

section \<open>Templates\<close>

text \<open>A template after its actions are evaluated: its own text, and values that are escaped.\<close>

datatype piece = Raw string | Val string

fun piece_bytes :: "piece \<Rightarrow> string" where
  "piece_bytes (Raw s) = s"
| "piece_bytes (Val v) = html_escape v"

definition write_pieces :: "piece list \<Rightarrow> string" where
  "write_pieces ps = concat (map piece_bytes ps)"

lemma write_pieces_simps [simp]:
  "write_pieces [] = []" "write_pieces (p # ps) = piece_bytes p @ write_pieces ps"
  "write_pieces (ps @ qs) = write_pieces ps @ write_pieces qs"
  by (simp_all add: write_pieces_def)

fun piece_has :: "char \<Rightarrow> piece \<Rightarrow> bool" where
  "piece_has c (Raw s) \<longleftrightarrow> c \<in> set s"
| "piece_has c (Val v) \<longleftrightarrow> c \<in> set v"

lemma write_no_cr: "\<not> list_ex (piece_has (CHR 0x0D)) ps \<Longrightarrow> CHR 0x0D \<notin> set (write_pieces ps)"
proof (induction ps)
  case (Cons p ps)
  then show ?case by (cases p) (auto dest: escape_safe(3))
qed simp

text \<open>
  The same reader over a template, whose values stay what they are. It gives up on a
  value that stands neither in text nor in a quoted attribute: these are the contexts
  in which the escaper above is the right one.
\<close>

type_synonym template_state = "(piece list, piece list) html_state"

fun value_step :: "template_state \<Rightarrow> string \<Rightarrow> template_state option" where
  "value_step (InText r) v = Some (InText (r @ [Val v]))"
| "value_step (Quoted n as a r) v = Some (Quoted n as a (r @ [Val v]))"
| "value_step st v = None"

abbreviation read_template :: "template_state \<Rightarrow> string \<Rightarrow> piece list html_token list \<times> template_state" where
  "read_template \<equiv> html_run [] (\<lambda>r c. r @ [Raw [c]]) (\<lambda>r. r)"

fun template_run :: "template_state \<Rightarrow> piece list \<Rightarrow> (piece list html_token list \<times> template_state) option" where
  "template_run st [] = Some ([], st)"
| "template_run st (Raw s # ps) =
     (case read_template st s of (out, st') \<Rightarrow> map_option (\<lambda>(out', st''). (out @ out', st'')) (template_run st' ps))"
| "template_run st (Val v # ps) = (case value_step st v of None \<Rightarrow> None | Some st' \<Rightarrow> template_run st' ps)"

definition template_tokens :: "piece list \<Rightarrow> piece list html_token list option" where
  "template_tokens ps = map_option (\<lambda>(out, st). out @ last_text st) (template_run (InText []) ps)"

text \<open>What a browser makes of a value that was read.\<close>

definition shown_value :: "piece list \<Rightarrow> string" where
  "shown_value ps = decode_refs (write_pieces ps)"

abbreviation shown_state :: "template_state \<Rightarrow> (string, string) html_state" where
  "shown_state \<equiv> map_html_state write_pieces shown_value"

lemma read_template_step:
  assumes "html_step [] (\<lambda>r c. r @ [Raw [c]]) (\<lambda>r. r) st c = (out, st')"
  shows "html_step [] (\<lambda>r c. r @ [c]) decode_refs (shown_state st) c = (map (map_html_token shown_value) out, shown_state st')"
  using assms by (cases st) (auto simp: shown_value_def)

lemma read_template_run:
  "read_template st s = (out, st') \<Longrightarrow>
     read_html (shown_state st) s = (map (map_html_token shown_value) out, shown_state st')"
proof (induction s arbitrary: st out)
  case (Cons c s)
  obtain out1 st1 where s1: "html_step [] (\<lambda>r c. r @ [Raw [c]]) (\<lambda>r. r) st c = (out1, st1)" by force
  obtain out2 st2 where s2: "read_template st1 s = (out2, st2)" by force
  from Cons.prems s1 s2 have "out = out1 @ out2" "st2 = st'" by simp_all
  with Cons.IH [of st1 out2] s2 read_template_step [OF s1] show ?case by simp
qed simp

lemma value_step_run:
  "value_step st v = Some st' \<Longrightarrow> read_html (shown_state st) (html_escape v) = ([], shown_state st')"
  by (cases st) (auto simp: run_escaped)

lemma template_run_sound:
  "template_run st ps = Some (out, st') \<Longrightarrow>
     read_html (shown_state st) (write_pieces ps) = (map (map_html_token shown_value) out, shown_state st')"
proof (induction st ps arbitrary: out rule: template_run.induct)
  case (2 st s ps)
  obtain out1 st1 where s1: "read_template st s = (out1, st1)" by force
  with 2(2) obtain out2 where "template_run st1 ps = Some (out2, st')" "out = out1 @ out2" by auto
  with 2(1) [OF s1 [symmetric], of out2] read_template_run [OF s1] show ?case by (simp add: html_run_append)
next
  case (3 st v ps)
  then obtain st1 where "value_step st v = Some st1" "template_run st1 ps = Some (out, st')"
    by (auto split: option.splits)
  with 3(1) value_step_run [of st v st1] show ?case by (simp add: html_run_append)
qed simp

text \<open>So whatever the values are, they change the values of tokens and never the tokens.\<close>

lemma template_tokens_sound:
  assumes "template_tokens ps = Some ts"
  shows "html_tokens (write_pieces ps) = content (map (map_html_token shown_value) ts)"
proof -
  from assms obtain out st where r: "template_run (InText []) ps = Some (out, st)" "ts = out @ last_text st"
    by (auto simp: template_tokens_def)
  have "(case shown_state st of InText r \<Rightarrow> [Chars (decode_refs r)] | _ \<Rightarrow> []) =
      map (map_html_token shown_value) (last_text st)"
    by (cases st) (simp_all add: shown_value_def)
  with template_run_sound [OF r(1)] r(2) show ?thesis by (simp add: html_tokens_def)
qed

text \<open>A value is shown as it is where the text of the template beside it has no references.\<close>

fun piece_text :: "piece \<Rightarrow> string" where
  "piece_text (Raw s) = s"
| "piece_text (Val v) = v"

fun clear_piece :: "piece \<Rightarrow> bool" where
  "clear_piece (Raw s) \<longleftrightarrow> CHR ''&'' \<notin> set s"
| "clear_piece (Val v) \<longleftrightarrow> CHR 0x00 \<notin> set v"

definition plain_value :: "piece list \<Rightarrow> string" where
  "plain_value ps = concat (map piece_text ps)"

lemma shown_clear: "list_all clear_piece ps \<Longrightarrow> shown_value ps = plain_value ps"
proof -
  have "list_all clear_piece ps \<Longrightarrow> decode_refs (write_pieces ps) = concat (map piece_text ps)"
  proof (induction ps)
    case (Cons p ps)
    then show ?case by (cases p) (simp_all add: decode_plain decode_escape)
  qed simp
  then show "list_all clear_piece ps \<Longrightarrow> ?thesis" by (simp add: shown_value_def plain_value_def)
qed

text \<open>What is read of clear pieces is clear.\<close>

fun token_values :: "'v html_token \<Rightarrow> 'v list" where
  "token_values (Open n as) = map snd as"
| "token_values (Close n) = []"
| "token_values (Chars v) = [v]"

fun state_values :: "('v, 'v) html_state \<Rightarrow> 'v list" where
  "state_values (InText r) = [r]"
| "state_values (InTag n as) = map snd as"
| "state_values (AttrName n as a) = map snd as"
| "state_values (BeforeValue n as a) = map snd as"
| "state_values (Quoted n as a r) = r # map snd as"
| "state_values st = []"

definition all_clear :: "piece list list \<Rightarrow> bool" where
  "all_clear vs \<longleftrightarrow> list_all (list_all clear_piece) vs"

definition read_clear :: "piece list html_token list \<times> template_state \<Rightarrow> bool" where
  "read_clear r \<longleftrightarrow> list_all (\<lambda>t. all_clear (token_values t)) (fst r) \<and> all_clear (state_values (snd r))"

lemma read_step_clear:
  assumes "all_clear (state_values st)" and "c \<noteq> CHR ''&''"
  shows "read_clear (html_step [] (\<lambda>r c. r @ [Raw [c]]) (\<lambda>r. r) st c)"
  using assms by (cases st) (auto simp: read_clear_def all_clear_def list_all_iff)

lemma read_run_clear:
  "all_clear (state_values st) \<Longrightarrow> CHR ''&'' \<notin> set s \<Longrightarrow> read_clear (read_template st s)"
proof (induction s arbitrary: st)
  case (Cons c s)
  obtain out st' where s1: "html_step [] (\<lambda>r c. r @ [Raw [c]]) (\<lambda>r. r) st c = (out, st')" by force
  with read_step_clear [of st c] Cons.prems have r: "list_all (\<lambda>t. all_clear (token_values t)) out" "all_clear (state_values st')"
    by (auto simp: read_clear_def)
  from Cons.IH [OF r(2)] Cons.prems(2) r(1) s1 show ?case by (auto simp: read_clear_def split: prod.splits)
qed (simp add: read_clear_def)

lemma value_step_clear:
  "value_step st v = Some st' \<Longrightarrow> all_clear (state_values st) \<Longrightarrow> CHR 0x00 \<notin> set v \<Longrightarrow> all_clear (state_values st')"
  by (cases st) (auto simp: all_clear_def)

lemma template_run_clear:
  "template_run st ps = Some r \<Longrightarrow> all_clear (state_values st) \<Longrightarrow> list_all clear_piece ps \<Longrightarrow> read_clear r"
proof (induction st ps arbitrary: r rule: template_run.induct)
  case (2 st s ps)
  obtain out st' where s1: "read_template st s = (out, st')" by force
  with 2(2) obtain r' where r': "template_run st' ps = Some r'" "r = (out @ fst r', snd r')" by auto
  have "read_clear (out, st')" using read_run_clear [of st s] 2(3,4) s1 by simp
  with 2(1) [OF s1 [symmetric] r'(1)] 2(4) r'(2) show ?case by (simp add: read_clear_def)
next
  case (3 st v ps)
  then obtain st1 where "value_step st v = Some st1" "template_run st1 ps = Some r" by (auto split: option.splits)
  with 3 value_step_clear [of st v st1] show ?case by simp
qed (simp add: read_clear_def)

text \<open>The document a template stands for, with its values in their places.\<close>

lemma template_document:
  assumes "template_tokens ps = Some ts" and "list_all clear_piece ps"
  shows "html_tokens (write_pieces ps) = content (map (map_html_token plain_value) ts)"
proof -
  from assms(1) obtain out st where r: "template_run (InText []) ps = Some (out, st)" "ts = out @ last_text st"
    by (auto simp: template_tokens_def)
  have "read_clear (out, st)" by (rule template_run_clear [OF r(1) _ assms(2)]) (simp add: all_clear_def)
  then have "list_all (\<lambda>t. all_clear (token_values t)) ts"
    using r(2) by (cases st) (auto simp: read_clear_def all_clear_def)
  moreover have "map_html_token shown_value t = map_html_token plain_value t" if "all_clear (token_values t)" for t
    using that by (cases t) (auto simp: all_clear_def list_all_iff shown_clear)
  ultimately have "map (map_html_token shown_value) ts = map (map_html_token plain_value) ts"
    by (induction ts) simp_all
  then show ?thesis by (simp only: template_tokens_sound [OF assms(1)])
qed

end
