(* ===== verification/Templates.thy ===== *)
theory Templates
  imports Handlers Html
begin

text \<open>
  The templates of \<open>web/templates\<close>, and \<open>ExecuteTemplate\<close> for the views the handlers
  render: each template as its own text and the values it shows, which stand in text or
  in quoted attributes, where \<open>html/template\<close> escapes them. Comments of the page are
  dropped, as \<open>html/template\<close> does.
\<close>

section \<open>The partials\<close>

definition tpl_target_row :: "target \<Rightarrow> piece list" where
  "tpl_target_row t =
     [Raw (LF # ''<tr id=\"target-''), Val (ID t), Raw (''\">'' @
      LF # ''    <td id=\"status-''), Val (ID t), Raw (''\" class=\"status-cell\">'' @
      LF # ''        <span class=\"status-badge status-pending\"><span class=\"status-dot\"></span>Pending</span>'' @
      LF # ''    </td>'' @
      LF # ''    <td class=\"url-cell\" title=\"''), Val (URL t), Raw ''\">'', Val (URL t), Raw (''</td>'' @
      LF # ''    <td id=\"latency-''), Val (ID t), Raw (''\" class=\"latency-cell\">'' @ em_dash @ ''</td>'' @
      LF # ''    <td class=\"stats-cell\"><span id=\"stats-''), Val (ID t), Raw (''\">'' @
      LF # ''        <span class=\"mini-stat\"><span class=\"mini-stat-label\">checks</span><span class=\"mini-stat-value\">0</span></span>'' @
      LF # ''        <span class=\"mini-stat\"><span class=\"mini-stat-label\">failures</span><span class=\"mini-stat-value\">0</span></span>'' @
      LF # ''        <span class=\"mini-stat\"><span class=\"mini-stat-label\">p50</span><span class=\"mini-stat-value\">'' @ em_dash @ ''</span></span>'' @
      LF # ''        <span class=\"mini-stat\"><span class=\"mini-stat-label\">p99</span><span class=\"mini-stat-value\">'' @ em_dash @ ''</span></span>'' @
      LF # ''    </span></td>'' @
      LF # ''    <td class=\"actions-cell\">'' @
      LF # ''        <button class=\"delete-btn\" title=\"Remove from monitoring\" hx-delete=\"/targets/''), Val (ID t),
      Raw ''\" hx-target=\"#target-'', Val (ID t), Raw ''\" hx-swap=\"outerHTML\" hx-confirm=\"Remove '', Val (URL t),
      Raw ('' from monitoring?\">Delete</button>'' @
      LF # ''    </td>'' @
      LF # ''</tr>'' @ [LF])]"

definition tpl_check_status :: "check_status_view \<Rightarrow> piece list" where
  "tpl_check_status v =
     [Raw (LF # ''<td id=\"status-''), Val (cv_id v), Raw (''\" hx-swap-oob=\"true\" class=\"status-cell\">'' @
      LF # ''    <span class=\"status-badge status-''), Val (cv_status v), Raw ''\"''] @
     (if cv_error v = [] then [] else [Raw '' title=\"'', Val (cv_error v), Raw ''\"'']) @
     [Raw ''><span class=\"status-dot\"></span>'', Val (cv_label v), Raw (''</span>'' @
      LF # ''</td>'' @
      LF # ''<td id=\"latency-''), Val (cv_id v), Raw ''\" hx-swap-oob=\"true\" class=\"latency-cell\">'', Val (cv_latency v),
      Raw (''</td>'' @ [LF])]"

definition stats_pieces :: "string \<Rightarrow> string \<Rightarrow> string \<Rightarrow> piece list \<Rightarrow> piece list \<Rightarrow> piece list" where
  "stats_pieces tid n failed p50 p99 =
     [Raw (LF # ''<span id=\"stats-''), Val tid, Raw (''\" hx-swap-oob=\"true\">'' @
      LF # ''    <span class=\"mini-stat\"><span class=\"mini-stat-label\">checks</span><span class=\"mini-stat-value\">''),
      Val n, Raw (''</span></span>'' @
      LF # ''    <span class=\"mini-stat\"><span class=\"mini-stat-label\">failures</span><span class=\"mini-stat-value\">''),
      Val failed, Raw (''</span></span>'' @
      LF # ''    <span class=\"mini-stat\"><span class=\"mini-stat-label\">p50</span><span class=\"mini-stat-value\">'')] @
     p50 @
     [Raw (''</span></span>'' @
      LF # ''    <span class=\"mini-stat\"><span class=\"mini-stat-label\">p99</span><span class=\"mini-stat-value\">'')] @
     p99 @
     [Raw (''</span></span>'' @
      LF # ''</span>'' @ [LF])]"

text \<open>\<open>{{if gt .Total 0}}{{.P50MS}} ms{{else}}...{{end}}\<close>\<close>

definition latency_pieces :: "int \<Rightarrow> string \<Rightarrow> piece list" where
  "latency_pieces n ms = (if 0 < n then [Val ms, Raw '' ms''] else [Raw em_dash])"

definition tpl_stats :: "string \<Rightarrow> int \<Rightarrow> int \<Rightarrow> int \<Rightarrow> int \<Rightarrow> piece list" where
  "tpl_stats tid n failed p50 p99 =
     stats_pieces tid (show_int n) (show_int failed) (latency_pieces n (show_int p50)) (latency_pieces n (show_int p99))"

definition tpl_target_added :: "target \<Rightarrow> piece list" where
  "tpl_target_added t =
     [Raw (LF # ''<tbody id=\"targets-tbody\" hx-swap-oob=\"beforeend\">'')] @ tpl_target_row t @ [Raw (''</tbody>'' @ [LF])]"

definition tpl_target_removed :: "string \<Rightarrow> piece list" where
  "tpl_target_removed tid =
     [Raw (LF # ''<tr id=\"target-''), Val tid, Raw (''\" hx-swap-oob=\"delete\"></tr>'' @ [LF])]"

section \<open>The page\<close>

definition index_meta :: string where
  "index_meta =
      ''<!DOCTYPE html>'' @
      LF # ''<html lang=\"en\">'' @
      LF # ''<head>'' @
      LF # ''    <meta charset=\"UTF-8\">'' @
      LF # ''    <meta name=\"viewport\" content=\"width=device-width, initial-scale=1.0\">'' @
      LF # ''    <title>Concurrent Health Monitor</title>'' @
      LF # ''    <link rel=\"icon\" type=\"image/jpeg\" href=\"/static/images/icon.jpg\">'' @
      LF # ''    '' @
      LF # ''    <link rel=\"preconnect\" href=\"https://fonts.googleapis.com\">'' @
      LF # ''    <link rel=\"preconnect\" href=\"https://fonts.gstatic.com\" crossorigin>'' @
      LF # ''    <link href=\"https://fonts.googleapis.com/css2?family=Inter:wght@400;500;600&display=swap\" rel=\"stylesheet\">'' @
      LF # ''    <link rel=\"stylesheet\" href=\"/static/css/style.css\">'' @
      LF # ''    '' @
      LF # ''    <script src=\"https://unpkg.com/htmx.org@1.9.11\"></script>'' @
      LF # ''    <script src=\"https://unpkg.com/htmx.org@1.9.11/dist/ext/sse.js\"></script>'' @
      LF # ''</head>''"

definition index_header :: string where
  "index_header =
      LF # ''<body hx-ext=\"sse\" sse-connect=\"/events\">'' @
      LF # ''    <div class=\"container\">'' @
      LF # ''        <header>'' @
      LF # ''            <div class=\"header-row\">'' @
      LF # ''                <h1>Pulse Monitor</h1>'' @
      LF # ''                <span id=\"live-indicator\" class=\"live-indicator\"><span class=\"live-dot\"></span><span class=\"live-label\">Connecting</span></span>'' @
      LF # ''            </div>'' @
      LF # ''            <p>Concurrent Health Checking Engine</p>'' @
      LF # ''        </header>'' @ [LF]"

definition index_metrics :: string where
  "index_metrics =
      LF # ''        '' @
      LF # ''        <section class=\"metrics-bar card\" aria-label=\"Process metrics\">'' @
      LF # ''            <div class=\"metric\"><span class=\"metric-value\" id=\"m-checks\">'' @ em_dash @ ''</span><span class=\"metric-label\">Checks</span></div>'' @
      LF # ''            <div class=\"metric\"><span class=\"metric-value\" id=\"m-inflight\">'' @ em_dash @ ''</span><span class=\"metric-label\">In Flight</span></div>'' @
      LF # ''            <div class=\"metric\"><span class=\"metric-value is-alert-capable\" id=\"m-failures\">'' @ em_dash @ ''</span><span class=\"metric-label\">Failures</span></div>'' @
      LF # ''            <div class=\"metric\"><span class=\"metric-value\" id=\"m-success\">'' @ em_dash @ ''</span><span class=\"metric-label\">Success Rate</span></div>'' @
      LF # ''            <div class=\"metric\"><span class=\"metric-value\" id=\"m-uptime\">'' @ em_dash @ ''</span><span class=\"metric-label\">Uptime</span></div>'' @
      LF # ''            <div class=\"metric-bar\"><div class=\"metric-bar-fill\" id=\"m-success-bar\"></div></div>'' @
      LF # ''        </section>'' @ [LF]"

definition index_form :: string where
  "index_form =
      LF # ''        <section class=\"add-target card\">'' @
      LF # ''            <label class=\"field-label\" for=\"target-url\">Add a URL to monitor</label>'' @
      LF # ''            <form hx-post=\"/targets\" hx-target=\"#targets-tbody\" hx-swap=\"beforeend\" hx-on::after-request=\"if(event.detail.successful) this.reset()\">'' @
      LF # ''                <input type=\"url\" id=\"target-url\" name=\"url\" placeholder=\"https://example.com\" required autocomplete=\"off\" spellcheck=\"false\">'' @
      LF # ''                <button type=\"submit\">Add Target</button>'' @
      LF # ''            </form>'' @
      LF # ''        </section>'' @ [LF]"

definition index_table :: string where
  "index_table =
      LF # ''        <section class=\"targets-list card\">'' @
      LF # ''            <table>'' @
      LF # ''                <thead>'' @
      LF # ''                    <tr>'' @
      LF # ''                        <th>Status</th>'' @
      LF # ''                        <th>URL</th>'' @
      LF # ''                        <th>Latency</th>'' @
      LF # ''                        <th>Stats</th>'' @
      LF # ''                        <th></th>'' @
      LF # ''                    </tr>'' @
      LF # ''                </thead>'' @
      LF # ''                <tbody id=\"targets-tbody\">'' @
      LF # ''                    ''"

definition index_tail :: string where
  "index_tail =
      LF # ''                </tbody>'' @
      LF # ''            </table>'' @
      LF # ''            <div id=\"empty-row\" class=\"empty-row\" hidden>No targets yet '' @ em_dash @ '' add one above.</div>'' @
      LF # ''        </section>'' @
      LF # ''    </div>'' @
      [LF] @
      LF # ''    '' @
      LF # ''    <div id=\"sse-sink\" hidden sse-swap=\"check,stats,target_added,target_removed\"></div>'' @
      [LF] @
      LF # ''    '' @
      LF # ''    <div id=\"toast\" class=\"toast\" hidden></div>'' @
      [LF] @
      LF # ''    <script src=\"/static/js/app.js\"></script>'' @
      LF # ''</body>'' @
      LF # ''</html>''"

definition tpl_index :: "target list \<Rightarrow> piece list" where
  "tpl_index ts = [Raw index_meta, Raw index_header, Raw index_metrics, Raw index_form, Raw index_table] @
     concat (map tpl_target_row ts) @ [Raw index_tail]"

section \<open>ExecuteTemplate\<close>

text \<open>Writing to a buffer never fails, and no action of the templates does.\<close>

fun view_pieces :: "view \<Rightarrow> piece list" where
  "view_pieces (IndexView ts) = tpl_index ts"
| "view_pieces (RowView t) = tpl_target_row t"
| "view_pieces (StatusView v) = tpl_check_status v"
| "view_pieces (StatsView tid n failed p50 p99) = tpl_stats tid n failed p50 p99"
| "view_pieces (AddedView t) = tpl_target_added t"
| "view_pieces (RemovedView tid) = tpl_target_removed tid"

definition ExecuteTemplate :: renderer where
  "ExecuteTemplate v = (write_pieces (view_pieces v), True)"

end
