(* ===== verification/Fragments.thy ===== *)
theory Fragments
  imports Templates
begin

text \<open>
  What a browser reads of the pages and fragments of \<open>Templates\<close>: the document of each
  event, with every value in its place, the rows of the page, and what an out-of-band
  fragment does to the rows of an open tab.
\<close>

section \<open>Documents\<close>

definition mini_stat :: "string \<Rightarrow> string \<Rightarrow> string html_token list" where
  "mini_stat label v =
     [Open ''span'' [(''class'', ''mini-stat'')], Open ''span'' [(''class'', ''mini-stat-label'')], Chars label, Close ''span'',
      Open ''span'' [(''class'', ''mini-stat-value'')], Chars v, Close ''span'', Close ''span'']"

definition row_document :: "target \<Rightarrow> string html_token list" where
  "row_document t =
     [Open ''tr'' [(''id'', ''target-'' @ ID t)],
      Open ''td'' [(''id'', ''status-'' @ ID t), (''class'', ''status-cell'')],
      Open ''span'' [(''class'', ''status-badge status-pending'')],
      Open ''span'' [(''class'', ''status-dot'')], Close ''span'', Chars ''Pending'', Close ''span'', Close ''td'',
      Open ''td'' [(''class'', ''url-cell''), (''title'', URL t)], Chars (URL t), Close ''td'',
      Open ''td'' [(''id'', ''latency-'' @ ID t), (''class'', ''latency-cell'')], Chars em_dash, Close ''td'',
      Open ''td'' [(''class'', ''stats-cell'')], Open ''span'' [(''id'', ''stats-'' @ ID t)]] @
     mini_stat ''checks'' ''0'' @ mini_stat ''failures'' ''0'' @ mini_stat ''p50'' em_dash @ mini_stat ''p99'' em_dash @
     [Close ''span'', Close ''td'',
      Open ''td'' [(''class'', ''actions-cell'')],
      Open ''button'' [(''class'', ''delete-btn''), (''title'', ''Remove from monitoring''),
        (''hx-delete'', ''/targets/'' @ ID t), (''hx-target'', ''#target-'' @ ID t), (''hx-swap'', ''outerHTML''),
        (''hx-confirm'', ''Remove '' @ URL t @ '' from monitoring?'')],
      Chars ''Delete'', Close ''button'', Close ''td'', Close ''tr'']"

definition stats_document :: "string \<Rightarrow> string \<Rightarrow> string \<Rightarrow> string \<Rightarrow> string \<Rightarrow> string html_token list" where
  "stats_document tid n failed p50 p99 =
     [Open ''span'' [(''id'', ''stats-'' @ tid), (''hx-swap-oob'', ''true'')]] @
     mini_stat ''checks'' n @ mini_stat ''failures'' failed @ mini_stat ''p50'' p50 @ mini_stat ''p99'' p99 @ [Close ''span'']"

fun document :: "view \<Rightarrow> string html_token list" where
  "document (AddedView t) =
     [Open ''tbody'' [(''id'', ''targets-tbody''), (''hx-swap-oob'', ''beforeend'')]] @ row_document t @ [Close ''tbody'']"
| "document (RemovedView tid) =
     [Open ''tr'' [(''id'', ''target-'' @ tid), (''hx-swap-oob'', ''delete'')], Close ''tr'']"
| "document (StatusView v) =
     [Open ''td'' [(''id'', ''status-'' @ cv_id v), (''hx-swap-oob'', ''true''), (''class'', ''status-cell'')],
      Open ''span'' ([(''class'', ''status-badge status-'' @ cv_status v)] @
        (if cv_error v = [] then [] else [(''title'', cv_error v)])),
      Open ''span'' [(''class'', ''status-dot'')], Close ''span'', Chars (cv_label v), Close ''span'', Close ''td'',
      Open ''td'' [(''id'', ''latency-'' @ cv_id v), (''hx-swap-oob'', ''true''), (''class'', ''latency-cell'')],
      Chars (cv_latency v), Close ''td'']"
| "document (StatsView tid n failed p50 p99) =
     stats_document tid (show_int n) (show_int failed)
       (if 0 < n then show_int p50 @ '' ms'' else em_dash) (if 0 < n then show_int p99 @ '' ms'' else em_dash)"
| "document (RowView t) = row_document t"
| "document (IndexView ts) = html_tokens (write_pieces (tpl_index ts))"

text \<open>Values without control characters that mark-up cannot carry, and text that is more than blanks.\<close>

definition clear_value :: "string \<Rightarrow> bool" where
  "clear_value v \<longleftrightarrow> CHR 0x00 \<notin> set v \<and> CHR 0x0D \<notin> set v"

definition shown_text :: "string \<Rightarrow> bool" where
  "shown_text v \<longleftrightarrow> clear_value v \<and> \<not> list_all html_space v"

definition clear_target :: "target \<Rightarrow> bool" where
  "clear_target t \<longleftrightarrow> clear_value (ID t) \<and> shown_text (URL t)"

fun clear_view :: "view \<Rightarrow> bool" where
  "clear_view (AddedView t) = clear_target t"
| "clear_view (RemovedView tid) = clear_value tid"
| "clear_view (StatusView v) \<longleftrightarrow> clear_value (cv_id v) \<and> clear_value (cv_status v) \<and> clear_value (cv_error v) \<and>
     shown_text (cv_label v) \<and> shown_text (cv_latency v)"
| "clear_view (StatsView tid n failed p50 p99) = clear_value tid"
| "clear_view (RowView t) = clear_target t"
| "clear_view (IndexView ts) = list_all clear_target ts"

text \<open>The reader of templates, evaluated on each of them with its values left open.\<close>

definition plain_document :: "piece list \<Rightarrow> string html_token list option" where
  "plain_document ps = map_option (content \<circ> map (map_html_token plain_value)) (template_tokens ps)"

lemma document_read:
  assumes "plain_document ps = Some d" and "list_all clear_piece ps"
  shows "html_tokens (write_pieces ps) = d"
proof -
  from assms(1) obtain ts where ts: "template_tokens ps = Some ts" "content (map (map_html_token plain_value) ts) = d"
    by (auto simp: plain_document_def)
  with template_document [OF ts(1) assms(2)] show ?thesis by simp
qed

lemma row_read:
  assumes "\<not> list_all html_space (URL t)"
  shows "plain_document (tpl_target_row t) = Some (row_document t)"
  by (insert assms, code_simp) (auto simp: html_space_def list_all_iff)

lemma added_read:
  assumes "\<not> list_all html_space (URL t)"
  shows "plain_document (tpl_target_added t) = Some (document (AddedView t))"
  by (insert assms, code_simp) (auto simp: html_space_def list_all_iff)

lemma removed_read: "plain_document (tpl_target_removed tid) = Some (document (RemovedView tid))"
  by code_simp simp

lemma status_read_ok:
  assumes "\<not> list_all html_space label" and "\<not> list_all html_space latency"
  shows "plain_document (tpl_check_status \<lparr>cv_id = tid, cv_status = st, cv_label = label, cv_latency = latency, cv_error = []\<rparr>) =
      Some (document (StatusView \<lparr>cv_id = tid, cv_status = st, cv_label = label, cv_latency = latency, cv_error = []\<rparr>))"
  by (insert assms, code_simp) (auto simp: html_space_def list_all_iff)

lemma status_read_error:
  assumes "\<not> list_all html_space label" and "\<not> list_all html_space latency"
  shows "plain_document (tpl_check_status \<lparr>cv_id = tid, cv_status = st, cv_label = label, cv_latency = latency, cv_error = c # e\<rparr>) =
      Some (document (StatusView \<lparr>cv_id = tid, cv_status = st, cv_label = label, cv_latency = latency, cv_error = c # e\<rparr>))"
  by (insert assms, code_simp) (auto simp: html_space_def list_all_iff)

lemma status_read:
  assumes "\<not> list_all html_space (cv_label v)" and "\<not> list_all html_space (cv_latency v)"
  shows "plain_document (tpl_check_status v) = Some (document (StatusView v))"
proof (cases v)
  case (fields tid st label latency err)
  with assms status_read_ok [of label latency] status_read_error [of label latency] show ?thesis
    by (cases err) simp_all
qed

lemma stats_read_none:
  assumes "\<not> list_all html_space n" and "\<not> list_all html_space failed"
  shows "plain_document (stats_pieces tid n failed [Raw em_dash] [Raw em_dash]) =
      Some (stats_document tid n failed em_dash em_dash)"
  by (insert assms, code_simp) (auto simp: html_space_def list_all_iff)

lemma stats_read_some:
  assumes "\<not> list_all html_space n" and "\<not> list_all html_space failed"
  shows "plain_document (stats_pieces tid n failed [Val p50, Raw '' ms''] [Val p99, Raw '' ms'']) =
      Some (stats_document tid n failed (p50 @ '' ms'') (p99 @ '' ms''))"
  by (insert assms, code_simp) (auto simp: html_space_def list_all_iff)

lemma plain_shown: "plain c \<Longrightarrow> \<not> html_space c \<and> c \<noteq> CHR 0x00 \<and> c \<noteq> CHR 0x0D"
  by (auto simp: plain_def html_space_def)

lemma show_int_shown: "shown_text (show_int k)"
proof -
  have "list_all plain (show_int k) \<and> show_int k \<noteq> []"
    using show_nat_digits by (simp add: show_int_def plain_def)
  then show ?thesis using plain_shown by (cases "show_int k") (auto simp: shown_text_def clear_value_def list_all_iff)
qed

lemma stats_read:
  "plain_document (tpl_stats tid n failed p50 p99) = Some (document (StatsView tid n failed p50 p99))"
  using stats_read_none [of "show_int n" "show_int failed"] stats_read_some [of "show_int n" "show_int failed"]
    show_int_shown [of n] show_int_shown [of failed]
  by (simp add: tpl_stats_def latency_pieces_def shown_text_def)

text \<open>The templates themselves hold no reference and no carriage return.\<close>

lemmas template_defs = tpl_target_row_def tpl_check_status_def tpl_target_added_def tpl_target_removed_def
  tpl_stats_def stats_pieces_def latency_pieces_def em_dash_def

fun static_ok :: "piece \<Rightarrow> bool" where
  "static_ok (Raw s) \<longleftrightarrow> CHR ''&'' \<notin> set s \<and> CHR 0x0D \<notin> set s"
| "static_ok (Val v) \<longleftrightarrow> clear_value v"

lemma static_clear: "list_all static_ok ps \<Longrightarrow> list_all clear_piece ps \<and> \<not> list_ex (piece_has (CHR 0x0D)) ps"
proof (induction ps)
  case (Cons p ps)
  then show ?case by (cases p) (auto simp: clear_value_def)
qed simp

lemma row_static: "clear_value (ID t) \<Longrightarrow> clear_value (URL t) \<Longrightarrow> list_all static_ok (tpl_target_row t)"
  by (simp add: template_defs)

lemma view_static: "clear_view v \<Longrightarrow> (\<forall>ts. v \<noteq> IndexView ts) \<Longrightarrow> list_all static_ok (view_pieces v)"
  using show_int_shown row_static
  by (cases v) (auto simp: template_defs clear_target_def shown_text_def)

lemma view_read:
  assumes "clear_view v"
  shows "html_tokens (fst (ExecuteTemplate v)) = document v"
proof (cases "\<exists>ts. v = IndexView ts")
  case False
  with assms view_static static_clear have "list_all clear_piece (view_pieces v)" by blast
  moreover have "plain_document (view_pieces v) = Some (document v)"
    using assms False added_read removed_read status_read stats_read row_read
    by (cases v) (auto simp: clear_target_def shown_text_def simp del: document.simps(1-4))
  ultimately show ?thesis by (simp add: document_read ExecuteTemplate_def)
qed (auto simp: ExecuteTemplate_def)

lemma view_sendable:
  assumes "clear_view v" and "\<forall>ts. v \<noteq> IndexView ts"
  shows "CHR 0x0D \<notin> set (fst (ExecuteTemplate v))"
  using view_static [OF assms] static_clear write_no_cr by (simp add: ExecuteTemplate_def)

section \<open>Rows\<close>

text \<open>The row that an element stands for, by its \<open>id\<close>.\<close>

definition row_id :: "string \<Rightarrow> string option" where
  "row_id v = (if take 7 v = ''target-'' then Some (drop 7 v) else None)"

lemma row_id_target [simp]: "row_id (''target-'' @ x) = Some x"
  by (simp add: row_id_def)

fun tr_id :: "'v html_token \<Rightarrow> 'v option" where
  "tr_id (Open n as) = (if n = ''tr'' then map_of as ''id'' else None)"
| "tr_id t = None"

definition page_rows :: "string \<Rightarrow> string list" where
  "page_rows body = List.map_filter row_id (List.map_filter tr_id (html_tokens body))"

lemma map_of_values: "map_of (map (map_prod id f) as) k = map_option f (map_of as k)"
  by (induction as) auto

lemma tr_id_map: "tr_id (map_html_token f t) = map_option f (tr_id t)"
  by (cases t) (simp_all add: map_of_values)

lemma tr_ids_map: "List.map_filter tr_id (map (map_html_token f) ts) = map f (List.map_filter tr_id ts)"
  by (induction ts) (auto simp: List.map_filter_simps tr_id_map split: option.splits)

lemma tr_ids_content: "List.map_filter tr_id (content ts) = List.map_filter tr_id ts"
proof -
  have "blank t \<Longrightarrow> tr_id t = None" for t by (cases t) simp_all
  then show ?thesis by (induction ts) (auto simp: content_def List.map_filter_simps split: option.splits)
qed

definition tr_ids_of :: "piece list html_token list \<times> template_state \<Rightarrow> piece list list option" where
  "tr_ids_of r = (case r of (out, InText x) \<Rightarrow> Some (List.map_filter tr_id out) | _ \<Rightarrow> None)"

definition row_id_pieces :: "target \<Rightarrow> piece list" where
  "row_id_pieces t = map (\<lambda>c. Raw [c]) ''target-'' @ [Val (ID t)]"

lemma head_ids:
  "Option.bind (template_run (InText r) [Raw index_meta]) tr_ids_of = Some []"
  "Option.bind (template_run (InText r) [Raw index_header]) tr_ids_of = Some []"
  "Option.bind (template_run (InText r) [Raw index_metrics]) tr_ids_of = Some []"
  "Option.bind (template_run (InText r) [Raw index_form]) tr_ids_of = Some []"
  "Option.bind (template_run (InText r) [Raw index_table]) tr_ids_of = Some []"
  by code_simp+

lemma tail_ids: "Option.bind (template_run (InText r) [Raw index_tail]) tr_ids_of = Some []"
  by code_simp

lemma row_ids: "Option.bind (template_run (InText r) (tpl_target_row t)) tr_ids_of = Some [row_id_pieces t]"
  by code_simp

text \<open>Each part of the page is read in text and ends in text.\<close>

lemma template_run_append:
  "template_run st (ps @ qs) =
     (case template_run st ps of None \<Rightarrow> None
      | Some (out, st') \<Rightarrow> map_option (\<lambda>(out', st''). (out @ out', st'')) (template_run st' qs))"
proof (induction st ps rule: template_run.induct)
  case (1 st)
  show ?case by (cases "template_run st qs") auto
next
  case (2 st s ps)
  obtain out st' where s1: "read_template st s = (out, st')" by force
  show ?case
  proof (cases "template_run st' ps")
    case (Some r)
    then show ?thesis using 2 [OF s1 [symmetric]] s1
      by (cases r; cases "template_run (snd r) qs") auto
  qed (use 2 [OF s1 [symmetric]] s1 in simp)
next
  case (3 st v ps)
  then show ?case by (cases "value_step st v") auto
qed

lemma tr_ids_of_Some:
  "Option.bind r tr_ids_of = Some ids \<longleftrightarrow> (\<exists>out x. r = Some (out, InText x) \<and> ids = List.map_filter tr_id out)"
proof -
  have "tr_ids_of (out, st) = Some ids \<longleftrightarrow> (\<exists>x. st = InText x) \<and> ids = List.map_filter tr_id out" for out st
    by (cases st) (auto simp: tr_ids_of_def)
  then show ?thesis by (auto simp: bind_eq_Some_conv)
qed

lemma map_filter_append: "List.map_filter f (xs @ ys) = List.map_filter f xs @ List.map_filter f ys"
  by (simp add: List.map_filter_def)

lemma tr_ids_append:
  assumes "Option.bind (template_run (InText r) ps) tr_ids_of = Some ids"
    and "\<And>x. Option.bind (template_run (InText x) qs) tr_ids_of = Some ids'"
  shows "Option.bind (template_run (InText r) (ps @ qs)) tr_ids_of = Some (ids @ ids')"
proof -
  from assms(1) obtain out x where p: "template_run (InText r) ps = Some (out, InText x)" "ids = List.map_filter tr_id out"
    by (auto simp: tr_ids_of_Some)
  from assms(2) [of x] obtain out' y where q: "template_run (InText x) qs = Some (out', InText y)"
    "ids' = List.map_filter tr_id out'"
    by (auto simp: tr_ids_of_Some)
  show ?thesis by (simp add: template_run_append p q tr_ids_of_def map_filter_append)
qed

lemma rows_ids: "Option.bind (template_run (InText r) (concat (map tpl_target_row ts))) tr_ids_of = Some (map row_id_pieces ts)"
proof (induction ts arbitrary: r)
  case (Cons t ts)
  from tr_ids_append [OF row_ids Cons.IH, of r t] show ?case by simp
qed (simp add: tr_ids_of_def List.map_filter_simps)

lemma shown_row_id: "clear_value (ID t) \<Longrightarrow> shown_value (row_id_pieces t) = ''target-'' @ ID t"
  by (subst shown_clear) (simp_all add: row_id_pieces_def clear_value_def plain_value_def)

lemma row_ids_back: "List.map_filter row_id (map (\<lambda>t. ''target-'' @ ID t) ts) = map ID ts"
  by (induction ts) (simp_all add: List.map_filter_simps row_id_def)

lemma index_rows:
  assumes "\<forall>t \<in> set ts. clear_value (ID t)"
  shows "page_rows (fst (ExecuteTemplate (IndexView ts))) = map ID ts"
proof -
  have "Option.bind (template_run (InText []) ([Raw index_meta] @ [Raw index_header] @ [Raw index_metrics] @ [Raw index_form] @
      [Raw index_table] @ concat (map tpl_target_row ts) @ [Raw index_tail])) tr_ids_of
      = Some ([] @ [] @ [] @ [] @ [] @ map row_id_pieces ts @ [])"
    by (intro tr_ids_append head_ids rows_ids tail_ids)
  then obtain out x where o: "template_run (InText []) (tpl_index ts) = Some (out, InText x)"
    "List.map_filter tr_id out = map row_id_pieces ts"
    by (auto simp: tpl_index_def tr_ids_of_Some)
  then have "template_tokens (tpl_index ts) = Some (out @ [Chars x])" by (simp add: template_tokens_def)
  from template_tokens_sound [OF this] have
    "List.map_filter tr_id (html_tokens (write_pieces (tpl_index ts))) = map shown_value (map row_id_pieces ts)"
    by (simp only: tr_ids_content tr_ids_map) (simp add: map_filter_append o(2) List.map_filter_simps)
  also have "\<dots> = map (\<lambda>t. ''target-'' @ ID t) ts" using assms by (simp add: shown_row_id)
  finally show ?thesis using row_ids_back [of ts] by (simp add: page_rows_def ExecuteTemplate_def)
qed

section \<open>Properties\<close>

lemma accepted_url_shown:
  assumes "validateTargetURL form_url = Inr url"
  shows "shown_text url"
proof -
  from assms obtain u where u: "url = TrimSpace form_url" "url \<noteq> []" "ParseRequestURI url = Inr u"
    by (auto simp: validate_Inr)
  from u(3) have "\<not> list_ex is_control url"
    by (auto simp: ParseRequestURI_def parse_url_def split: if_splits)
  then have "clear_value url" by (auto simp: clear_value_def list_ex_iff is_control_def byte_def)
  moreover have "hd url \<in> set url" using u(2) by simp
  moreover have "\<not> html_space (hd url)"
  proof
    assume space: "html_space (hd url)"
    obtain c s where url: "url = c # s" using u(2) by (cases url) auto
    have "\<not> is_alpha c" "\<not> is_dec c" "c \<notin> set ''+-.:''"
      using space by (auto simp: url html_space_def is_alpha_def is_upper_def is_dec_def byte_def)
    then have "getScheme url = Inr ([], url)" by (simp add: url getScheme_def)
    moreover have "\<not> prefix ''/'' (fst (cut_at (CHR ''?'') url))"
      using space by (auto simp: url html_space_def cut_at_def)
    ultimately have "\<exists>e. ParseRequestURI url = Inl e \<or> url = ''*''"
      by (auto simp: ParseRequestURI_def parse_url_def to_lower_def Let_def)
    with u(3) space show False by (auto simp: html_space_def)
  qed
  ultimately show ?thesis by (auto simp: shown_text_def list_all_iff)
qed

lemma check_view_clear:
  assumes "clear_value (ID (Target r))" and "clear_value (cv_error (checkStatusFromResult quote r))"
  shows "clear_view (StatusView (checkStatusFromResult quote r))"
proof -
  have "shown_text (show_int k @ '' ms'')" for k
    using show_int_shown [of k] by (simp add: shown_text_def clear_value_def)
  moreover have "shown_text em_dash" by (simp add: shown_text_def clear_value_def em_dash_def html_space_def)
  ultimately show ?thesis using assms
    by (simp add: checkStatusFromResult_def shown_text_def clear_value_def html_space_def)
qed



end
