(* ===== verification/Browser.thy ===== *)
theory Browser
  imports Dashboard Fragments
begin

text \<open>
  The dashboard with its templates: what \<open>htmx\<close> does to the rows of an open tab with the
  fragments of \<open>Fragments\<close>, and the end-to-end statement of \<open>Dashboard\<close> for the bytes
  that the program writes.
\<close>

section \<open>Fragments and rows\<close>

text \<open>
  What the page relies on in \<open>htmx\<close>, which it loads from elsewhere: the documented
  out-of-band swaps. \<open>delete\<close> removes the element with the id of the fragment, \<open>beforeend\<close>
  appends what the fragment holds to that element, and \<open>true\<close> replaces that element, a
  cell of a row, and leaves the rows.
\<close>

definition htmx_swaps :: "(string html_token list \<Rightarrow> row_op) \<Rightarrow> bool" where
  "htmx_swaps swap \<longleftrightarrow>
     (\<forall>n as ts x. map_of as ''hx-swap-oob'' = Some ''delete'' \<and> map_of as ''id'' = Some (''target-'' @ x) \<longrightarrow>
        swap (Open n as # ts) = DropRow x) \<and>
     (\<forall>n as bs ts x. map_of as ''hx-swap-oob'' = Some ''beforeend'' \<and> map_of as ''id'' = Some ''targets-tbody'' \<and>
        map_of bs ''id'' = Some (''target-'' @ x) \<and> List.map_filter tr_id ts = [] \<longrightarrow>
        swap (Open n as # Open ''tr'' bs # ts) = AddRow x) \<and>
     (\<forall>n as ts. map_of as ''hx-swap-oob'' = Some ''true'' \<longrightarrow> swap (Open n as # ts) = KeepRows)"

lemma swap_append:
  assumes "htmx_swaps swap" and "map_of as ''hx-swap-oob'' = Some ''beforeend''" and "map_of as ''id'' = Some ''targets-tbody''"
    and "map_of bs ''id'' = Some (''target-'' @ x)" and "List.map_filter tr_id ts = []"
  shows "swap (Open n as # Open ''tr'' bs # ts) = AddRow x"
  using assms unfolding htmx_swaps_def by blast

text \<open>The shortest swap of this kind, for concrete runs.\<close>

definition plain_swap :: "string html_token list \<Rightarrow> row_op" where
  "plain_swap ts =
     (case ts of
        Open n as # rest \<Rightarrow>
          (if map_of as ''hx-swap-oob'' = Some ''delete''
           then (case Option.bind (map_of as ''id'') row_id of Some x \<Rightarrow> DropRow x | None \<Rightarrow> KeepRows)
           else if map_of as ''hx-swap-oob'' = Some ''beforeend''
           then (case List.map_filter row_id (List.map_filter tr_id rest) of x # _ \<Rightarrow> AddRow x | [] \<Rightarrow> KeepRows)
           else KeepRows)
      | _ \<Rightarrow> KeepRows)"

lemma plain_swaps: "htmx_swaps plain_swap"
  by (simp add: htmx_swaps_def plain_swap_def List.map_filter_simps row_id_def)

definition html_decode :: "(string html_token list \<Rightarrow> row_op) \<Rightarrow> string \<times> string \<Rightarrow> row_op" where
  "html_decode swap m = swap (html_tokens (snd m))"

lemma row_parts:
  "row_document t = Open ''tr'' [(''id'', ''target-'' @ ID t)] # tl (row_document t)"
  "List.map_filter tr_id (tl (row_document t) @ [Close ''tbody'']) = []"
  by (simp_all add: row_document_def mini_stat_def List.map_filter_simps)

section \<open>What is published\<close>

fun published_form :: "string \<times> view \<Rightarrow> bool" where
  "published_form (n, AddedView t) \<longleftrightarrow> n = ''target_added''"
| "published_form (n, RemovedView tid) \<longleftrightarrow> n = ''target_removed''"
| "published_form (n, StatusView v) \<longleftrightarrow> n = ''check''"
| "published_form (n, StatsView tid m failed p50 p99) \<longleftrightarrow> n = ''stats''"
| "published_form e \<longleftrightarrow> False"

lemma published_step:
  assumes "sys_step quote uuid_in percentile s e t" and "list_all published_form (ls_shown s)"
  shows "list_all published_form (ls_shown t)"
  using assms by (cases rule: sys_step.cases) (simp_all add: stats_view_def)

lemma published_run:
  assumes "run (sys_step quote uuid_in percentile) s es t" and "list_all published_form (ls_shown s)"
  shows "list_all published_form (ls_shown t)"
  by (rule run_preserves_all [OF assms(1), where P = "\<lambda>s. list_all published_form (ls_shown s)"])
    (use assms(2) in \<open>auto intro: published_step\<close>)

lemma decode_view:
  assumes "htmx_swaps swap" and "published_form (n, v)" and "clear_view v"
  shows "html_decode swap (n, fst (ExecuteTemplate v)) = row_change v"
proof -
  note rules = assms(1) [unfolded htmx_swaps_def]
  have "swap (document v) = row_change v"
  proof (cases v)
    case (AddedView t)
    have "document v = Open ''tbody'' [(''id'', ''targets-tbody''), (''hx-swap-oob'', ''beforeend'')] #
        Open ''tr'' [(''id'', ''target-'' @ ID t)] # tl (row_document t) @ [Close ''tbody'']"
      using row_parts(1) [of t] by (simp add: AddedView)
    moreover have "swap (Open ''tbody'' [(''id'', ''targets-tbody''), (''hx-swap-oob'', ''beforeend'')] #
        Open ''tr'' [(''id'', ''target-'' @ ID t)] # tl (row_document t) @ [Close ''tbody'']) = AddRow (ID t)"
      by (rule swap_append [OF assms(1) _ _ _ row_parts(2)]) simp_all
    ultimately show ?thesis by (simp only: AddedView row_change.simps)
  qed (use assms(2) rules in \<open>simp_all add: stats_document_def\<close>)
  then show ?thesis by (simp add: html_decode_def view_read [OF assms(3)])
qed

lemma published_shows:
  assumes "htmx_swaps swap" and "published_form e" and "clear_view (snd e)"
  shows "shows_as ExecuteTemplate (html_decode swap) e"
proof -
  obtain n v where e: "e = (n, v)" by force
  have no_page: "\<forall>ts. v \<noteq> IndexView ts" using assms(2) by (auto simp: e)
  have "n \<in> {''target_added'', ''target_removed'', ''check'', ''stats''}"
    using assms(2) by (cases v) (simp_all add: e)
  then have "sendable \<lparr>Name = n, Data = fst (ExecuteTemplate v)\<rparr>"
    using view_sendable [of v] assms(3) no_page by (auto simp: sendable_def e)
  moreover have "html_decode swap (n, fst (ExecuteTemplate v)) = row_change v"
    using decode_view [OF assms(1)] assms(2,3) by (simp add: e)
  moreover have "snd (ExecuteTemplate v)" by (simp add: ExecuteTemplate_def)
  ultimately show ?thesis by (simp add: shows_as_def e)
qed

section \<open>Properties\<close>

lemma HandleIndex_body: "rw_body (HandleIndex render (Inr ts) new_response) = fst (render (IndexView ts))"
  by (simp add: HandleIndex_def html_header_def Write_def WriteHeader_def Header_Set_def new_response_def)



end
