(* ===== verification/Migrations.thy ===== *)
theory Migrations
  imports Store
begin

text \<open>
  \<open>migrations/001_init.sql\<close>, the embedding of its text in \<open>migrations.go\<close>, and
  \<open>runMigrations\<close> of \<open>cmd/server/main.go\<close>: what a start of the server does to a database
  in any state, and the lives of several server processes on one database, each with
  its migration and the store operations that follow.
\<close>

section \<open>The schema\<close>

text \<open>
  A table that does not exist is \<open>None\<close>. \<open>IF NOT EXISTS\<close> looks at the name alone; the
  tables of the model are those of this schema.
\<close>

record database =
  db_targets :: "(target \<times> time) list option"
  db_checks :: "check_row list option"
  db_index :: bool

definition empty_database :: database where
  "empty_database = \<lparr>db_targets = None, db_checks = None, db_index = False\<rparr>"

definition sql_create_targets :: "database \<Rightarrow> pg_err + database" where
  "sql_create_targets d = Inr (if db_targets d = None then d\<lparr>db_targets := Some []\<rparr> else d)"

text \<open>The reference to \<open>targets\<close> is resolved when the table is created; \<open>42P01\<close> is \<open>undefined_table\<close>.\<close>

definition sql_create_checks :: "database \<Rightarrow> pg_err + database" where
  "sql_create_checks d =
     (if db_checks d \<noteq> None then Inr d
      else if db_targets d = None then Inl (PgCode ''42P01'')
      else Inr (d\<lparr>db_checks := Some []\<rparr>))"

definition sql_create_index :: "database \<Rightarrow> pg_err + database" where
  "sql_create_index d = (if db_checks d = None then Inl (PgCode ''42P01'') else Inr (d\<lparr>db_index := True\<rparr>))"

definition InitSQL_statements :: "(database \<Rightarrow> pg_err + database) list" where
  "InitSQL_statements = [sql_create_targets, sql_create_checks, sql_create_index]"

section \<open>Running the script\<close>

text \<open>
  A script without arguments is sent whole, and the server runs it in one transaction.
  The connection or a statement may fail before the \<open>k\<close>-th statement, with all of them
  done as the commit, or after the commit, when only the answer is lost.
\<close>

datatype script_fault = FailsBefore nat pg_err | AnswerLost pg_err

fun exec_statements ::
    "(nat \<times> pg_err) option \<Rightarrow> (database \<Rightarrow> pg_err + database) list \<Rightarrow> database \<Rightarrow> pg_err + database" where
  "exec_statements (Some (k, e)) [] d = Inl e"
| "exec_statements None [] d = Inr d"
| "exec_statements (Some (0, e)) (st # sts) d = Inl e"
| "exec_statements (Some (Suc k, e)) (st # sts) d =
     (case st d of Inl e' \<Rightarrow> Inl e' | Inr d' \<Rightarrow> exec_statements (Some (k, e)) sts d')"
| "exec_statements None (st # sts) d = (case st d of Inl e' \<Rightarrow> Inl e' | Inr d' \<Rightarrow> exec_statements None sts d')"

definition pool_Exec ::
    "script_fault option \<Rightarrow> (database \<Rightarrow> pg_err + database) list \<Rightarrow> database \<Rightarrow> pg_err option \<times> database" where
  "pool_Exec fault sts d =
     (case exec_statements (case fault of Some (FailsBefore k e) \<Rightarrow> Some (k, e) | _ \<Rightarrow> None) sts d of
        Inl e \<Rightarrow> (Some e, d)
      | Inr d' \<Rightarrow> (case fault of Some (AnswerLost e) \<Rightarrow> (Some e, d') | _ \<Rightarrow> (None, d')))"

definition runMigrations :: "script_fault option \<Rightarrow> database \<Rightarrow> pg_err option \<times> database" where
  "runMigrations fault d = pool_Exec fault InitSQL_statements d"

section \<open>The tables behind the schema\<close>

definition schema_ready :: "database \<Rightarrow> bool" where
  "schema_ready d \<longleftrightarrow> db_targets d \<noteq> None \<and> db_checks d \<noteq> None \<and> db_index d"

text \<open>The rows of a database; a table that does not exist has none.\<close>

definition stored :: "database \<Rightarrow> tables" where
  "stored d = \<lparr>tb_targets = (case db_targets d of None \<Rightarrow> [] | Some ts \<Rightarrow> ts),
               tb_checks = (case db_checks d of None \<Rightarrow> [] | Some cs \<Rightarrow> cs)\<rparr>"

definition put_tables :: "tables \<Rightarrow> database \<Rightarrow> database" where
  "put_tables tb d = d\<lparr>db_targets := Some (tb_targets tb), db_checks := Some (tb_checks tb)\<rparr>"

text \<open>
  One process on the database: the migration, and then, unless it reported an error and
  \<open>run\<close> returned, whatever the store is called for.
\<close>

definition server_process :: "(string \<Rightarrow> string option) \<Rightarrow> script_fault option \<times> store_op list \<Rightarrow> database \<Rightarrow> database" where
  "server_process uuid_in p d =
     (case runMigrations (fst p) d of
        (Some e, d') \<Rightarrow> d'
      | (None, d') \<Rightarrow> put_tables (fold (apply_op uuid_in) (snd p) (stored d')) d')"

section \<open>What a migration does\<close>

fun committed :: "script_fault option \<Rightarrow> bool" where
  "committed (Some (FailsBefore k e)) = False"
| "committed f = True"

definition migrated :: "database \<Rightarrow> database" where
  "migrated d = put_tables (stored d) d\<lparr>db_index := True\<rparr>"

lemma no_migration_fails:
  "exec_statements None InitSQL_statements d = Inr (migrated d)"
  by (cases "db_targets d"; cases "db_checks d")
    (simp_all add: InitSQL_statements_def sql_create_targets_def sql_create_checks_def sql_create_index_def
      migrated_def put_tables_def stored_def)

lemma fault_fails: "\<exists>e'. exec_statements (Some (k, e)) sts d = Inl e'"
  by (induction "Some (k, e)" sts d arbitrary: k rule: exec_statements.induct) (auto split: sum.split)

lemma runMigrations_cases:
  "runMigrations None d = (None, migrated d)"
  "runMigrations (Some (AnswerLost e)) d = (Some e, migrated d)"
  "\<exists>e'. runMigrations (Some (FailsBefore k e)) d = (Some e', d)"
  using fault_fails [of k e InitSQL_statements d]
  by (auto simp: runMigrations_def pool_Exec_def no_migration_fails)

lemma stored_put [simp]: "stored (put_tables tb d) = tb" "db_index (put_tables tb d) = db_index d"
  "schema_ready (put_tables tb d) \<longleftrightarrow> db_index d"
  by (simp_all add: stored_def put_tables_def schema_ready_def)

lemma stored_migrated [simp]: "stored (migrated d) = stored d" "schema_ready (migrated d)" "db_index (migrated d)"
  by (simp_all add: migrated_def stored_def put_tables_def schema_ready_def)

lemma migrated_ready: "schema_ready d \<Longrightarrow> migrated d = d"
  by (cases d) (auto simp: migrated_def put_tables_def stored_def schema_ready_def)

lemma server_process_effect:
  "stored (server_process uuid_in p d) =
     fold (apply_op uuid_in) (if fst p = None then snd p else []) (stored d) \<and>
   (schema_ready (server_process uuid_in p d) \<longleftrightarrow> schema_ready d \<or> committed (fst p))"
proof (cases "fst p")
  case None
  then show ?thesis by (simp add: server_process_def runMigrations_cases(1))
next
  case (Some f)
  show ?thesis
  proof (cases f)
    case (FailsBefore k e)
    obtain e' where "runMigrations (Some (FailsBefore k e)) d = (Some e', d)" using runMigrations_cases(3) by blast
    then show ?thesis by (simp add: server_process_def Some FailsBefore)
  next
    case (AnswerLost e)
    then show ?thesis by (simp add: server_process_def Some runMigrations_cases(2))
  qed
qed

lemma start_on_ready:
  assumes "schema_ready d"
  shows "server_process uuid_in (fault, []) d = d"
proof -
  have m: "migrated d = d" "put_tables (stored d) d = d"
    using assms by (simp_all add: migrated_ready) (cases d; auto simp: put_tables_def stored_def schema_ready_def)
  show ?thesis
  proof (cases fault)
    case (Some f)
    have "\<exists>e'. runMigrations fault d = (Some e', d)"
      using runMigrations_cases(2,3) m(1) Some by (cases f) metis+
    then show ?thesis by (auto simp: server_process_def)
  qed (simp add: server_process_def runMigrations_cases(1) m)
qed

lemma fold_apply_ok: "tables_ok tb \<Longrightarrow> tables_ok (fold (apply_op uuid_in) ops tb)"
  by (induction ops arbitrary: tb) (simp_all add: apply_op_ok)

section \<open>Properties\<close>

text \<open>
  C24. Restarts are invisible. Let any number of processes start one after the other on
  any database, with any part of the schema in it, each with a fault of its migration
  or none and with any store operations after it. The rows are those that the
  operations of the processes whose migration succeeded make of the rows there were,
  one after the other, as if one process had run them all; the schema is complete
  from the first migration that was committed, and never lost; on a complete schema a
  start changes nothing at all; and from an empty database the constraints of the
  schema hold throughout.
\<close>

theorem restarts_are_invisible:
  "stored (fold (server_process uuid_in) ps d) =
     fold (apply_op uuid_in) (concat (map snd (filter (\<lambda>p. fst p = None) ps))) (stored d) \<and>
   (schema_ready (fold (server_process uuid_in) ps d) \<longleftrightarrow> schema_ready d \<or> list_ex (\<lambda>p. committed (fst p)) ps) \<and>
   server_process uuid_in (fault, []) (fold (server_process uuid_in) ((None, ops) # ps) d) =
     fold (server_process uuid_in) ((None, ops) # ps) d \<and>
   tables_ok (stored (fold (server_process uuid_in) ps empty_database))"
proof (intro conjI)
  have rows: "stored (fold (server_process uuid_in) ps d) =
      fold (apply_op uuid_in) (concat (map snd (filter (\<lambda>p. fst p = None) ps))) (stored d)" for ps d
    by (induction ps arbitrary: d) (simp_all add: server_process_effect)
  then show "stored (fold (server_process uuid_in) ps d) =
      fold (apply_op uuid_in) (concat (map snd (filter (\<lambda>p. fst p = None) ps))) (stored d)" .
  have ready: "schema_ready (fold (server_process uuid_in) ps d) \<longleftrightarrow> schema_ready d \<or> list_ex (\<lambda>p. committed (fst p)) ps" for ps d
    by (induction ps arbitrary: d) (simp_all add: server_process_effect)
  then show "schema_ready (fold (server_process uuid_in) ps d) \<longleftrightarrow> schema_ready d \<or> list_ex (\<lambda>p. committed (fst p)) ps" .
  let ?d = "fold (server_process uuid_in) ((None, ops) # ps) d"
  have "schema_ready ?d" by (simp add: ready server_process_effect)
  then show "server_process uuid_in (fault, []) ?d = ?d" by (rule start_on_ready)
  have "stored empty_database = InitSQL" by (simp add: stored_def empty_database_def InitSQL_def)
  then show "tables_ok (stored (fold (server_process uuid_in) ps empty_database))"
    by (simp add: rows fold_apply_ok)
qed

end
