(* ===== verification/Routes.thy ===== *)
theory Routes
  imports Handlers Metrics Sse_Stream Server
begin

text \<open>
  Which handler a request reaches: the patterns that \<open>Register\<close> and \<open>run\<close> give to
  the \<open>http.ServeMux\<close>, how the mux of Go 1.25 matches a method and a path against
  them, and the whole HTTP surface behind \<open>Recover\<close>. The file server of the static
  assets is an argument.
\<close>

section \<open>Paths\<close>

text \<open>
  The mux looks at the escaped path one segment at a time and unescapes each; a
  final slash counts as a segment of its own.
\<close>

definition path_unescape :: "string \<Rightarrow> string" where
  "path_unescape s = (case unescape EncodeOther s of Inl _ \<Rightarrow> s | Inr t \<Rightarrow> t)"

fun mark_segments :: "string list \<Rightarrow> string list" where
  "mark_segments [] = []"
| "mark_segments (x # xs) = (if x = [] \<and> xs = [] then [''/''] else path_unescape x # mark_segments xs)"

definition segments :: "string \<Rightarrow> string list" where
  "segments path = (if path = [] then [] else mark_segments (split_on (CHR ''/'') (tl path)))"

text \<open>The paths that \<open>cleanPath\<close> leaves alone.\<close>

definition clean_path :: "string \<Rightarrow> bool" where
  "clean_path path \<longleftrightarrow> prefix ''/'' path \<and>
     (let raw = split_on (CHR ''/'') (tl path) in
      list_all (\<lambda>x. x \<noteq> []) (butlast raw) \<and> list_all (\<lambda>x. x \<noteq> ''.'' \<and> x \<noteq> ''..'') raw)"

section \<open>The patterns\<close>

datatype route =
    RIndex | REvents | RList | RCreate | RDelete string | RStatic "string list" | RHealthz | RMetrics
  | RMoved | RNotAllowed "string list" | RNotFound | RBadRequest

text \<open>\<open>GET\<close> patterns also serve \<open>HEAD\<close>; a pattern that ends in a slash takes every longer path.\<close>

definition get_match :: "string list \<Rightarrow> route option" where
  "get_match segs =
     (if segs = [''/''] then Some RIndex
      else if segs = [''events''] then Some REvents
      else if segs = [''targets''] then Some RList
      else if segs = [''healthz''] then Some RHealthz
      else if segs = [''metrics''] then Some RMetrics
      else (case segs of
          s # rest \<Rightarrow> (if s = ''static'' \<and> rest \<noteq> [] then Some (RStatic rest) else None)
        | [] \<Rightarrow> None))"

definition post_match :: "string list \<Rightarrow> route option" where
  "post_match segs = (if segs = [''targets''] then Some RCreate else None)"

definition delete_match :: "string list \<Rightarrow> route option" where
  "delete_match segs =
     (case segs of
        [s, tid] \<Rightarrow> (if s = ''targets'' \<and> tid \<noteq> ''/'' then Some (RDelete tid) else None)
      | _ \<Rightarrow> None)"

definition mux_match :: "string \<Rightarrow> string list \<Rightarrow> route option" where
  "mux_match method segs =
     (if method = ''GET'' \<or> method = ''HEAD'' then get_match segs
      else if method = ''POST'' then post_match segs
      else if method = ''DELETE'' then delete_match segs
      else None)"

definition matches_slash :: "string \<Rightarrow> string \<Rightarrow> bool" where
  "matches_slash method path \<longleftrightarrow> \<not> suffix ''/'' path \<and> mux_match method (segments (path @ ''/'')) \<noteq> None"

definition allowed_methods :: "string \<Rightarrow> string list" where
  "allowed_methods path =
     filter (\<lambda>m. mux_match m (segments path) \<noteq> None \<or> matches_slash m path) [''DELETE'', ''GET'', ''HEAD'', ''POST'']"

definition route_of :: "string \<Rightarrow> string \<Rightarrow> route" where
  "route_of method path =
     (if path = ''*'' then RBadRequest
      else if method \<noteq> ''CONNECT'' \<and> \<not> clean_path path then RMoved
      else (case mux_match method (segments path) of
          Some r \<Rightarrow> r
        | None \<Rightarrow>
            (if path \<noteq> [] \<and> matches_slash method path then RMoved
             else if allowed_methods path = [] then RNotFound
             else RNotAllowed (allowed_methods path))))"

section \<open>Serving a request\<close>

abbreviation (input) StatusMovedPermanently :: nat where "StatusMovedPermanently \<equiv> 301"
abbreviation (input) StatusMethodNotAllowed :: nat where "StatusMethodNotAllowed \<equiv> 405"

record http_request =
  rq_method :: string
  rq_path :: string              \<comment> \<open>\<open>r.URL.EscapedPath()\<close>\<close>
  rq_form :: "string option"     \<comment> \<open>\<open>FormValue("url")\<close>, or \<open>None\<close> when \<open>ParseForm\<close> fails\<close>

record 's store_ops =
  so_list :: "'s \<Rightarrow> store_err + target list"
  so_create :: "string \<Rightarrow> 's \<Rightarrow> (store_err + target) \<times> 's"
  so_delete :: "string \<Rightarrow> 's \<Rightarrow> store_err option \<times> 's"

text \<open>What the program is when it serves: its templates, hub, store, counters and files.\<close>

record 's http_app =
  ap_render :: renderer
  ap_hub_nil :: bool
  ap_store :: "'s store_ops"
  ap_metrics :: metrics
  ap_uptime :: i64
  ap_files :: "string list \<Rightarrow> response \<Rightarrow> response \<times> go_panic option"
  ap_moved_to :: "http_request \<Rightarrow> string"   \<comment> \<open>the text of the \<open>Location\<close> header\<close>

fun join_comma :: "string list \<Rightarrow> string" where
  "join_comma [] = []"
| "join_comma [x] = x"
| "join_comma (x # y # xs) = x @ '', '' @ join_comma (y # xs)"

text \<open>A redirect also carries a short body for \<open>GET\<close>, which is left out.\<close>

definition dispatch :: "'s http_app \<Rightarrow> http_request \<Rightarrow> response \<Rightarrow> 's \<Rightarrow> (response \<times> go_panic option) \<times> 's \<times> event list" where
  "dispatch app rq w s =
     (case route_of (rq_method rq) (rq_path rq) of
        RIndex \<Rightarrow> ((HandleIndex (ap_render app) (so_list (ap_store app) s) w, None), s, [])
      | REvents \<Rightarrow> ((snd (HandleEvents_open (ap_hub_nil app) True w), None), s, [])
      | RList \<Rightarrow> ((HandleListTargets (ap_render app) (so_list (ap_store app) s) w, None), s, [])
      | RCreate \<Rightarrow>
          (case HandleCreateTarget (ap_render app) (ap_hub_nil app) (so_create (ap_store app))
              (rq_form rq \<noteq> None) (case rq_form rq of None \<Rightarrow> [] | Some v \<Rightarrow> v) w s of
             (w', s', evs) \<Rightarrow> ((w', None), s', evs))
      | RDelete tid \<Rightarrow>
          (case HandleDeleteTarget (ap_render app) (ap_hub_nil app) (so_delete (ap_store app)) tid w s of
             (w', s', evs) \<Rightarrow> ((w', None), s', evs))
      | RStatic rest \<Rightarrow> (ap_files app rest w, s, [])
      | RHealthz \<Rightarrow> ((healthz w, None), s, [])
      | RMetrics \<Rightarrow> ((Metrics_Handler (ap_metrics app) (ap_uptime app) w, None), s, [])
      | RMoved \<Rightarrow> ((WriteHeader StatusMovedPermanently (Header_Set ''Location'' (ap_moved_to app rq) w), None), s, [])
      | RNotAllowed ms \<Rightarrow>
          ((http_Error ''Method Not Allowed'' StatusMethodNotAllowed (Header_Set ''Allow'' (join_comma ms) w), None), s, [])
      | RNotFound \<Rightarrow> ((http_Error ''404 page not found'' StatusNotFound w, None), s, [])
      | RBadRequest \<Rightarrow> ((WriteHeader StatusBadRequest (Header_Set ''Connection'' ''close'' w), None), s, []))"

definition serve_http :: "'s http_app \<Rightarrow> http_request \<Rightarrow> response \<Rightarrow> 's \<Rightarrow> response \<times> 's \<times> event list" where
  "serve_http app rq w s =
     (case dispatch app rq w s of (ended, s', evs) \<Rightarrow> (Recover (\<lambda>_. ended) w, s', evs))"

section \<open>Facts\<close>

lemma unescape_nonempty: "unescape EncodeOther (c # s) = Inr t \<Longrightarrow> t \<noteq> []"
proof (cases "c = CHR ''%''")
  case False
  then show "unescape EncodeOther (c # s) = Inr t \<Longrightarrow> t \<noteq> []" by (auto split: sum.splits)
next
  case True
  assume u: "unescape EncodeOther (c # s) = Inr t"
  with True obtain a b s' where s: "s = a # b # s'" by (cases s; cases "tl s") auto
  with u True show "t \<noteq> []"
    by (cases "unescape EncodeOther s'") (auto simp: bad_escape_def split: if_splits)
qed

lemma path_unescape_nonempty: "s \<noteq> [] \<Longrightarrow> path_unescape s \<noteq> []"
  using unescape_nonempty [of "hd s" "tl s"]
  by (cases "unescape EncodeOther s") (simp_all add: path_unescape_def)

lemma mark_segments_nonempty:
  "list_all (\<lambda>x. x \<noteq> []) (butlast raw) \<Longrightarrow> [] \<notin> set (mark_segments raw)"
proof (induction raw)
  case (Cons x raw)
  show ?case
  proof (cases "raw = []")
    case True
    then show ?thesis using path_unescape_nonempty [of x] by auto
  next
    case False
    with Cons have "x \<noteq> []" "[] \<notin> set (mark_segments raw)" by simp_all
    with False path_unescape_nonempty [of x] show ?thesis by auto
  qed
qed simp

lemma clean_segments: "clean_path path \<Longrightarrow> [] \<notin> set (segments path)"
  using mark_segments_nonempty by (simp add: clean_path_def segments_def Let_def)

lemma mux_match_delete: "mux_match method segs = Some (RDelete tid) \<longleftrightarrow>
    method = ''DELETE'' \<and> segs = [''targets'', tid] \<and> tid \<noteq> ''/''"
  by (auto simp: mux_match_def get_match_def post_match_def delete_match_def split: list.splits if_splits)

lemma mux_match_create: "mux_match method segs = Some RCreate \<longleftrightarrow> method = ''POST'' \<and> segs = [''targets'']"
  by (auto simp: mux_match_def get_match_def post_match_def delete_match_def split: list.splits if_splits)

lemma route_of_match:
  "(route_of method path = RCreate \<longleftrightarrow> path \<noteq> ''*'' \<and> (method = ''CONNECT'' \<or> clean_path path) \<and>
      mux_match method (segments path) = Some RCreate) \<and>
   (route_of method path = RDelete tid \<longleftrightarrow> path \<noteq> ''*'' \<and> (method = ''CONNECT'' \<or> clean_path path) \<and>
      mux_match method (segments path) = Some (RDelete tid))"
  by (auto simp: route_of_def split: option.splits)

lemma route_delete:
  assumes "route_of method path = RDelete tid"
  shows "method = ''DELETE''" and "tid \<noteq> []" and "segments path = [''targets'', tid]"
proof -
  from assms route_of_match have m: "method = ''CONNECT'' \<or> clean_path path"
    "mux_match method (segments path) = Some (RDelete tid)" by auto
  then show "method = ''DELETE''" "segments path = [''targets'', tid]" by (simp_all add: mux_match_delete)
  with m clean_segments [of path] show "tid \<noteq> []" by auto
qed

lemma route_create: "route_of method path = RCreate \<Longrightarrow> method = ''POST'' \<and> segments path = [''targets'']"
  using route_of_match by (simp add: mux_match_create)

lemma final_status_fresh: "rw_sent w = None \<Longrightarrow> final_status (Write b w) = StatusOK"
  by (simp add: final_status_def WriteHeader_def)

lemma metrics_status: "rw_sent w = None \<Longrightarrow> final_status (Metrics_Handler m u w) = StatusOK"
  by (simp add: Metrics_Handler_def final_status_def)

lemma healthz_status: "rw_sent w = None \<Longrightarrow> final_status (healthz w) = StatusOK"
  by (simp add: healthz_def final_status_def)

lemma final_status_write: "final_status w = StatusOK \<Longrightarrow> final_status (Write b w) = StatusOK"
  by (cases "rw_sent w") (auto simp: final_status_def WriteHeader_def split: option.splits)

lemma final_status_write_rows: "final_status w = StatusOK \<Longrightarrow> final_status (write_rows render ts w) = StatusOK"
proof (induction ts arbitrary: w)
  case (Cons t ts)
  obtain bytes ok where r: "render (RowView t) = (bytes, ok)" by force
  from final_status_write [OF Cons.prems, of bytes] Cons.IH [of "Write bytes w"] r show ?case by simp
qed simp

text \<open>The statuses a route can answer with.\<close>

fun statuses :: "route \<Rightarrow> nat list" where
  "statuses RIndex = [StatusOK, StatusInternalServerError]"
| "statuses REvents = [StatusOK, StatusInternalServerError]"
| "statuses RList = [StatusOK, StatusInternalServerError]"
| "statuses RCreate = [StatusOK, StatusBadRequest, StatusConflict, StatusInternalServerError]"
| "statuses (RDelete tid) = [StatusOK, StatusNotFound, StatusInternalServerError]"
| "statuses (RStatic rest) = []"
| "statuses RHealthz = [StatusOK]"
| "statuses RMetrics = [StatusOK]"
| "statuses RMoved = [StatusMovedPermanently]"
| "statuses (RNotAllowed ms) = [StatusMethodNotAllowed]"
| "statuses RNotFound = [StatusNotFound]"
| "statuses RBadRequest = [StatusBadRequest]"

lemma create_answer:
  assumes "rw_sent w = None" and "HandleCreateTarget render hub_nil create ok url w s = (w', s', evs)"
  shows "final_status w' \<in> set (statuses RCreate) \<and> length evs \<le> 1 \<and> (evs \<noteq> [] \<longrightarrow> final_status w' = StatusOK)"
  using assms
  by (auto simp: HandleCreateTarget_def PublishTargetAdded_def publish_view_def
      split: if_splits sum.splits prod.splits)

lemma delete_answer:
  assumes "rw_sent w = None" and "tid \<noteq> []"
    and "HandleDeleteTarget render hub_nil remove tid w s = (w', s', evs)"
  shows "final_status w' \<in> set (statuses (RDelete tid)) \<and> length evs \<le> 1 \<and> (evs \<noteq> [] \<longrightarrow> final_status w' = StatusOK)"
  using assms
  by (auto simp: HandleDeleteTarget_def PublishTargetRemoved_def publish_view_def
      split: if_splits option.splits prod.splits)

section \<open>Properties\<close>

text \<open>
  C14. The HTTP surface. Every request that does not go to the static files is answered
  with one of the statuses of its route; in particular the delete handler is never
  reached without an id, so that its \<open>Missing ID\<close> answer is dead. A request that
  changes the store or publishes is a \<open>POST\<close> to \<open>/targets\<close> or a \<open>DELETE\<close> of
  \<open>/targets/\<close> with an id, and one that publishes is answered 200 and
  publishes one event.
\<close>

theorem every_request_answered:
  assumes "rw_sent w = None" and "serve_http app rq w s = (w', s', evs)"
    and "route_of (rq_method rq) (rq_path rq) = rt" and "\<And>rest. rt \<noteq> RStatic rest"
  shows "final_status w' \<in> set (statuses rt) \<and> length evs \<le> 1 \<and> (evs \<noteq> [] \<longrightarrow> final_status w' = StatusOK) \<and>
     (s' \<noteq> s \<or> evs \<noteq> [] \<longrightarrow>
        rq_method rq = ''POST'' \<and> segments (rq_path rq) = [''targets''] \<or>
        rq_method rq = ''DELETE'' \<and> (\<exists>tid. tid \<noteq> [] \<and> segments (rq_path rq) = [''targets'', tid]))"
proof (cases rt)
  case RCreate
  with assms(2,3) obtain ok url where "HandleCreateTarget (ap_render app) (ap_hub_nil app) (so_create (ap_store app)) ok url w s
      = (w', s', evs)" by (auto simp: serve_http_def dispatch_def Recover_def split: prod.splits)
  with create_answer [OF assms(1) this] route_create assms(3) RCreate show ?thesis by simp
next
  case (RDelete tid)
  with assms(2,3) have "HandleDeleteTarget (ap_render app) (ap_hub_nil app) (so_delete (ap_store app)) tid w s
      = (w', s', evs)" by (auto simp: serve_http_def dispatch_def Recover_def split: prod.splits)
  note d = route_delete [OF assms(3) [unfolded RDelete]]
  from delete_answer [OF assms(1) d(2) \<open>HandleDeleteTarget _ _ _ tid w s = _\<close>] d RDelete show ?thesis by simp
next
  case RIndex
  with assms show ?thesis
    by (auto simp: serve_http_def dispatch_def Recover_def HandleIndex_def html_header_def final_status_fresh split: sum.splits)
next
  case RList
  with assms show ?thesis
    by (auto simp: serve_http_def dispatch_def Recover_def HandleListTargets_def html_header_def
        final_status_def [of "Header_Set _ _ _"] intro!: final_status_write_rows split: sum.splits)
next
  case REvents
  with assms show ?thesis
    by (auto simp: serve_http_def dispatch_def Recover_def HandleEvents_open_def)
next
  case (RStatic rest)
  with assms(4) show ?thesis by blast
next
  case RMetrics
  with assms show ?thesis
    by (auto simp: serve_http_def dispatch_def Recover_def metrics_status)
next
  case RHealthz
  with assms show ?thesis
    by (auto simp: serve_http_def dispatch_def Recover_def healthz_status)
qed (use assms in \<open>auto simp: serve_http_def dispatch_def Recover_def\<close>)

theorem every_request_answered_witness:
  "\<exists>w' s' evs. serve_http \<lparr>ap_render = \<lambda>_. ([], True), ap_hub_nil = False,
       ap_store = \<lparr>so_list = \<lambda>tb. ListTargets None tb, so_create = CreateTarget None ''1'' 0,
         so_delete = DeleteTarget Some None\<rparr>,
       ap_metrics = Metrics_New, ap_uptime = 0, ap_files = \<lambda>_ w. (w, None), ap_moved_to = rq_path\<rparr>
     \<lparr>rq_method = ''DELETE'', rq_path = ''/targets/a%20b'', rq_form = None\<rparr> new_response InitSQL = (w', s', evs) \<and>
     route_of ''DELETE'' ''/targets/a%20b'' = RDelete ''a b'' \<and> final_status w' \<in> set [200, 404, 500]"
proof -
  let ?app = "\<lparr>ap_render = \<lambda>_. ([], True), ap_hub_nil = False,
       ap_store = \<lparr>so_list = \<lambda>tb. ListTargets None tb, so_create = CreateTarget None ''1'' 0,
         so_delete = DeleteTarget Some None\<rparr>,
       ap_metrics = Metrics_New, ap_uptime = 0, ap_files = \<lambda>_ w. (w, None), ap_moved_to = rq_path\<rparr>"
  let ?rq = "\<lparr>rq_method = ''DELETE'', rq_path = ''/targets/a%20b'', rq_form = None\<rparr>"
  obtain w' s' evs where h: "serve_http ?app ?rq new_response InitSQL = (w', s', evs)" by (metis prod_cases3)
  have "route_of ''DELETE'' ''/targets/a%20b'' = RDelete ''a b''" by code_simp
  then have r: "route_of (rq_method ?rq) (rq_path ?rq) = RDelete ''a b''" by simp
  from every_request_answered [OF _ h r] h r show ?thesis by auto
qed

end
