(* ===== verification/Loadtest.thy ===== *)
theory Loadtest
  imports Complex_Main Config Metrics Store
begin

text \<open>
  \<open>cmd/loadtest/main.go\<close>: seeding and removing the marked targets, the two polling
  loops over \<open>GET /metrics\<close> and the numbers of the report. A polling loop takes the
  list of its polls, what each one reads and when; the answers of the database are
  arguments as in \<open>Store\<close>. The \<open>float64\<close> values of the report are exact
  rationals here: rounding is left out.
\<close>

section \<open>Polling\<close>

record poll =
  po_got :: get_outcome
  po_at :: time                  \<comment> \<open>\<open>time.Now()\<close> right after a successful read\<close>
  po_over :: time                \<comment> \<open>\<open>time.Now()\<close> at the test of the deadline\<close>
  po_done :: "ctx_err option"    \<comment> \<open>the \<open>select\<close> that follows takes \<open>ctx.Done()\<close>\<close>

definition checks_total :: "poll \<Rightarrow> read_err + i64" where
  "checks_total q = readMetric (po_got q) ''checks_total''"

datatype load_err =
    LoadConfig config_err | LoadConnect string | LoadPing string | LoadClear pg_err | LoadSeed pg_err
  | NoChecksYet | LoadCtx ctx_err | NoSamples | NotAdvanced | LoadQuery string | LoadCleanup pg_err

definition first_total :: "poll \<Rightarrow> i64 option" where
  "first_total q = (case checks_total q of Inl _ \<Rightarrow> None | Inr n \<Rightarrow> if i64_lt 0 n then Some n else None)"

fun wait_loop :: "time \<Rightarrow> poll list \<Rightarrow> (load_err + i64) option" where
  "wait_loop deadline [] = None"
| "wait_loop deadline (q # qs) =
     (case first_total q of
        Some n \<Rightarrow> Some (Inr n)
      | None \<Rightarrow>
          (if deadline < po_over q then Some (Inl NoChecksYet)
           else (case po_done q of Some e \<Rightarrow> Some (Inl (LoadCtx e)) | None \<Rightarrow> wait_loop deadline qs)))"

definition waitForChecks :: "duration \<Rightarrow> time \<Rightarrow> poll list \<Rightarrow> go_panic + (load_err + i64) option" where
  "waitForChecks sampleEvery now qs =
     (case NewTicker (i64_div sampleEvery 2) now of
        Inl p \<Rightarrow> Inl p
      | Inr _ \<Rightarrow> Inr (wait_loop (now + 60 * 1000000000) qs))"

record sample =
  sa_at :: time
  sa_total :: i64
  sa_rate :: rat

definition seconds_from :: "time \<Rightarrow> time \<Rightarrow> rat" where
  "seconds_from a b = of_int (int b - int a) / 1000000000"

definition sample_rate :: "(i64 \<times> time) option \<Rightarrow> i64 \<Rightarrow> time \<Rightarrow> rat" where
  "sample_rate prev n now =
     (case prev of
        None \<Rightarrow> 0
      | Some (p, prevAt) \<Rightarrow> (let r = of_int (sint (n - p)) / seconds_from prevAt now in if r < 0 then 0 else r))"

definition take_sample :: "(i64 \<times> time) option \<Rightarrow> sample list \<Rightarrow> poll \<Rightarrow> (i64 \<times> time) option \<times> sample list" where
  "take_sample prev samples q =
     (case checks_total q of
        Inl _ \<Rightarrow> (prev, samples)
      | Inr n \<Rightarrow>
          (Some (n, po_at q),
           samples @ [\<lparr>sa_at = po_at q, sa_total = n, sa_rate = sample_rate prev n (po_at q)\<rparr>]))"

fun sample_loop :: "time \<Rightarrow> (i64 \<times> time) option \<Rightarrow> sample list \<Rightarrow> poll list \<Rightarrow> sample list option" where
  "sample_loop deadline prev samples [] = None"
| "sample_loop deadline prev samples (q # qs) =
     (case take_sample prev samples q of
        (prev', samples') \<Rightarrow>
          (if \<not> po_over q < deadline then Some samples' else sample_loop deadline prev' samples' qs))"

definition sampleMetrics :: "duration \<Rightarrow> duration \<Rightarrow> time \<Rightarrow> poll list \<Rightarrow> go_panic + sample list option" where
  "sampleMetrics dur every now qs =
     (case NewTicker every now of
        Inl p \<Rightarrow> Inl p
      | Inr _ \<Rightarrow> Inr (sample_loop (nat (int now + sint dur)) None [] qs))"

section \<open>The report\<close>

definition pct :: "i64 \<Rightarrow> i64 \<Rightarrow> rat" where
  "pct n m = (if m = 0 then 0 else 100 * of_int (sint n) / of_int (sint m))"

definition max_float64 :: rat where
  "max_float64 = 2 ^ 1024 - 2 ^ 971"

fun burst_loop :: "sample list \<Rightarrow> rat \<times> rat \<times> rat \<Rightarrow> rat \<times> rat \<times> rat" where
  "burst_loop [] a = a"
| "burst_loop (s # ss) (lo, hi, acc) =
     burst_loop ss (if sa_rate s < lo then sa_rate s else lo, if hi < sa_rate s then sa_rate s else hi,
       acc + sa_rate s)"

record load_report =
  lr_targets :: i64
  lr_window :: "time \<times> time"
  lr_checks :: i64
  lr_sustained :: rat
  lr_burst_max :: rat
  lr_burst_min :: rat
  lr_burst_avg :: rat
  lr_p50 :: rat
  lr_p99 :: rat
  lr_failures :: i64
  lr_failed_pct :: rat

definition load_report :: "i64 \<Rightarrow> i64 \<Rightarrow> sample list \<Rightarrow> i64 \<Rightarrow> i64 \<Rightarrow> rat \<Rightarrow> rat \<Rightarrow> load_report" where
  "load_report n baseline samples totalChecks failures p50 p99 =
     (let first_at = sa_at (hd samples); last_at = sa_at (last samples);
          delta = sa_total (last samples) - baseline;
          (lo, hi, acc) = burst_loop samples (max_float64, 0, 0)
      in \<lparr>lr_targets = n, lr_window = (first_at, last_at), lr_checks = delta,
          lr_sustained = of_int (sint delta) / seconds_from first_at last_at,
          lr_burst_max = hi, lr_burst_min = lo, lr_burst_avg = acc / of_nat (length samples),
          lr_p50 = p50, lr_p99 = p99, lr_failures = failures, lr_failed_pct = pct failures totalChecks\<rparr>)"

section \<open>The marked rows\<close>

text \<open>\<open>LIKE\<close> of PostgreSQL with its two wildcards and the escape character.\<close>

fun sql_like :: "string \<Rightarrow> string \<Rightarrow> bool" where
  "sql_like [] s = (s = [])"
| "sql_like (p # ps) [] = (p = CHR ''%'' \<and> sql_like ps [])"
| "sql_like (p # ps) (c # s) =
     (if p = CHR ''%'' then sql_like ps (c # s) \<or> sql_like (p # ps) s
      else if p = CHR 0x5C then (case ps of [] \<Rightarrow> False | e # ps' \<Rightarrow> e = c \<and> sql_like ps' s)
      else (p = CHR ''_'' \<or> p = c) \<and> sql_like ps s)"

definition load_prefix :: "string \<Rightarrow> string \<Rightarrow> string" where
  "load_prefix targetHost targetPort = ''http://'' @ targetHost @ '':'' @ targetPort @ ''/u/loadtest-''"

text \<open>\<open>DELETE FROM targets WHERE url LIKE $1\<close>, with the cascade.\<close>

definition sql_delete_like :: "string \<Rightarrow> tables \<Rightarrow> tables" where
  "sql_delete_like pat tb =
     (let gone = map (ID \<circ> fst) (filter (\<lambda>(t, _). sql_like pat (URL t)) (tb_targets tb)) in
      tb\<lparr>tb_targets := filter (\<lambda>(t, _). \<not> sql_like pat (URL t)) (tb_targets tb),
         tb_checks := filter (\<lambda>c. row_target c \<notin> set gone) (tb_checks tb)\<rparr>)"

text \<open>\<open>INSERT INTO targets (url) SELECT unnest($1)\<close>: all rows or none; ids and clock from the server.\<close>

fun sql_insert_all :: "(nat \<Rightarrow> string) \<Rightarrow> time \<Rightarrow> nat \<Rightarrow> string list \<Rightarrow> tables \<Rightarrow> pg_err + tables" where
  "sql_insert_all ids now k [] tb = Inr tb"
| "sql_insert_all ids now k (u # us) tb =
     (case sql_insert_target (ids k) now u tb of
        Inl e \<Rightarrow> Inl e
      | Inr (_, tb') \<Rightarrow> sql_insert_all ids now (Suc k) us tb')"

definition load_urls :: "string \<Rightarrow> i64 \<Rightarrow> string list" where
  "load_urls p n = map (\<lambda>i. p @ show_int (int i)) [0..<nat (sint n)]"

text \<open>The two counts of the final query.\<close>

definition load_rows :: "string \<Rightarrow> time \<Rightarrow> tables \<Rightarrow> check_row list" where
  "load_rows pat now tb =
     filter (\<lambda>c. list_ex (\<lambda>(t, _). ID t = row_target c \<and> sql_like pat (URL t)) (tb_targets tb) \<and>
       now \<le> checked_at c + 2 * 3600 * 1000000000) (tb_checks tb)"

section \<open>The program\<close>

record load_flags =
  lf_targets :: i64
  lf_duration :: duration
  lf_sample :: duration
  lf_host :: string
  lf_port :: string

text \<open>What the world answers; \<open>le_app\<close> is what the running program does to the tables meanwhile.\<close>

record load_env =
  le_config :: "config_err + config"
  le_open :: "string option"
  le_ping :: "string option"
  le_clear :: "pg_err option"
  le_seed :: "pg_err option"
  le_ids :: "nat \<Rightarrow> string"
  le_now :: time
  le_wait :: "poll list"
  le_start :: time
  le_polls :: "poll list"
  le_app :: "tables \<Rightarrow> tables"
  le_query :: "string option"
  le_query_now :: time
  le_percentile :: "nat \<Rightarrow> int list \<Rightarrow> rat"   \<comment> \<open>\<open>PERCENTILE_CONT\<close>\<close>
  le_cleanup :: "pg_err option"

datatype load_end = LoadPanic go_panic | LoadFailed load_err | LoadDone load_report

definition seed_rows :: "load_flags \<Rightarrow> load_env \<Rightarrow> tables \<Rightarrow> pg_err + tables" where
  "seed_rows f e tb =
     (case le_seed e of
        Some x \<Rightarrow> Inl x
      | None \<Rightarrow> sql_insert_all (le_ids e) (le_now e) 0
          (load_urls (load_prefix (lf_host f) (lf_port f)) (lf_targets f)) tb)"

text \<open>From the samples on: the report, the query and the final delete.\<close>

definition finish_load :: "load_flags \<Rightarrow> load_env \<Rightarrow> i64 \<Rightarrow> sample list \<Rightarrow> tables \<Rightarrow> load_end \<times> tables" where
  "finish_load f e baseline samples tb =
     (let pat = load_prefix (lf_host f) (lf_port f) @ ''%''; rows = load_rows pat (le_query_now e) tb;
          percentile = (\<lambda>p. if rows = [] then 0 else le_percentile e p (map duration_ms rows)) in
      if samples = [] then (LoadFailed NoSamples, tb)
      else if i64_le (sa_total (last samples) - baseline) 0 then (LoadFailed NotAdvanced, tb)
      else (case le_query e of
          Some x \<Rightarrow> (LoadFailed (LoadQuery x), tb)
        | None \<Rightarrow>
            (case le_cleanup e of
               Some x \<Rightarrow> (LoadFailed (LoadCleanup x), tb)
             | None \<Rightarrow>
                 (LoadDone (load_report (lf_targets f) baseline samples (of_nat (length rows)) (of_nat (count_of row_failed rows))
                    (percentile 50) (percentile 99)),
                  sql_delete_like pat tb))))"

definition measure_load :: "load_flags \<Rightarrow> load_env \<Rightarrow> tables \<Rightarrow> (load_end \<times> tables) option" where
  "measure_load f e tb =
     (case waitForChecks (lf_sample f) (le_now e) (le_wait e) of
        Inl p \<Rightarrow> Some (LoadPanic p, tb)
      | Inr None \<Rightarrow> None
      | Inr (Some (Inl x)) \<Rightarrow> Some (LoadFailed x, tb)
      | Inr (Some (Inr baseline)) \<Rightarrow>
          (case sampleMetrics (lf_duration f) (lf_sample f) (le_start e) (le_polls e) of
             Inl p \<Rightarrow> Some (LoadPanic p, tb)
           | Inr None \<Rightarrow> None
           | Inr (Some samples) \<Rightarrow> Some (finish_load f e baseline samples tb)))"

text \<open>\<open>None\<close> means that a polling loop is still running when its polls are used up.\<close>

definition run_load :: "load_flags \<Rightarrow> load_env \<Rightarrow> tables \<Rightarrow> (load_end \<times> tables) option" where
  "run_load f e tb =
     (case le_config e of Inl x \<Rightarrow> Some (LoadFailed (LoadConfig x), tb) | Inr _ \<Rightarrow>
      (case le_open e of Some x \<Rightarrow> Some (LoadFailed (LoadConnect x), tb) | None \<Rightarrow>
       (case le_ping e of Some x \<Rightarrow> Some (LoadFailed (LoadPing x), tb) | None \<Rightarrow>
        (case le_clear e of Some x \<Rightarrow> Some (LoadFailed (LoadClear x), tb) | None \<Rightarrow>
         (let tb1 = sql_delete_like (load_prefix (lf_host f) (lf_port f) @ ''%'') tb in
          if i64_lt (lf_targets f) 0 then Some (LoadPanic MakeSliceLen, tb1)
          else (case seed_rows f e tb1 of
              Inl x \<Rightarrow> Some (LoadFailed (LoadSeed x), tb1)
            | Inr tb2 \<Rightarrow> measure_load f e (le_app e tb2)))))))"

section \<open>Polling ends\<close>

lemma wait_loop_returns:
  "wait_loop deadline qs \<noteq> None \<longleftrightarrow>
     list_ex (\<lambda>q. first_total q \<noteq> None \<or> deadline < po_over q \<or> po_done q \<noteq> None) qs"
  by (induction qs) (auto split: option.splits)

lemma wait_loop_total: "wait_loop deadline qs = Some (Inr n) \<Longrightarrow> 0 < sint n"
  by (induction qs) (auto simp: first_total_def split: option.splits sum.splits if_splits)

lemma sample_loop_returns:
  "sample_loop deadline prev samples qs \<noteq> None \<longleftrightarrow> list_ex (\<lambda>q. deadline \<le> po_over q) qs"
  by (induction qs arbitrary: prev samples) (auto split: prod.splits)

section \<open>Rates\<close>

text \<open>The samples read successfully, in order, and what their rates add up to.\<close>

definition readings :: "poll list \<Rightarrow> (i64 \<times> time) list" where
  "readings qs = concat (map (\<lambda>q. case checks_total q of Inl _ \<Rightarrow> [] | Inr n \<Rightarrow> [(n, po_at q)]) qs)"

fun samples_of :: "(i64 \<times> time) option \<Rightarrow> (i64 \<times> time) list \<Rightarrow> sample list" where
  "samples_of prev [] = []"
| "samples_of prev ((n, t) # rs) =
     \<lparr>sa_at = t, sa_total = n, sa_rate = sample_rate prev n t\<rparr> # samples_of (Some (n, t)) rs"

definition until_over :: "time \<Rightarrow> poll list \<Rightarrow> poll list" where
  "until_over deadline qs =
     takeWhile (\<lambda>q. po_over q < deadline) qs @ take 1 (dropWhile (\<lambda>q. po_over q < deadline) qs)"

lemma sample_loop_eq:
  "sample_loop deadline prev samples qs =
     (if list_ex (\<lambda>q. deadline \<le> po_over q) qs
      then Some (samples @ samples_of prev (readings (until_over deadline qs))) else None)"
proof (induction qs arbitrary: prev samples)
  case (Cons q qs)
  then show ?case
    by (cases "checks_total q") (simp_all add: take_sample_def readings_def until_over_def)
qed simp

text \<open>The sum, over neighbouring samples, of the rate times the seconds between them.\<close>

fun rate_area :: "sample list \<Rightarrow> rat" where
  "rate_area (a # b # ss) = sa_rate b * seconds_from (sa_at a) (sa_at b) + rate_area (b # ss)"
| "rate_area ss = 0"

fun advancing :: "(i64 \<times> time) list \<Rightarrow> bool" where
  "advancing ((n, t) # (m, u) # rs) \<longleftrightarrow> sint n \<le> sint m \<and> t < u \<and> advancing ((m, u) # rs)"
| "advancing rs \<longleftrightarrow> True"

lemma sint_diff:
  assumes "0 \<le> sint (n :: i64)" and "sint n \<le> sint m"
  shows "sint (m - n) = sint m - sint n"
proof -
  have "m - n = word_of_int (sint m - sint n)" by simp
  moreover have "- (2 ^ 63) \<le> sint m - sint n" "sint m - sint n < 2 ^ 63"
    using assms sint_i64_range [of m] by linarith+
  ultimately show ?thesis by (simp only: sint_i64_of_int)
qed

lemma one_rate:
  assumes "0 \<le> sint n" and "sint n \<le> sint m" and "t < u"
  shows "sample_rate (Some (n, t)) m u * seconds_from t u = of_int (sint m - sint n)"
proof -
  define d s where "d = (of_int (sint (m - n)) :: rat)" and "s = seconds_from t u"
  have "0 < s" using assms(3) by (simp add: s_def seconds_from_def)
  moreover have "0 \<le> sint (m - n)" using sint_diff [OF assms(1,2)] assms(2) by linarith
  then have "0 \<le> d" unfolding d_def by (simp only: of_int_0_le_iff)
  moreover have "sample_rate (Some (n, t)) m u = (if d / s < 0 then 0 else d / s)"
    by (simp only: sample_rate_def option.case prod.case Let_def d_def s_def)
  ultimately have "sample_rate (Some (n, t)) m u * s = d" by (simp add: divide_less_0_iff)
  then show ?thesis unfolding d_def s_def sint_diff [OF assms(1,2)] .
qed

lemma area_telescopes:
  assumes "0 \<le> sint n" and "advancing ((n, t) # rs)"
  shows "rate_area (\<lparr>sa_at = t, sa_total = n, sa_rate = r\<rparr> # samples_of (Some (n, t)) rs) =
     of_int (sint (fst (last ((n, t) # rs))) - sint n)"
  using assms
proof (induction rs arbitrary: n t r)
  case (Cons x rs)
  obtain m u where x: "x = (m, u)" by (cases x)
  with Cons.prems have a: "sint n \<le> sint m" "t < u" "advancing ((m, u) # rs)" "0 \<le> sint m" by auto
  from Cons.IH [OF a(4,3)] one_rate [OF Cons.prems(1) a(1,2)] show ?case
    by (simp add: x)
qed simp


definition demo_poll :: "i64 \<Rightarrow> time \<Rightarrow> poll" where
  "demo_poll n now = \<lparr>po_got = GotResponse 200 (Inr (metric_line ''checks_total'' n)), po_at = now, po_over = now, po_done = None\<rparr>"

definition failed_poll :: "time \<Rightarrow> poll" where
  "failed_poll now = \<lparr>po_got = GetError ''refused'', po_at = now, po_over = now, po_done = None\<rparr>"

lemma demo_poll_reads [simp]:
  "checks_total (demo_poll n u) = Inr n" "checks_total (failed_poll u) = Inl (GetFailed ''refused'')"
  using find_metric_line [OF metric_names_plain(1), of "''checks_total''" n "[]"]
  by (simp_all add: checks_total_def demo_poll_def failed_poll_def readMetric_def)

lemma demo_poll_times [simp]:
  "po_over (demo_poll b u) = u" "po_at (demo_poll b u) = u" "po_done (demo_poll b u) = None"
  "po_over (failed_poll u) = u" "po_at (failed_poll u) = u" "po_done (failed_poll u) = None"
  by (simp_all add: demo_poll_def failed_poll_def)


section \<open>The dashboard's own targets\<close>

definition literal :: "string \<Rightarrow> bool" where
  "literal s \<longleftrightarrow> list_all (\<lambda>c. c \<noteq> CHR ''%'' \<and> c \<noteq> CHR ''_'' \<and> c \<noteq> CHR 0x5C) s"

lemma like_everything: "sql_like ''%'' s"
  by (induction s) simp_all

lemma like_literal: "literal p \<Longrightarrow> sql_like (p @ ''%'') s \<longleftrightarrow> prefix p s"
proof (induction p arbitrary: s)
  case Nil
  then show ?case by (simp add: like_everything)
next
  case (Cons c p)
  then show ?case by (cases s) (simp_all add: literal_def)
qed

definition load_mark :: "load_flags \<Rightarrow> string" where
  "load_mark f = load_prefix (lf_host f) (lf_port f)"

definition own_targets :: "load_flags \<Rightarrow> tables \<Rightarrow> (target \<times> time) list" where
  "own_targets f tb = filter (\<lambda>(t, _). \<not> prefix (load_mark f) (URL t)) (tb_targets tb)"

lemma literal_mark: "literal (lf_host f) \<Longrightarrow> literal (lf_port f) \<Longrightarrow> literal (load_mark f)"
  by (simp add: literal_def load_mark_def load_prefix_def)

lemma own_after_delete:
  assumes "literal (load_mark f)"
  shows "tb_targets (sql_delete_like (load_mark f @ ''%'') tb) = own_targets f tb"
    and "own_targets f (sql_delete_like (load_mark f @ ''%'') tb) = own_targets f tb"
  by (simp_all add: sql_delete_like_def own_targets_def like_literal [OF assms] Let_def)

lemma own_after_insert:
  "sql_insert_all ids now k us tb = Inr tb' \<Longrightarrow> list_all (prefix (load_mark f)) us \<Longrightarrow>
     own_targets f tb' = own_targets f tb"
proof (induction us arbitrary: k tb)
  case (Cons u us)
  from Cons.prems(1) obtain t tb1 where one: "sql_insert_target (ids k) now u tb = Inr (t, tb1)"
    "sql_insert_all ids now (Suc k) us tb1 = Inr tb'"
    by (auto split: sum.splits)
  from one(1) Cons.prems(2) have "own_targets f tb1 = own_targets f tb"
    by (auto simp: sql_insert_target_def own_targets_def Let_def split: if_splits)
  with Cons.IH [OF one(2)] Cons.prems(2) show ?case by simp
qed simp

lemma load_urls_marked: "list_all (prefix p) (load_urls p n)"
  by (simp add: load_urls_def list_all_iff)

lemma own_after_seed:
  "seed_rows f e tb = Inr tb' \<Longrightarrow> own_targets f tb' = own_targets f tb"
  using load_urls_marked [of "load_mark f"]
  by (auto simp: seed_rows_def load_mark_def [symmetric] split: option.splits intro: own_after_insert)

lemma finish_own:
  assumes "literal (load_mark f)" and "finish_load f e baseline samples tb = (r, tb')"
  shows "own_targets f tb' = own_targets f tb \<and> (\<forall>rep. r = LoadDone rep \<longrightarrow> tb_targets tb' = own_targets f tb)"
  using assms(2) own_after_delete [OF assms(1), of tb]
  by (auto simp: finish_load_def load_mark_def [symmetric] Let_def split: if_splits option.splits)

lemma measure_own:
  assumes "literal (load_mark f)" and "measure_load f e tb = Some (r, tb')"
  shows "own_targets f tb' = own_targets f tb \<and> (\<forall>rep. r = LoadDone rep \<longrightarrow> tb_targets tb' = own_targets f tb)"
  using assms(2) finish_own [OF assms(1)]
  by (auto simp: measure_load_def split: sum.splits option.splits)

text \<open>
  C29. A load run spares the dashboard's own targets. For a host and a port without
  wildcard characters, and as long as the program does not touch them meanwhile,
  every way the run can end, failures and panics included, leaves the targets whose
  URL does not have the load prefix as they were, in their order; and a run that
  ends with its report leaves no other target behind.
\<close>

theorem load_spares_own_targets:
  assumes "literal (lf_host f)" and "literal (lf_port f)" and "\<And>tb. own_targets f (le_app e tb) = own_targets f tb"
    and "run_load f e tb = Some (r, tb')"
  shows "own_targets f tb' = own_targets f tb \<and> (\<forall>rep. r = LoadDone rep \<longrightarrow> tb_targets tb' = own_targets f tb)"
proof -
  note lit = literal_mark [OF assms(1,2)]
  show ?thesis
    using assms(4) own_after_delete [OF lit, of tb] own_after_seed measure_own [OF lit] assms(3)
    by (auto simp: run_load_def load_mark_def [symmetric] Let_def split: sum.splits option.splits if_splits)
qed

definition demo_flags :: load_flags where
  "demo_flags = \<lparr>lf_targets = 1, lf_duration = Second, lf_sample = Second, lf_host = ''target'', lf_port = ''8099''\<rparr>"

definition demo_load :: load_env where
  "demo_load = \<lparr>le_config = Inr \<lparr>Port = 8080, DatabaseURL = ''postgres://x'', MaxWorkers = 64, CheckInterval = 30 * Second,
      CheckTimeout = 10 * Second, DomainRPS = 5\<rparr>,
     le_open = None, le_ping = None, le_clear = None, le_seed = None, le_ids = (\<lambda>_. ''7''), le_now = 0,
     le_wait = [demo_poll 10 5], le_start = 0,
     le_polls = [demo_poll 10 5, demo_poll 30 1000000005],
     le_app = (\<lambda>tb. tb), le_query = None, le_query_now = 0,
     le_percentile = (\<lambda>_ _. 0), le_cleanup = None\<rparr>"

lemma demo_flags_fields:
  "lf_targets demo_flags = 1" "lf_duration demo_flags = Second" "lf_sample demo_flags = Second"
  "lf_host demo_flags = ''target''" "lf_port demo_flags = ''8099''"
  "\<exists>cfg. le_config demo_load = Inr cfg" "le_open demo_load = None" "le_ping demo_load = None"
  "le_clear demo_load = None" "le_seed demo_load = None" "le_ids demo_load = (\<lambda>_. ''7'')" "le_now demo_load = 0"
  "le_wait demo_load = [demo_poll 10 5]" "le_start demo_load = 0"
  "le_polls demo_load = [demo_poll 10 5, demo_poll 30 1000000005]" "le_app demo_load = (\<lambda>tb. tb)"
  by (simp_all add: demo_flags_def demo_load_def)

theorem load_spares_own_targets_witness:
  "\<exists>r tb'. run_load demo_flags demo_load \<lparr>tb_targets = [(\<lparr>ID = ''1'', URL = ''http://a/''\<rparr>, 0)], tb_checks = []\<rparr>
       = Some (r, tb') \<and> own_targets demo_flags tb' = [(\<lparr>ID = ''1'', URL = ''http://a/''\<rparr>, 0)]"
proof -
  let ?tb = "\<lparr>tb_targets = [(\<lparr>ID = ''1'', URL = ''http://a/''\<rparr>, 0)], tb_checks = []\<rparr>"
  note f = demo_flags_fields
  have div: "0 < sint (i64_div Second 2)" by (simp add: sint_i64_div_pos)
  have "\<exists>tb2. seed_rows demo_flags demo_load (sql_delete_like pat ?tb) = Inr tb2" for pat
    by (auto simp: seed_rows_def f load_urls_def sql_insert_target_def sql_delete_like_def
        target_ids_def target_urls_def load_prefix_def Let_def)
  then obtain tb2 where seed: "seed_rows demo_flags demo_load (sql_delete_like (load_prefix ''target'' ''8099'' @ ''%'') ?tb) = Inr tb2"
    by blast
  have "measure_load demo_flags demo_load tb2 \<noteq> None"
    using div by (simp add: measure_load_def waitForChecks_def sampleMetrics_def NewTicker_def f first_total_def sample_loop_eq)
  then obtain r0 tb0 where measure: "measure_load demo_flags demo_load tb2 = Some (r0, tb0)" by auto
  obtain cfg where cfg: "le_config demo_load = Inr cfg" using f(6) by blast
  have "\<exists>r tb'. run_load demo_flags demo_load ?tb = Some (r, tb')"
    using seed measure by (simp add: run_load_def cfg f Let_def)
  then obtain r tb' where run: "run_load demo_flags demo_load ?tb = Some (r, tb')" by blast
  have "literal (lf_host demo_flags)" "literal (lf_port demo_flags)" "\<And>tb. own_targets demo_flags (le_app demo_load tb) = own_targets demo_flags tb"
    by (simp_all add: demo_flags_def demo_load_def literal_def)
  from load_spares_own_targets [OF this run] run show ?thesis
    by (simp add: own_targets_def load_mark_def demo_flags_def load_prefix_def)
qed

end
