(* ===== verification/Spec2Isabelle.thy ===== *)
theory Spec2Isabelle
  imports Bucket_Rate Manager_Props Metrics Config Sse_Timing Timed_Round Pool_Tick Run_Schedule Draining Targetsrv
    Limited_Round Browser Migrations Routes Loadtest
begin

text \<open>
  A model of pulse-monitor, an uptime monitor written in Go: it checks a list of
  URLs in rounds, stores every result in PostgreSQL and shows them live on a
  dashboard that browsers follow over server-sent events.

  Every definition is translated from the code under \<open>src/\<close>. Concurrent parts are
  step relations over atomic actions (a channel operation, a critical section, a
  store call); a theorem about them holds for every interleaving. Sequential parts
  are functions. Nothing is bounded by fuel: loops are structural or driven by the
  list of what the outside answers, and \<open>Check\<close> is bounded by a rank (at most
  \<open>10 n + 1\<close> steps for \<open>n\<close> targets).

  \<^bold>\<open>The parts of the program and their theories\<close>

  \<^item> Base: \<open>Pulse_Prelude\<close> (64-bit integers, durations, panics, counting in lists),
    \<open>Go_Transitions\<close> (runs of step relations; the locales \<open>invariant_system\<close>,
    \<open>ranked_system\<close>, \<open>simulation\<close> and \<open>forward_simulation\<close>), \<open>Go_Runtime\<close> (channels,
    tickers; the locale \<open>bounded_queue\<close>), \<open>Go_Strings\<close> (\<open>strings\<close>, \<open>strconv\<close>),
    \<open>Go_Http\<close> (\<open>http.ResponseWriter\<close>), \<open>Go_Url\<close> (\<open>net/url\<close> of Go 1.25.0).
  \<^item> Rate limiter, \<open>internal/ratelimit\<close>: \<open>Bucket\<close> has the operations of
    \<open>bucket.go\<close>; \<open>Bucket_System\<close> adds the refill goroutine, the ticker, the clock and
    any number of waiters; \<open>Bucket_Rate\<close> proves the bound on the rate, blocking,
    closing, and the refinement to an abstract ledger of tokens. \<open>Manager\<close> is
    \<open>manager.go\<close>, the buckets behind addresses (locale \<open>keyed_store\<close>); \<open>Manager_Props\<close>
    proves one bucket per key, isolation and shutdown.
  \<^item> Checks, \<open>internal/monitor/monitor.go\<close>: \<open>Monitor_Check\<close> is \<open>checkOne\<close> with \<open>domainOf\<close>
    and the results; \<open>Pool_System\<close> is \<open>Pool.Check\<close>, one goroutine per target over the
    shared semaphore; \<open>Pool_Invariant\<close> and \<open>Pool_Props\<close> prove order and contents of the
    results, the bound on workers, the balance of the metrics, termination and
    freedom from deadlock. \<open>Limited_Checks\<close> composes the pool with the manager, so that
    what the limiter answers is what \<open>Manager.Wait\<close> returns; \<open>Limited_Rate\<close> follows one
    bucket through the composition (\<open>forward_simulation\<close>) and bounds the requests
    that reach a domain, \<open>Limited_Round\<close> how many targets of a domain a round can
    find up. \<open>Pool_Tick\<close> is \<open>tick\<close> over its two interfaces (locale
    \<open>monitor_world\<close>), \<open>Pool_Run\<close> is \<open>Run\<close> with its ticker and context. \<open>Timed_Check\<close> and
    \<open>Timed_Round\<close> give \<open>Check\<close> and \<open>tick\<close> a clock and bound the time of a round by
    batches of \<open>MaxWorkers\<close> checks; \<open>Run_Schedule\<close> uses such a bound for the moments at
    which \<open>Run\<close> begins its rounds.
  \<^item> Storage, \<open>internal/store/store.go\<close> over \<open>migrations/001_init.sql\<close>: \<open>Store\<close> has the
    tables, the statements with the constraints of the schema, the five operations
    and the contract the HTTP layer uses (locale \<open>target_store\<close>). \<open>Migrations\<close> has the
    script of the schema as one transaction, \<open>runMigrations\<close>, and server processes that
    start one after the other on one database.
  \<^item> Metrics, \<open>internal/metrics/metrics.go\<close>: \<open>Metrics\<close>, with the reader of the load test.
  \<^item> Events, \<open>internal/sse/hub.go\<close> and \<open>HandleEvents\<close>: \<open>Sse_Frame\<close> frames an event and
    states what a browser reads back, \<open>Sse_Hub\<close> is the hub over a heap of channels,
    \<open>Sse_Stream\<close> the system of tabs, hub and publishers, \<open>Sse_Timing\<close> one tab with its
    heartbeat and the clock: when a dead or cancelled stream leaves.
  \<^item> HTTP, \<open>internal/handlers\<close>: \<open>Handlers\<close> has every handler, publisher and \<open>Recover\<close>;
    \<open>Routes\<close> the patterns of \<open>Register\<close> and \<open>run\<close> with the matching of the mux, and the
    whole surface behind \<open>Recover\<close>. \<open>Live_System\<close> interleaves requests with rounds at
    their store calls and publications; \<open>Live_Runs\<close> proves that the announcements add up,
    shows two orders that can occur, and that an undisturbed request or round is the
    sequential function; \<open>Tab_View\<close> follows the rows of a browser tab, from the page it
    was sent and the announcements after it subscribed. \<open>Dashboard\<close> joins \<open>Live_System\<close>
    with \<open>Sse_Stream\<close> and follows a target from the table over the hub and the bytes
    of the stream to the rows of a browser.
  \<^item> Pages, \<open>web/templates\<close>: \<open>Html\<close> has the escaper of \<open>html/template\<close> and a reader of
    HTML, over documents and over templates whose values are left open, with the proof
    that the two agree; \<open>Templates\<close> the page and the five fragments; \<open>Fragments\<close> the
    documents they read as, whatever the values are. \<open>Browser\<close> puts them into \<open>Dashboard\<close>:
    the rows are then read from the bytes of the page and of the stream.
  \<^item> Programs: \<open>Config\<close> is \<open>internal/config\<close>, \<open>Server\<close> is \<open>cmd/server\<close> (start-up,
    failures, shutdown, what is logged) with the handler of \<open>cmd/targetsrv\<close>, \<open>Shutdown\<close>
    runs its last part beside the monitor loop against the clock, \<open>Draining\<close> adds the open
    streams and the requests of the HTTP server, \<open>Targetsrv\<close> is the
    command line of \<open>cmd/targetsrv\<close>, \<open>Loadtest\<close> is
    \<open>cmd/loadtest\<close>. This theory holds the properties that span components.

  \<^bold>\<open>How they interact\<close>

  \<open>run\<close> loads the configuration, opens the store, creates limiter, hub, metrics,
  handlers and pool, and starts \<open>Run\<close>, which calls \<open>tick\<close>; a round lists the targets,
  calls \<open>Check\<close>, whose goroutines wait for the limiter and report to the metrics,
  then publishes and records each result and publishes the stats. The handlers
  change the store and publish to the hub, which hands each frame to the channel of
  every open tab.

  \<^bold>\<open>Arguments of the model\<close>

  What is not code of the repository is an argument: the answers of servers and of
  the database driver with its faults, new ids and clocks, \<open>PERCENTILE_CONT\<close>, which
  text is which UUID, \<open>strconv.Quote\<close>, the static file server, the order in which Go
  ranges over a map and which ready case a \<open>select\<close> takes. The handlers take the template
  engine as an argument too, so that what is proved of them holds for any templates;
  \<open>Templates\<close> is the instance. Of \<open>htmx\<close>, which the page loads, only the documented
  out-of-band swaps are used, as the hypothesis \<open>htmx_swaps\<close>.

  \<^bold>\<open>Not modelled\<close>

  The script and style of the page and the embedding of files; parsing the templates at
  start-up (its failure is an answer in \<open>Server\<close>); the text of log lines and of
  wrapped errors beyond what is stored or shown; connection pooling and TLS of the HTTP client. Outside \<open>Bucket_System\<close>,
  \<open>Limited_Checks\<close>, \<open>Sse_Timing\<close>, \<open>Timed_Round\<close>, \<open>Run_Schedule\<close>, \<open>Shutdown\<close>
  and \<open>Draining\<close> timeouts are not timed: a deadline shows as the answer \<open>deadline exceeded\<close> of the call it bounds, at any moment, so
  the theorems hold for every timing. Where there is a clock, computation, rendering and
  writes take no time. Bytes of a failed write count as not received. The uptime of the
  metrics is an argument. The rates of the load report are exact rationals where the
  code rounds to \<open>float64\<close>, and its printed layout is left out. \<open>net/url\<close> is as of
  Go 1.25.0, without the stricter checks of bracketed hosts that later releases add.
\<close>

section \<open>Configuration and components\<close>

text \<open>
  An accepted configuration starts, within one more bound. When \<open>Load\<close> accepts
  and asks for at most 1000000000 requests per second, \<open>Run\<close> can create its ticker,
  the limiter admits a first request for every host without a panic, and the pool
  has as many slots as workers were configured.
\<close>

theorem accepted_config_starts:
  assumes "fst (Load f e0) = Inr cfg" and "sint (DomainRPS cfg) \<le> 1000000000"
  shows "(\<exists>s. Run_start (CheckInterval cfg) now = Inr s) \<and>
     (\<exists>r. Manager_Wait (NewManager (DomainRPS cfg)) ctx host now c = Inr r) \<and>
     int (ch_cap (sem (Pool_New l st (MaxWorkers cfg) (CheckTimeout cfg) pub))) = sint (MaxWorkers cfg)"
proof (intro conjI)
  have cfg: "0 < sint (CheckInterval cfg)" "1 \<le> sint (MaxWorkers cfg)"
    using assms(1) by (simp_all add: Load_Inr_iff validate_None_iff Let_def)
  show "\<exists>s. Run_start (CheckInterval cfg) now = Inr s"
    using cfg(1) by (simp add: Run_start_def NewTicker_def)
  obtain b where "NewBucket (DomainRPS cfg) now = Inr b" using NewBucket_total [OF assms(2)] by blast
  then show "\<exists>r. Manager_Wait (NewManager (DomainRPS cfg)) ctx host now c = Inr r"
    by (simp add: Manager_Wait_def Manager_bucketFor_def NewManager_def Let_def split: option.split)
  show "int (ch_cap (sem (Pool_New l st (MaxWorkers cfg) (CheckTimeout cfg) pub))) = sint (MaxWorkers cfg)"
    using cfg(2) by (simp add: Pool_New_def)
qed

theorem accepted_config_starts_witness:
  "\<exists>cfg s. fst (Load NoFile [''DATABASE_URL'' \<mapsto> ''postgres://x'']) = Inr cfg \<and>
     Run_start (CheckInterval cfg) 0 = Inr s \<and>
     int (ch_cap (sem (Pool_New True True (MaxWorkers cfg) (CheckTimeout cfg) True))) = 64"
proof -
  have l: "fst (Load NoFile [''DATABASE_URL'' \<mapsto> ''postgres://x'']) =
     Inr \<lparr>Port = 8080, DatabaseURL = ''postgres://x'', MaxWorkers = 64, CheckInterval = 30 * Second,
           CheckTimeout = 10 * Second, DomainRPS = 5\<rparr>"
    using Load_defaults [of "''postgres://x''"] by simp
  from accepted_config_starts [OF l, of 0 None "''a''" WaitToken True True True] l show ?thesis
    by auto
qed

text \<open>
  C38. Without that bound the first check brings the process down. \<open>DOMAIN_RPS\<close> has no
  upper limit: with 2000000000 the configuration is accepted, and the first call of
  \<open>limiter.Wait\<close> panics, in the goroutine of a check, where nothing recovers it.
\<close>

theorem accepted_rate_panics:
  "\<exists>cfg. fst (Load NoFile [''DATABASE_URL'' \<mapsto> ''postgres://x'', ''DOMAIN_RPS'' \<mapsto> ''2000000000'']) = Inr cfg \<and>
     Manager_Wait (NewManager (DomainRPS cfg)) ctx host now c = Inl NonPositiveTicker"
proof -
  let ?e = "[''DATABASE_URL'' \<mapsto> ''postgres://x'', ''DOMAIN_RPS'' \<mapsto> ''2000000000'']"
  have "Atoi ''2000000000'' = Inr 2000000000"
    by (simp add: Atoi_def ParseInt_def ParseUint_def is_digit_def digit_value_def)
  then have l: "fst (Load NoFile ?e) = Inr \<lparr>Port = 8080, DatabaseURL = ''postgres://x'', MaxWorkers = 64,
      CheckInterval = 30 * Second, CheckTimeout = 10 * Second, DomainRPS = 2000000000\<rparr>"
    by (simp add: Load_def load_env_def loadDotEnv_def Let_def intEnv_def secondsEnv_def LookupEnv_def Getenv_def
        validate_def default_defs Second_def)
  have "NewBucket 2000000000 now = Inl NonPositiveTicker"
    using NewBucket_total NewBucket_eq by (simp add: NewBucket_eq clamped_def)
  then show ?thesis
    using l by (simp add: Manager_Wait_def Manager_bucketFor_def NewManager_def)
qed

section \<open>From the targets to the rows\<close>


text \<open>One target without a host: its result does not depend on any answer.\<close>

definition lone_target :: target where
  "lone_target = \<lparr>ID = ''1'', URL = ''http://:8080/''\<rparr>"

definition lone_start :: check_sys where
  "lone_start = \<lparr>cs_pool = demo_pool, cs_targets = [lone_target], cs_ctx = None,
     cs_pc = [Spawned], cs_results = [zero_result], cs_calls = []\<rparr>"

lemma lone_init: "Check_init demo_pool [lone_target] lone_start"
  by (simp add: Check_init_def lone_start_def)

lemma lone_result: "StatusCode (fst (checkOne l lone_target a)) = 0 \<and> Duration (fst (checkOne l lone_target a)) = 0"
proof -
  have "domainOf ''http://:8080/'' = Inl (NoHost ''http://:8080/'')" by code_simp
  then show ?thesis by (simp add: checkOne_def checkOne_domain_def lone_target_def)
qed


end
